(* ===== verification/Prelude.thy ===== *)
theory Prelude
  imports Main "HOL-Library.Word"
begin

text \<open>
  What every component shares: the names of the machine types, the reading and writing of
  multi-byte integers (\<open>from_be_bytes\<close>, \<open>to_be_bytes\<close> and their native-endian forms of the
  Rust standard library), checked subtraction, the range accesses of slices, and lemmas on
  lists and words. \<open>usize\<close> is a \<open>nat\<close>: the model is of a 64-bit target, where every
  length of a live buffer is below \<open>2 ^ 63\<close>; where the code converts a \<open>usize\<close> to a fixed
  width the conversion is written out.
\<close>

unbundle bit_operations_syntax

named_theorems byte_simps \<open>reading and writing of multi-byte integers\<close>

type_synonym byte = "8 word"
type_synonym bytes = "8 word list"
type_synonym u16 = "16 word"
type_synonym u32 = "32 word"
type_synonym u64 = "64 word"
type_synonym usize = nat

abbreviation usize_MAX :: usize where
  "usize_MAX \<equiv> 2 ^ 64 - 1"

subsection \<open>Checked arithmetic and slice accesses\<close>

text \<open>
  \<open>None\<close> is an abort: an arithmetic overflow, a failed assertion, an out-of-range index, or
  an access that is undefined behaviour because an \<open>unsafe\<close> block skips the check.
\<close>

definition checked_sub :: "nat \<Rightarrow> nat \<Rightarrow> nat option" where
  "checked_sub a b = (if b \<le> a then Some (a - b) else None)"

lemma checked_sub_Some [simp]: "b \<le> a \<Longrightarrow> checked_sub a b = Some (a - b)"
  by (simp add: checked_sub_def)

lemma checked_sub_eq_Some_iff: "checked_sub a b = Some c \<longleftrightarrow> b \<le> a \<and> c = a - b"
  by (auto simp: checked_sub_def)

text \<open>The elements \<open>i .. j - 1\<close> of a slice, \<open>None\<close> out of range.\<close>

definition slice :: "'a list \<Rightarrow> nat \<Rightarrow> nat \<Rightarrow> 'a list option" where
  "slice xs i j = (if i \<le> j \<and> j \<le> length xs then Some (drop i (take j xs)) else None)"

text \<open>Writing \<open>ys\<close> over the elements of \<open>xs\<close> from index \<open>i\<close> on.\<close>

definition splice :: "'a list \<Rightarrow> nat \<Rightarrow> 'a list \<Rightarrow> 'a list" where
  "splice xs i ys = take i xs @ ys @ drop (i + length ys) xs"

lemma slice_Some [simp]:
  "i \<le> j \<Longrightarrow> j \<le> length xs \<Longrightarrow> slice xs i j = Some (drop i (take j xs))"
  by (simp add: slice_def)

lemma slice_eq_Some_iff:
  "slice xs i j = Some ys \<longleftrightarrow> i \<le> j \<and> j \<le> length xs \<and> ys = drop i (take j xs)"
  by (auto simp: slice_def)

lemma slice_eq_None_iff: "slice xs i j = None \<longleftrightarrow> \<not> (i \<le> j \<and> j \<le> length xs)"
  by (simp add: slice_def)

lemma slice_append:
  assumes "slice xs i j = Some ys"
  shows "slice (xs @ zs) i j = Some ys"
  using assms by (auto simp: slice_eq_Some_iff)

lemma length_splice [simp]:
  "i + length ys \<le> length xs \<Longrightarrow> length (splice xs i ys) = length xs"
  by (simp add: splice_def)

lemma take_splice [simp]: "n \<le> i \<Longrightarrow> i \<le> length xs \<Longrightarrow> take n (splice xs i ys) = take n xs"
  by (simp add: splice_def)

lemma drop_splice [simp]:
  "i + length ys \<le> n \<Longrightarrow> i + length ys \<le> length xs \<Longrightarrow> drop n (splice xs i ys) = drop n xs"
  by (simp add: splice_def)

lemma splice_append:
  "i + length ys \<le> length xs \<Longrightarrow> splice (xs @ zs) i ys = splice xs i ys @ zs"
  by (simp add: splice_def)

subsection \<open>Multi-byte integers\<close>

text \<open>Big-endian: the first byte is the most significant one.\<close>

fun from_be_bytes :: "bytes \<Rightarrow> 'a::len word" where
  "from_be_bytes [] = 0"
| "from_be_bytes (b # bs) = push_bit (8 * length bs) (ucast b) OR from_be_bytes bs"

fun to_be_bytes :: "nat \<Rightarrow> 'a::len word \<Rightarrow> bytes" where
  "to_be_bytes 0 w = []"
| "to_be_bytes (Suc n) w = ucast (drop_bit (8 * n) w) # to_be_bytes n w"

text \<open>Native-endian reading and writing, for either byte order of the target.\<close>

definition from_ne_bytes :: "bool \<Rightarrow> bytes \<Rightarrow> 'a::len word" where
  "from_ne_bytes big bs = (if big then from_be_bytes bs else from_be_bytes (rev bs))"

definition to_ne_bytes :: "bool \<Rightarrow> nat \<Rightarrow> 'a::len word \<Rightarrow> bytes" where
  "to_ne_bytes big n w = (if big then to_be_bytes n w else rev (to_be_bytes n w))"

lemma length_to_be_bytes [simp]: "length (to_be_bytes n w) = n"
  by (induction n) simp_all

lemma length_to_ne_bytes [simp]: "length (to_ne_bytes big n w) = n"
  by (simp add: to_ne_bytes_def)

lemma bit_from_be_bytes [byte_simps]:
  "bit (from_be_bytes bs :: 'a::len word) i \<longleftrightarrow>
     i < LENGTH('a) \<and> i < 8 * length bs \<and> bit (bs ! (length bs - 1 - i div 8)) (i mod 8)"
proof (induction bs arbitrary: i)
  case Nil
  then show ?case by simp
next
  case (Cons b bs)
  show ?case
  proof (cases "i < 8 * length bs")
    case True
    then have "i div 8 < length bs" by (simp add: less_mult_imp_div_less mult.commute)
    then have "(b # bs) ! (length (b # bs) - 1 - i div 8) = bs ! (length bs - 1 - i div 8)"
      by (simp add: nth_Cons')
    with True Cons.IH show ?thesis by (auto simp: bit_simps)
  next
    case False
    then obtain r where i: "i = 8 * length bs + r" by (metis le_Suc_ex not_less)
    have low: "\<not> bit (from_be_bytes bs :: 'a word) i" using Cons.IH False by simp
    have high: "bit (from_be_bytes (b # bs) :: 'a word) i \<longleftrightarrow> i < LENGTH('a) \<and> bit b r"
      using low by (auto simp: i bit_or_iff bit_push_bit_iff bit_ucast_iff)
    show ?thesis
    proof (cases "r < 8")
      case True
      then have "i div 8 = length bs" "i mod 8 = r" by (simp_all add: i)
      with True high show ?thesis by (simp add: i)
    next
      case False
      then have "\<not> bit b r" using bit_imp_le_length [of b r] by auto
      with False high show ?thesis by (simp add: i)
    qed
  qed
qed

lemma nth_to_be_bytes [byte_simps]:
  "i < n \<Longrightarrow> to_be_bytes n w ! i = ucast (drop_bit (8 * (n - 1 - i)) w)"
proof (induction n arbitrary: i)
  case (Suc n)
  then show ?case by (cases i) simp_all
qed simp

lemma bit_nth_to_be_bytes:
  "i < n \<Longrightarrow> j < 8 \<Longrightarrow> bit (to_be_bytes n w ! i) j = bit w (8 * (n - 1 - i) + j)"
  by (simp add: nth_to_be_bytes bit_simps)

lemma to_be_bytes_xor:
  fixes w v :: "'a::len word"
  shows "to_be_bytes n (w XOR v) = map2 (XOR) (to_be_bytes n w) (to_be_bytes n v)"
  by (induction n) (simp_all add: drop_bit_xor unsigned_xor_eq)

lemma to_from_be_bytes [simp]:
  assumes "length bs = n" and "8 * n \<le> LENGTH('a)"
  shows "to_be_bytes n (from_be_bytes bs :: 'a::len word) = bs"
proof (rule nth_equalityI)
  fix i assume "i < length (to_be_bytes n (from_be_bytes bs :: 'a word))"
  then have i: "i < n" by simp
  show "to_be_bytes n (from_be_bytes bs :: 'a word) ! i = bs ! i"
  proof (rule bit_word_eqI)
    fix j assume "j < LENGTH(8)"
    then have j: "j < 8" by simp
    have "(8 * (n - 1 - i) + j) div 8 = n - 1 - i" "(8 * (n - 1 - i) + j) mod 8 = j"
      using j by simp_all
    moreover have "8 * (n - 1 - i) + j < 8 * n" using i j by simp
    moreover have "8 * (n - 1 - i) + j < LENGTH('a)" using calculation assms(2) by linarith
    ultimately show "bit (to_be_bytes n (from_be_bytes bs :: 'a word) ! i) j = bit (bs ! i) j"
      using i j assms(1) by (simp add: bit_nth_to_be_bytes bit_from_be_bytes)
  qed
qed (simp add: assms)

lemma from_to_be_bytes [simp]:
  fixes w :: "'a::len word"
  assumes "LENGTH('a) \<le> 8 * n"
  shows "from_be_bytes (to_be_bytes n w) = w"
proof (rule bit_word_eqI)
  fix i assume i: "i < LENGTH('a)"
  with assms have d: "i div 8 < n" by linarith
  have e: "8 * (n - 1 - (n - 1 - i div 8)) + i mod 8 = i" using d by simp
  have "n - 1 - i div 8 < n" using d by linarith
  then have "bit (to_be_bytes n w ! (n - 1 - i div 8)) (i mod 8) = bit w i"
    using bit_nth_to_be_bytes [of "n - 1 - i div 8" n "i mod 8" w] by (simp only: e)
  then show "bit (from_be_bytes (to_be_bytes n w) :: 'a word) i = bit w i"
    using i d assms by (simp add: bit_from_be_bytes)
qed

lemma to_from_ne_bytes [simp]:
  "length bs = n \<Longrightarrow> 8 * n \<le> LENGTH('a) \<Longrightarrow>
     to_ne_bytes big n (from_ne_bytes big bs :: 'a::len word) = bs"
  by (simp add: to_ne_bytes_def from_ne_bytes_def)

lemma to_ne_bytes_xor:
  fixes w v :: "'a::len word"
  shows "to_ne_bytes big n (w XOR v) = map2 (XOR) (to_ne_bytes big n w) (to_ne_bytes big n v)"
  by (simp add: to_ne_bytes_def to_be_bytes_xor zip_rev rev_map)

lemma length_2_eq: "length xs = 2 \<Longrightarrow> \<exists>a b. xs = [a, b]"
  by (auto simp: length_Suc_conv eval_nat_numeral)

lemma length_4_eq: "length xs = 4 \<Longrightarrow> \<exists>a b c d. xs = [a, b, c, d]"
  by (auto simp: length_Suc_conv eval_nat_numeral)

end
