(* ===== verification/Mask.thy ===== *)
theory Mask
  imports Prelude
begin

text \<open>
  The frame masking of \<open>src/mask.rs\<close>: the byte-at-a-time routine, the 8-byte fallback, the
  eight SIMD routines and the run-time dispatch between them. A slice is a list of bytes
  together with the address of its first byte, because \<open>align_to_mut\<close> splits it by address.
  Every routine rotates the key in place, so the key is an argument and a result.
  The locale \<open>masking\<close> states what a masking routine promises its callers; every routine
  here is an interpretation of it, so that they all agree and any of them may be picked.
\<close>

subsection \<open>The routines\<close>

text \<open>
  \<open>align_to_mut\<close> of the standard library: an unaligned prefix, as many aligned blocks of
  \<open>sz\<close> bytes as fit, and the rest. The blocks are taken to be aligned to their size; on a target where less
  is asked for the prefix is shorter, and no result below depends on its length.
\<close>

fun blocks :: "nat \<Rightarrow> nat \<Rightarrow> 'a list \<Rightarrow> 'a list list" where
  "blocks sz 0 xs = []"
| "blocks sz (Suc n) xs = take sz xs # blocks sz n (drop sz xs)"

definition align_to_mut :: "nat \<Rightarrow> nat \<Rightarrow> 'a list \<Rightarrow> 'a list \<times> 'a list list \<times> 'a list" where
  "align_to_mut sz addr xs =
     (let p = (sz - addr mod sz) mod sz
      in if length xs < p then (xs, [], [])
         else let rest = drop p xs; n = length rest div sz
              in (take p xs, blocks sz n rest, drop (sz * n) rest))"

definition rotate_mask :: "bytes \<Rightarrow> nat \<Rightarrow> bytes" where
  "rotate_mask key offset =
     to_be_bytes 4 (word_rotl (offset mod length key * 8) (from_be_bytes key :: u32))"

definition one_byte_at_once :: "bytes \<Rightarrow> bytes \<Rightarrow> bytes \<times> bytes" where
  "one_byte_at_once key input =
     (rotate_mask key (length input),
      map (\<lambda>(index, byte). byte XOR key ! (index mod length key)) (enumerate 0 input))"

text \<open>
  The shape the fallback and the SIMD routines share: \<open>unaligned\<close> on a non-empty prefix,
  \<open>block\<close> on the aligned blocks with the key as it is after the prefix, \<open>unaligned\<close> on a
  non-empty suffix.
\<close>

definition mask_aligned ::
  "(nat \<Rightarrow> bytes \<Rightarrow> bytes \<Rightarrow> bytes \<times> bytes) \<Rightarrow> (bytes \<Rightarrow> bytes \<Rightarrow> bytes) \<Rightarrow> nat
     \<Rightarrow> nat \<Rightarrow> bytes \<Rightarrow> bytes \<Rightarrow> bytes \<times> bytes" where
  "mask_aligned unaligned block sz addr key input =
     (let (prefix, aligned_data, suffix) = align_to_mut sz addr input;
          (key1, prefix') = (if prefix \<noteq> [] then unaligned addr key prefix else (key, prefix));
          aligned' = map (block key1) aligned_data;
          suffix_addr = addr + length prefix + sz * length aligned_data;
          (key2, suffix') =
            (if suffix \<noteq> [] then unaligned suffix_addr key1 suffix else (key1, suffix))
      in (key2, prefix' @ concat aligned' @ suffix'))"

text \<open>One 64-bit block: the key twice, combined as native-endian integers.\<close>

definition fallback_block :: "bool \<Rightarrow> bytes \<Rightarrow> bytes \<Rightarrow> bytes" where
  "fallback_block big key block =
     (let masking_key = ucast (from_ne_bytes big key :: u32) :: u64;
          mask = push_bit 32 masking_key OR masking_key
      in to_ne_bytes big 8 ((from_ne_bytes big block :: u64) XOR mask))"

definition fallback_frame :: "bool \<Rightarrow> nat \<Rightarrow> bytes \<Rightarrow> bytes \<Rightarrow> bytes \<times> bytes" where
  "fallback_frame big =
     mask_aligned (\<lambda>_. one_byte_at_once) (fallback_block big) 8"

text \<open>
  A vector register of \<open>4 * lanes\<close> bytes in memory order: the key, read as a native-endian
  integer, in every lane; the vector exclusive or combines byte by byte.
\<close>

definition set1_epi32 :: "bool \<Rightarrow> nat \<Rightarrow> u32 \<Rightarrow> bytes" where
  "set1_epi32 big lanes v = concat (replicate lanes (to_ne_bytes big 4 v))"

definition vec_xor :: "bytes \<Rightarrow> bytes \<Rightarrow> bytes" where
  "vec_xor a b = map2 (XOR) a b"

definition simd_block :: "bool \<Rightarrow> nat \<Rightarrow> bytes \<Rightarrow> bytes \<Rightarrow> bytes" where
  "simd_block big lanes key block = vec_xor block (set1_epi32 big lanes (from_ne_bytes big key))"

definition frame_avx512 :: "bool \<Rightarrow> nat \<Rightarrow> bytes \<Rightarrow> bytes \<Rightarrow> bytes \<times> bytes" where
  "frame_avx512 big = mask_aligned (fallback_frame big) (simd_block big 16) 64"

definition frame_avx2 :: "bool \<Rightarrow> nat \<Rightarrow> bytes \<Rightarrow> bytes \<Rightarrow> bytes \<times> bytes" where
  "frame_avx2 big = mask_aligned (fallback_frame big) (simd_block big 8) 32"

definition frame_sse2 :: "bool \<Rightarrow> nat \<Rightarrow> bytes \<Rightarrow> bytes \<Rightarrow> bytes \<times> bytes" where
  "frame_sse2 big = mask_aligned (fallback_frame big) (simd_block big 4) 16"

definition frame_neon :: "bool \<Rightarrow> nat \<Rightarrow> bytes \<Rightarrow> bytes \<Rightarrow> bytes \<times> bytes" where
  "frame_neon big = mask_aligned (fallback_frame big) (simd_block big 4) 16"

definition frame_altivec :: "bool \<Rightarrow> nat \<Rightarrow> bytes \<Rightarrow> bytes \<Rightarrow> bytes \<times> bytes" where
  "frame_altivec big = mask_aligned (fallback_frame big) (simd_block big 4) 16"

definition frame_s390x_vector :: "bool \<Rightarrow> nat \<Rightarrow> bytes \<Rightarrow> bytes \<Rightarrow> bytes \<times> bytes" where
  "frame_s390x_vector big = mask_aligned (fallback_frame big) (simd_block big 4) 16"

definition frame_lasx_vector :: "bool \<Rightarrow> nat \<Rightarrow> bytes \<Rightarrow> bytes \<Rightarrow> bytes \<times> bytes" where
  "frame_lasx_vector big = mask_aligned (fallback_frame big) (simd_block big 8) 32"

definition frame_lsx_vector :: "bool \<Rightarrow> nat \<Rightarrow> bytes \<Rightarrow> bytes \<Rightarrow> bytes \<times> bytes" where
  "frame_lsx_vector big = mask_aligned (fallback_frame big) (simd_block big 4) 16"

text \<open>
  The target and what its feature detection reports at run time. \<open>nightly\<close> is the cargo
  feature; \<open>slice_addr\<close> is the address at which the slice handed to the masking starts.
\<close>

datatype target_arch = X86 | X86_64 | Arm | Aarch64 | PowerPC | PowerPC64 | S390x | LoongArch64
  | OtherArch

datatype cpu_feature = Avx512f | Avx2 | Sse2 | Neon | Altivec | Vector | Lasx | Lsx

record platform =
  target :: target_arch
  nightly :: bool
  big_endian :: bool
  detected :: "cpu_feature list"
  slice_addr :: nat

text \<open>A target without vector instructions, for concrete instances.\<close>

definition scalar_platform :: platform where
  "scalar_platform = \<lparr>target = OtherArch, nightly = False, big_endian = False, detected = [],
     slice_addr = 0\<rparr>"

definition mask_frame :: "platform \<Rightarrow> bytes \<Rightarrow> bytes \<Rightarrow> bytes \<times> bytes" where
  "mask_frame pf key input =
     (let big = big_endian pf; addr = slice_addr pf; has = (\<lambda>f. f \<in> set (detected pf))
      in if (target pf = X86 \<or> target pf = X86_64) \<and> has Avx512f then frame_avx512 big addr key input
         else if (target pf = X86 \<or> target pf = X86_64) \<and> has Avx2 then frame_avx2 big addr key input
         else if (target pf = X86 \<or> target pf = X86_64) \<and> has Sse2 then frame_sse2 big addr key input
         else if nightly pf \<and> target pf = Arm \<and> has Neon then frame_neon big addr key input
         else if target pf = Aarch64 \<and> has Neon then frame_neon big addr key input
         else if nightly pf \<and> target pf = PowerPC \<and> has Altivec then frame_altivec big addr key input
         else if nightly pf \<and> target pf = PowerPC64 \<and> has Altivec
           then frame_altivec big addr key input
         else if nightly pf \<and> target pf = S390x \<and> has Vector
           then frame_s390x_vector big addr key input
         else if nightly pf \<and> target pf = LoongArch64 \<and> has Lasx
           then frame_lasx_vector big addr key input
         else if nightly pf \<and> target pf = LoongArch64 \<and> has Lsx
           then frame_lsx_vector big addr key input
         else fallback_frame big addr key input)"

subsection \<open>What masking computes\<close>

text \<open>The masking of RFC 6455: byte \<open>i\<close> is combined with byte \<open>i mod 4\<close> of the key.\<close>

definition mask_bytes :: "bytes \<Rightarrow> bytes \<Rightarrow> bytes" where
  "mask_bytes key xs = map (\<lambda>i. xs ! i XOR key ! (i mod 4)) [0..<length xs]"

lemma length_mask_bytes [simp]: "length (mask_bytes key xs) = length xs"
  by (simp add: mask_bytes_def)

lemma mask_bytes_Nil [simp]: "mask_bytes key [] = []"
  by (simp add: mask_bytes_def)

lemma nth_mask_bytes: "i < length xs \<Longrightarrow> mask_bytes key xs ! i = xs ! i XOR key ! (i mod 4)"
  by (simp add: mask_bytes_def)

lemma mask_bytes_involution: "mask_bytes key (mask_bytes key xs) = xs"
  by (rule nth_equalityI) (simp_all add: nth_mask_bytes xor.assoc)

lemma mask_bytes_append:
  assumes "length key = 4"
  shows "mask_bytes key (xs @ ys) = mask_bytes key xs @ mask_bytes (rotate (length xs) key) ys"
proof (rule nth_equalityI)
  fix i assume "i < length (mask_bytes key (xs @ ys))"
  then have i: "i < length xs + length ys" by simp
  show "mask_bytes key (xs @ ys) ! i
      = (mask_bytes key xs @ mask_bytes (rotate (length xs) key) ys) ! i"
  proof (cases "i < length xs")
    case True
    then show ?thesis by (simp add: nth_append nth_mask_bytes)
  next
    case False
    have "rotate (length xs) key ! ((i - length xs) mod 4) = key ! (i mod 4)"
      using assms False by (simp add: nth_rotate mod_simps)
    with False i show ?thesis by (simp add: nth_append nth_mask_bytes)
  qed
qed simp

lemma mask_bytes_eq_Nil [simp]: "mask_bytes key xs = [] \<longleftrightarrow> xs = []"
  by (simp add: mask_bytes_def)

subsection \<open>The contract of a masking routine\<close>

locale masking =
  fixes masker :: "bytes \<Rightarrow> bytes \<Rightarrow> bytes \<times> bytes"
  assumes key_after: "length key = 4 \<Longrightarrow> fst (masker key xs) = rotate (length xs) key"
    and masked: "length key = 4 \<Longrightarrow> snd (masker key xs) = mask_bytes key xs"
begin

lemma masker_eq: "length key = 4 \<Longrightarrow> masker key xs = (rotate (length xs) key, mask_bytes key xs)"
  by (simp add: prod_eq_iff key_after masked)

lemma length_masked: "length key = 4 \<Longrightarrow> length (snd (masker key xs)) = length xs"
  by (simp add: masked)

lemma length_key_after: "length key = 4 \<Longrightarrow> length (fst (masker key xs)) = 4"
  by (simp add: key_after)

lemma unmask_masked: "length key = 4 \<Longrightarrow> snd (masker key (snd (masker key xs))) = xs"
  by (simp add: masked mask_bytes_involution)

text \<open>
  Masking a payload piece by piece, each piece with the key the previous piece left behind,
  is masking it at once.
\<close>

lemma masker_append:
  assumes "length key = 4"
  shows "masker key (xs @ ys) =
    (let (key', xs') = masker key xs; (key'', ys') = masker key' ys in (key'', xs' @ ys'))"
  using assms by (simp add: masker_eq mask_bytes_append rotate_rotate add.commute)

end

subsection \<open>The routines satisfy the contract\<close>

lemma byte_position: "j < 8 \<Longrightarrow> (8 * q + j) mod 32 = 8 * (q mod 4) + (j::nat)"
  using mod_mult2_eq [of "8 * q + j" 8 4] by simp

lemma rotl_bytes:
  assumes "length key = 4" and m: "m < 4" and i: "i < 4"
  shows "to_be_bytes 4 (word_rotl (m * 8) (from_be_bytes key :: u32)) ! i = key ! ((m + i) mod 4)"
proof (rule bit_word_eqI)
  fix j assume "j < LENGTH(8)"
  then have j: "j < 8" by simp
  define q where "q = (3 - i + (4 - m)) mod 4"
  have "i \<in> {0, 1, 2, 3}" "m \<in> {0, 1, 2, 3}" using i m by auto
  then have q: "q < 4" "3 - q = (m + i) mod 4" by (auto simp: q_def)
  let ?p = "(8 * (3 - i) + j + (32 - m * 8)) mod 32"
  have "8 * (3 - i) + j + (32 - m * 8) = 8 * (3 - i + (4 - m)) + j"
    using m by (simp add: diff_mult_distrib2)
  then have p: "?p = 8 * q + j"
    using j by (simp only: byte_position q_def)
  have "bit (to_be_bytes 4 (word_rotl (m * 8) (from_be_bytes key :: u32)) ! i) j
      = bit (from_be_bytes key :: u32) ?p"
    using i j m by (simp add: bit_nth_to_be_bytes bit_word_rotl_iff) linarith
  also have "\<dots> = bit (key ! (3 - q)) j"
    using assms(1) j q(1) by (simp add: p bit_from_be_bytes)
  finally show "bit (to_be_bytes 4 (word_rotl (m * 8) (from_be_bytes key :: u32)) ! i) j
      = bit (key ! ((m + i) mod 4)) j" by (simp only: q(2))
qed

lemma rotate_mask_eq [simp]:
  assumes "length key = 4"
  shows "rotate_mask key n = rotate n key"
proof -
  have "to_be_bytes 4 (word_rotl (n mod 4 * 8) (from_be_bytes key :: u32)) = rotate (n mod 4) key"
    using assms by (intro nth_equalityI) (simp_all add: rotl_bytes nth_rotate)
  then show ?thesis
    using assms rotate_conv_mod [of n key] by (simp add: rotate_mask_def)
qed

lemma rotate_4_multiple: "length key = 4 \<Longrightarrow> 4 dvd n \<Longrightarrow> rotate n key = key"
  by (metis dvd_eq_mod_eq_0 rotate_conv_mod rotate0 id_apply)

text \<open>A block routine for aligned blocks of \<open>sz\<close> bytes.\<close>

definition block_ok :: "nat \<Rightarrow> (bytes \<Rightarrow> bytes \<Rightarrow> bytes) \<Rightarrow> bool" where
  "block_ok sz block \<longleftrightarrow> 4 dvd sz \<and> 0 < sz \<and>
     (\<forall>key b. length key = 4 \<longrightarrow> length b = sz \<longrightarrow> block key b = mask_bytes key b)"

lemma concat_blocks:
  "sz * n \<le> length xs \<Longrightarrow> concat (blocks sz n xs) = take (sz * n) xs"
  by (induction n arbitrary: xs) (simp_all add: take_add [symmetric] add.commute)

lemma length_blocks [simp]: "length (blocks sz n xs) = n"
  by (induction n arbitrary: xs) simp_all

lemma block_length: "sz * n \<le> length xs \<Longrightarrow> b \<in> set (blocks sz n xs) \<Longrightarrow> length b = sz"
proof (induction n arbitrary: xs)
  case (Suc n)
  then show ?case using Suc.IH [of "drop sz xs"] by auto
qed simp

lemma mask_blocks:
  assumes "length key = 4" and "4 dvd sz" and "\<And>b. b \<in> set bs \<Longrightarrow> length b = sz"
  shows "concat (map (mask_bytes key) bs) = mask_bytes key (concat bs)"
  using assms(3)
proof (induction bs)
  case (Cons b bs)
  then show ?case
    using assms by (simp add: mask_bytes_append rotate_4_multiple)
qed simp

lemma align_to_mut_split:
  assumes "0 < sz" and "align_to_mut sz addr xs = (pre, bl, suf)"
  shows "xs = pre @ concat bl @ suf" and "\<And>b. b \<in> set bl \<Longrightarrow> length b = sz"
proof -
  let ?p = "(sz - addr mod sz) mod sz"
  let ?rest = "drop ?p xs"
  have "sz * (length ?rest div sz) \<le> length ?rest" by simp
  then have "take ?p xs @ concat (blocks sz (length ?rest div sz) ?rest)
      @ drop (sz * (length ?rest div sz)) ?rest = xs"
    by (simp only: concat_blocks append_take_drop_id)
  with assms(2) show "xs = pre @ concat bl @ suf"
    by (cases "length xs < ?p") (simp_all add: align_to_mut_def Let_def)
  have bl: "bl = [] \<or> bl = blocks sz (length ?rest div sz) ?rest"
    using assms(2) by (cases "length xs < ?p") (simp_all add: align_to_mut_def Let_def)
  have le: "sz * (length ?rest div sz) \<le> length ?rest" by simp
  fix b assume "b \<in> set bl"
  with bl have "b \<in> set (blocks sz (length ?rest div sz) ?rest)" by auto
  with le show "length b = sz" by (rule block_length)
qed

lemma mask_aligned_correct:
  assumes "\<And>a. masking (unaligned a)" and block: "block_ok sz block"
  shows "masking (mask_aligned unaligned block sz addr)"
proof -
  have "mask_aligned unaligned block sz addr key xs = (rotate (length xs) key, mask_bytes key xs)"
    if key: "length key = 4" for key xs
  proof -
    have un: "unaligned a k ys = (rotate (length ys) k, mask_bytes k ys)" if "length k = 4" for a k ys
      using masking.masker_eq [OF assms(1) that] .
    obtain pre bl suf where split: "align_to_mut sz addr xs = (pre, bl, suf)"
      by (metis prod_cases3)
    have sz: "0 < sz" "4 dvd sz" using block by (simp_all add: block_ok_def)
    note xs = align_to_mut_split(1) [OF sz(1) split]
    note len = align_to_mut_split(2) [OF sz(1) split]
    let ?key1 = "rotate (length pre) key"
    have key1: "length ?key1 = 4" using key by simp
    have "map (block ?key1) bl = map (mask_bytes ?key1) bl"
      using block len key1 by (auto simp: block_ok_def)
    then have mid: "concat (map (block ?key1) bl) = mask_bytes ?key1 (concat bl)"
      using mask_blocks [OF key1 sz(2), of bl] len by presburger
    have "4 dvd length (concat bl)"
      using len sz(2) by (induction bl) auto
    then have rot: "rotate (length (concat bl)) ?key1 = ?key1"
      using key1 by (intro rotate_4_multiple)
    have "rotate (length xs) key = rotate (length suf) (rotate (length (concat bl)) ?key1)"
      unfolding xs by (simp add: rotate_rotate add.commute add.left_commute)
    then have keys: "rotate (length xs) key = rotate (length suf) ?key1" by (simp only: rot)
    have "mask_bytes key xs = mask_bytes key pre @ mask_bytes ?key1 (concat bl)
        @ mask_bytes (rotate (length (concat bl)) ?key1) suf"
      unfolding xs using key key1 by (simp only: mask_bytes_append)
    then show ?thesis
      using un [OF key] un [OF key1] mid unfolding keys rot
      by (cases "pre = []"; cases "suf = []") (simp_all add: mask_aligned_def split)
  qed
  then show ?thesis by unfold_locales simp_all
qed

lemma length_concat_replicate: "length (concat (replicate n xs)) = n * length xs"
  by (induction n) simp_all

lemma xor_repeated_key:
  assumes "length key = 4"
  shows "length b = 4 * n \<Longrightarrow> map2 (XOR) b (concat (replicate n key)) = mask_bytes key b"
proof (induction n arbitrary: b)
  case (Suc n)
  have 1: "length (take 4 b) = 4" "length (drop 4 b) = 4 * n" using Suc.prems by simp_all
  have "map2 (XOR) (take 4 b @ drop 4 b) (key @ concat (replicate n key))
      = map2 (XOR) (take 4 b) key @ map2 (XOR) (drop 4 b) (concat (replicate n key))"
    using 1 assms by (subst zip_append) simp_all
  also have "map2 (XOR) (take 4 b) key = mask_bytes key (take 4 b)"
    using 1(1) assms by (intro nth_equalityI) (simp_all add: nth_mask_bytes)
  also have "map2 (XOR) (drop 4 b) (concat (replicate n key))
      = mask_bytes (rotate (length (take 4 b)) key) (drop 4 b)"
    using Suc.IH 1 assms by (simp add: rotate_4_multiple)
  finally show ?case
    using mask_bytes_append [OF assms, of "take 4 b" "drop 4 b"] by simp
qed simp

lemma from_be_bytes_append:
  "(from_be_bytes (xs @ ys) :: 'a::len word)
     = push_bit (8 * length ys) (from_be_bytes xs) OR from_be_bytes ys"
  by (induction xs) (simp_all add: push_bit_or or.assoc distrib_left add.commute)

lemma ucast_from_be_bytes:
  "8 * length bs \<le> LENGTH('a) \<Longrightarrow>
     (ucast (from_be_bytes bs :: 'a::len word) :: 'b::len word) = from_be_bytes bs"
  by (rule bit_word_eqI) (auto simp: bit_simps bit_from_be_bytes)

lemma block_ok_fallback: "block_ok 8 (fallback_block big)"
proof -
  have "fallback_block big key b = mask_bytes key b" if key: "length key = 4" and b: "length b = 8"
    for key b
  proof -
    have "push_bit 32 (ucast (from_ne_bytes big key :: u32) :: u64)
        OR ucast (from_ne_bytes big key :: u32) = from_ne_bytes big (key @ key)"
      using key by (simp add: from_ne_bytes_def from_be_bytes_append ucast_from_be_bytes)
    then have "fallback_block big key b = map2 (XOR) b (concat (replicate 2 key))"
      using key b by (simp add: fallback_block_def to_ne_bytes_xor numeral_2_eq_2)
    then show ?thesis using xor_repeated_key [OF key, of b 2] b by simp
  qed
  then show ?thesis by (simp add: block_ok_def)
qed

lemma block_ok_simd: "0 < lanes \<Longrightarrow> block_ok (4 * lanes) (simd_block big lanes)"
  by (simp add: block_ok_def simd_block_def vec_xor_def set1_epi32_def xor_repeated_key)

interpretation one_byte: masking one_byte_at_once
  by unfold_locales
    (auto simp: one_byte_at_once_def enumerate_eq_zip mask_bytes_def intro!: nth_equalityI)

interpretation fallback: masking "fallback_frame big addr"
  unfolding fallback_frame_def
  by (intro mask_aligned_correct one_byte.masking_axioms block_ok_fallback)

lemmas simd_masking =
  mask_aligned_correct [OF fallback.masking_axioms block_ok_simd]

interpretation avx512: masking "frame_avx512 big addr"
  unfolding frame_avx512_def using simd_masking [where lanes = 16] by simp

interpretation avx2: masking "frame_avx2 big addr"
  unfolding frame_avx2_def using simd_masking [where lanes = 8] by simp

interpretation sse2: masking "frame_sse2 big addr"
  unfolding frame_sse2_def using simd_masking [where lanes = 4] by simp

interpretation neon: masking "frame_neon big addr"
  unfolding frame_neon_def using simd_masking [where lanes = 4] by simp

interpretation altivec: masking "frame_altivec big addr"
  unfolding frame_altivec_def using simd_masking [where lanes = 4] by simp

interpretation s390x: masking "frame_s390x_vector big addr"
  unfolding frame_s390x_vector_def using simd_masking [where lanes = 4] by simp

interpretation lasx: masking "frame_lasx_vector big addr"
  unfolding frame_lasx_vector_def using simd_masking [where lanes = 8] by simp

interpretation lsx: masking "frame_lsx_vector big addr"
  unfolding frame_lsx_vector_def using simd_masking [where lanes = 4] by simp

interpretation mask: masking "mask_frame pf"
  by unfold_locales
    (simp_all add: mask_frame_def Let_def avx512.masker_eq avx2.masker_eq sse2.masker_eq neon.masker_eq
      altivec.masker_eq s390x.masker_eq lasx.masker_eq lsx.masker_eq fallback.masker_eq)

subsection \<open>Properties\<close>

text \<open>
  C1: On every platform (any architecture, byte order, detected CPU features and slice address)
  the dispatched masking routine returns the same bytes and leaves the same rotated key as the
  byte-at-a-time routine.
\<close>

theorem mask_frame_eq_one_byte_at_once:
  assumes "length key = 4"
  shows "mask_frame pf key input = one_byte_at_once key input"
  using assms by (simp add: mask.masker_eq one_byte.masker_eq)

theorem mask_frame_eq_one_byte_at_once_witness:
  "mask_frame \<lparr>target = X86_64, nightly = False, big_endian = False, detected = [Sse2],
      slice_addr = 3\<rparr> [1, 2, 3, 4] (replicate 40 7)
    = one_byte_at_once [1, 2, 3, 4] (replicate 40 7)"
  by (rule mask_frame_eq_one_byte_at_once) simp

text \<open>
  C2: Masking is its own inverse, and masking a payload in two pieces, the second with the key
  the first call left in place and possibly on another platform, is masking it at once. The
  decoder relies on the second fact when it unmasks a text payload as its bytes arrive.
\<close>

theorem mask_frame_involution_and_split:
  assumes "length key = 4"
  shows "snd (mask_frame pf key (snd (mask_frame pf' key xs))) = xs
    \<and> (let (key', xs') = mask_frame pf key xs; (key'', ys') = mask_frame pf' key' ys
       in mask_frame pf'' key (xs @ ys) = (key'', xs' @ ys'))"
  using assms
  by (simp add: mask.masker_eq mask_bytes_involution mask_bytes_append rotate_rotate add.commute)

theorem mask_frame_involution_and_split_witness:
  "snd (mask_frame scalar_platform [1, 2, 3, 4]
     (snd (mask_frame scalar_platform [1, 2, 3, 4] [9, 9, 9]))) = [9, 9, 9]"
  using mask_frame_involution_and_split
    [of "[1, 2, 3, 4]" scalar_platform scalar_platform "[9, 9, 9]" "[]" scalar_platform]
  by simp

end
