(* ===== verification/Errors.thy ===== *)
theory Errors
  imports Prelude
begin

text \<open>
  The error types: \<open>ProtocolError\<close> of \<open>src/proto/error.rs\<close>, the handshake error of
  \<open>src/upgrade/mod.rs\<close> and the crate's \<open>Error\<close> of \<open>src/error.rs\<close>. Errors of the I/O layer,
  of \<open>httparse\<close> and of the TLS libraries are code that is not in the repository: the first
  two are the kinds the code itself names or passes on, the last are numbers.
\<close>

datatype protocol_error =
    FragmentedControlFrame
  | InvalidCloseCode
  | InvalidOpcode
  | InvalidPayloadLength
  | InvalidRsv
  | InvalidUtf8
  | UnexpectedMaskedFrame
  | UnexpectedUnmaskedFrame

fun as_str :: "protocol_error \<Rightarrow> string" where
  "as_str FragmentedControlFrame = ''fragmented control frame''"
| "as_str InvalidCloseCode = ''invalid close code''"
| "as_str InvalidOpcode = ''invalid opcode''"
| "as_str InvalidPayloadLength = ''invalid payload length''"
| "as_str InvalidRsv = ''invalid extension''"
| "as_str InvalidUtf8 = ''invalid utf-8''"
| "as_str UnexpectedMaskedFrame = ''unexpected masked frame''"
| "as_str UnexpectedUnmaskedFrame = ''unexpected unmasked frame''"

text \<open>The kinds of I/O error the code creates; every other one comes from the transport.\<close>

datatype io_error = WriteZero | UnexpectedEof | TransportError nat

text \<open>The errors of \<open>httparse\<close> the code creates or passes on.\<close>

datatype httparse_error = HeaderName | HeaderValue | Status | Version | OtherParseError nat

datatype upgrade_error =
    MissingHeader string
  | UpgradeNotWebSocket
  | ConnectionNotUpgrade
  | UnsupportedWebSocketVersion
  | Parsing httparse_error
  | DidNotSwitchProtocols u16
  | WrongWebSocketAccept

datatype error =
    AlreadyClosed
  | CannotResolveHost
  | NoUriConfigured
  | DisallowedHeader
  | Protocol protocol_error
  | PayloadTooLong (too_long_len: usize) (too_long_max: usize)
  | Io io_error
  | NativeTls nat
  | InvalidDNSName
  | Rustls nat
  | UnsupportedScheme
  | Upgrade upgrade_error
  | NoNativeRootCertificatesFound "nat list"

text \<open>The bytes of an ASCII literal.\<close>

definition ascii :: "string \<Rightarrow> bytes" where
  "ascii s = map of_char s"

lemma length_ascii [simp]: "length (ascii s) = length s"
  by (simp add: ascii_def)

lemma as_str_short: "length (as_str e) \<le> 25"
  by (cases e) simp_all

end
