(* ===== verification/Utf8.thy ===== *)
theory Utf8
  imports Errors
begin

text \<open>
  \<open>src/utf8.rs\<close>: the streaming validator that checks a text message as its bytes arrive.
  The validator calls the third-party crate \<open>simdutf8\<close>, which is an argument of the model
  (the record \<open>simdutf8\<close>); what the crate documents is the locale \<open>simdutf8_lib\<close>.
  UTF-8 itself is specified by the automaton \<open>utf8_run\<close> over the well-formed byte sequences
  of the Unicode standard (table 3-7).
\<close>

subsection \<open>Well-formed UTF-8\<close>

text \<open>\<open>More n lo hi\<close>: inside a code point, \<open>n\<close> bytes to come, the next between \<open>lo\<close> and \<open>hi\<close>.\<close>

datatype utf8_state = Boundary | More nat byte byte

fun utf8_step :: "utf8_state \<Rightarrow> byte \<Rightarrow> utf8_state option" where
  "utf8_step Boundary b =
     (if b \<le> 0x7F then Some Boundary
      else if 0xC2 \<le> b \<and> b \<le> 0xDF then Some (More 1 0x80 0xBF)
      else if b = 0xE0 then Some (More 2 0xA0 0xBF)
      else if b = 0xED then Some (More 2 0x80 0x9F)
      else if 0xE1 \<le> b \<and> b \<le> 0xEF then Some (More 2 0x80 0xBF)
      else if b = 0xF0 then Some (More 3 0x90 0xBF)
      else if 0xF1 \<le> b \<and> b \<le> 0xF3 then Some (More 3 0x80 0xBF)
      else if b = 0xF4 then Some (More 3 0x80 0x8F)
      else None)"
| "utf8_step (More n lo hi) b =
     (if lo \<le> b \<and> b \<le> hi then Some (if n = 1 then Boundary else More (n - 1) 0x80 0xBF)
      else None)"

fun utf8_run :: "utf8_state \<Rightarrow> bytes \<Rightarrow> utf8_state option" where
  "utf8_run s [] = Some s"
| "utf8_run s (b # bs) = (case utf8_step s b of None \<Rightarrow> None | Some s' \<Rightarrow> utf8_run s' bs)"

definition valid_utf8 :: "bytes \<Rightarrow> bool" where
  "valid_utf8 bs \<longleftrightarrow> utf8_run Boundary bs = Some Boundary"

lemma utf8_run_append:
  "utf8_run s (xs @ ys) = (case utf8_run s xs of None \<Rightarrow> None | Some s' \<Rightarrow> utf8_run s' ys)"
  by (induction xs arbitrary: s) (simp_all split: option.split)

lemma utf8_run_prefix: "utf8_run s (xs @ ys) \<noteq> None \<Longrightarrow> utf8_run s xs \<noteq> None"
  by (auto simp: utf8_run_append split: option.splits)

subsection \<open>The validator\<close>

record utf8_error =
  valid_up_to :: nat
  error_len :: "nat option"

text \<open>
  \<open>simdutf8::basic::from_utf8\<close> (whether it returns \<open>Ok\<close>) and \<open>simdutf8::compat::from_utf8\<close>
  (\<open>None\<close> for \<open>Ok\<close>, otherwise its \<open>Utf8Error\<close>).
\<close>

record simdutf8 =
  basic_from_utf8 :: "bytes \<Rightarrow> bool"
  compat_from_utf8 :: "bytes \<Rightarrow> utf8_error option"

definition parse_str :: "simdutf8 \<Rightarrow> bytes \<Rightarrow> protocol_error + bytes" where
  "parse_str U input = (if basic_from_utf8 U input then Inr input else Inl InvalidUtf8)"

record validator =
  partial_codepoint :: bytes
  partial_codepoint_len :: nat

definition new_validator :: validator where
  "new_validator = \<lparr>partial_codepoint = [0, 0, 0, 0], partial_codepoint_len = 0\<rparr>"

text \<open>\<open>None\<close> is the \<open>unreachable_unchecked\<close> of the source.\<close>

definition complete_codepoint_len :: "validator \<Rightarrow> nat option" where
  "complete_codepoint_len v =
     (let b = partial_codepoint v ! 0
      in if b \<le> 0x7F then Some 1
         else if 0xC0 \<le> b \<and> b \<le> 0xDF then Some 2
         else if 0xE0 \<le> b \<and> b \<le> 0xEF then Some 3
         else if 0xF0 \<le> b \<and> b \<le> 0xF7 then Some 4
         else None)"

definition reset :: "validator \<Rightarrow> validator" where
  "reset v = v\<lparr>partial_codepoint_len := 0\<rparr>"

text \<open>
  \<open>feed\<close>, in the two parts of its body: validating the remaining bytes, and completing the
  partial code point before that. The outer \<open>option\<close> is \<open>None\<close> where the code would run into
  \<open>unreachable_unchecked\<close>, an unchecked access outside the 4-byte array, or an underflow.
\<close>

definition feed_remaining ::
  "simdutf8 \<Rightarrow> validator \<Rightarrow> bytes \<Rightarrow> bool \<Rightarrow> ((protocol_error + unit) \<times> validator) option" where
  "feed_remaining U v remaining_bytes is_complete =
     (if is_complete
      then (if basic_from_utf8 U remaining_bytes then Some (Inr (), reset v)
            else Some (Inl InvalidUtf8, reset v))
      else (case compat_from_utf8 U remaining_bytes of
              None \<Rightarrow> Some (Inr (), v)
            | Some utf8_error \<Rightarrow>
                (if error_len utf8_error \<noteq> None then Some (Inl InvalidUtf8, v)
                 else (case checked_sub (length remaining_bytes) (valid_up_to utf8_error) of
                         None \<Rightarrow> None
                       | Some n \<Rightarrow>
                           if length (partial_codepoint v) < n then None
                           else Some (Inr (), v\<lparr>partial_codepoint_len := n,
                             partial_codepoint := splice (partial_codepoint v) 0
                               (drop (valid_up_to utf8_error) remaining_bytes)\<rparr>)))))"

definition feed ::
  "simdutf8 \<Rightarrow> validator \<Rightarrow> bytes \<Rightarrow> bool \<Rightarrow> ((protocol_error + unit) \<times> validator) option" where
  "feed U v input is_complete =
     (if partial_codepoint_len v = 0 then feed_remaining U v input is_complete
      else let available_bytes = length input
      in if available_bytes = 0 \<and> \<not> is_complete then Some (Inr (), v)
         else case complete_codepoint_len v of
           None \<Rightarrow> None
         | Some complete_len \<Rightarrow>
             (case checked_sub complete_len (partial_codepoint_len v) of
                None \<Rightarrow> None
              | Some missing_bytes \<Rightarrow>
                  let bytes_to_copy = min available_bytes missing_bytes;
                      codepoint_len_after_copy = partial_codepoint_len v + bytes_to_copy
                  in if length (partial_codepoint v) < codepoint_len_after_copy then None
                     else let v1 = v\<lparr>partial_codepoint :=
                            splice (partial_codepoint v) (partial_codepoint_len v)
                              (take bytes_to_copy input)\<rparr>;
                          codepoint = take codepoint_len_after_copy (partial_codepoint v1)
                     in if missing_bytes \<le> available_bytes
                        then (if \<not> basic_from_utf8 U codepoint then Some (Inl InvalidUtf8, v1)
                              else feed_remaining U (reset v1) (drop bytes_to_copy input) is_complete)
                        else (case compat_from_utf8 U codepoint of
                                None \<Rightarrow>
                                  feed_remaining U (reset v1) (drop bytes_to_copy input) is_complete
                              | Some utf8_error \<Rightarrow>
                                  if error_len utf8_error \<noteq> None then Some (Inl InvalidUtf8, v1)
                                  else let v2 = v1\<lparr>partial_codepoint_len := codepoint_len_after_copy\<rparr>
                                       in if is_complete then Some (Inl InvalidUtf8, v2)
                                          else Some (Inr (), v2))))"

subsection \<open>The automaton inside a code point\<close>

lemma utf8_step_Boundary_More:
  assumes "utf8_step Boundary b = Some (More m lo hi)"
  shows "1 \<le> m" and "m \<le> 3"
    and "partial_codepoint v ! 0 = b \<Longrightarrow> complete_codepoint_len v = Some (Suc m)"
proof -
  have "(0xC2 \<le> unat b \<and> unat b \<le> 0xDF \<and> m = 1) \<or> (0xE0 \<le> unat b \<and> unat b \<le> 0xEF \<and> m = 2)
      \<or> (0xF0 \<le> unat b \<and> unat b \<le> 0xF4 \<and> m = 3)"
    using assms by (auto simp: word_le_nat_alt split: if_splits)
  then show "1 \<le> m" and "m \<le> 3"
    and "partial_codepoint v ! 0 = b \<Longrightarrow> complete_codepoint_len v = Some (Suc m)"
    by (auto simp: complete_codepoint_len_def word_le_nat_alt)
qed

lemma utf8_run_More:
  "1 \<le> n \<Longrightarrow> length cs \<le> n \<Longrightarrow> utf8_run (More n lo hi) cs = Some s \<Longrightarrow>
     (if length cs = n then s = Boundary else \<exists>lo' hi'. s = More (n - length cs) lo' hi')"
proof (induction cs arbitrary: n lo hi)
  case (Cons c cs)
  show ?case
  proof (cases "n = 1")
    case False
    with Cons.prems have "utf8_run (More (n - 1) 0x80 0xBF) cs = Some s" by (auto split: if_splits)
    moreover have "1 \<le> n - 1" "length cs \<le> n - 1" using Cons.prems(1,2) False by auto
    ultimately have "if length cs = n - 1 then s = Boundary
        else \<exists>lo' hi'. s = More (n - 1 - length cs) lo' hi'"
      by (intro Cons.IH)
    with Cons.prems(1) show ?thesis by (auto split: if_splits)
  qed (use Cons.prems in \<open>auto split: if_splits\<close>)
qed auto

text \<open>A proper, non-empty prefix of the encoding of one code point.\<close>

definition codepoint_prefix :: "bytes \<Rightarrow> bool" where
  "codepoint_prefix cp \<longleftrightarrow> (\<exists>b cs m lo hi. cp = b # cs \<and> utf8_step Boundary b = Some (More m lo hi)
     \<and> length cs < m \<and> utf8_run Boundary cp \<noteq> None)"

lemma codepoint_prefix_not_valid: "codepoint_prefix cp \<Longrightarrow> \<not> valid_utf8 cp"
proof -
  assume "codepoint_prefix cp"
  then obtain b cs m lo hi where cp: "cp = b # cs" "utf8_step Boundary b = Some (More m lo hi)"
    "length cs < m" by (auto simp: codepoint_prefix_def)
  from utf8_step_Boundary_More(1) [OF cp(2)] have "utf8_run (More m lo hi) cs \<noteq> Some Boundary"
    using utf8_run_More [of m cs lo hi Boundary] cp(3) by auto
  then show ?thesis using cp(1,2) by (simp add: valid_utf8_def del: utf8_step.simps)
qed

text \<open>What is left over behind the longest valid prefix is such a prefix.\<close>

lemma incomplete_tail:
  assumes run: "utf8_run Boundary bs \<noteq> None" and "\<not> valid_utf8 bs"
    and "v \<le> length bs" and valid: "valid_utf8 (take v bs)"
    and longest: "\<And>i. v < i \<Longrightarrow> i \<le> length bs \<Longrightarrow> \<not> valid_utf8 (take i bs)"
  shows "codepoint_prefix (drop v bs)"
proof -
  define rest where "rest = drop v bs"
  have bs: "bs = take v bs @ rest" by (simp add: rest_def)
  have run_ext: "utf8_run Boundary (take v bs @ ys) = utf8_run Boundary ys" for ys
    using valid by (simp add: valid_utf8_def utf8_run_append)
  have runr: "utf8_run Boundary rest \<noteq> None" using run run_ext [of rest] bs by simp
  have short: "\<not> valid_utf8 (take (Suc k) rest)" if "k < length rest" for k
  proof -
    have "v + Suc k \<le> length bs" using that \<open>v \<le> length bs\<close> by (simp add: rest_def)
    from longest [OF _ this] have "\<not> valid_utf8 (take v bs @ take (Suc k) rest)"
      by (simp only: rest_def take_add [symmetric]) simp
    then show ?thesis by (simp only: valid_utf8_def run_ext) simp
  qed
  have "rest \<noteq> []" using assms(2) valid bs by auto
  then obtain b cs where rest: "rest = b # cs" by (cases rest) auto
  from runr rest obtain s1 where s1: "utf8_step Boundary b = Some s1" "utf8_run s1 cs \<noteq> None"
    by (auto split: option.splits simp del: utf8_step.simps)
  have "s1 \<noteq> Boundary" using short [of 0] s1 rest by (auto simp: valid_utf8_def simp del: utf8_step.simps)
  then obtain m lo hi where m: "s1 = More m lo hi" by (cases s1) auto
  note m1 = utf8_step_Boundary_More(1) [OF s1(1) [unfolded m]]
  have "length cs < m"
  proof (rule ccontr)
    assume "\<not> length cs < m"
    then have len: "length (take m cs) = m" by simp
    have "utf8_run s1 (take m cs) \<noteq> None" using s1(2) utf8_run_prefix [of s1 "take m cs" "drop m cs"] by simp
    then have "utf8_run s1 (take m cs) = Some Boundary"
      using utf8_run_More [OF m1, of "take m cs" lo hi] len m by auto
    then have "valid_utf8 (take (Suc m) rest)"
      using s1 rest by (simp add: valid_utf8_def del: utf8_step.simps)
    then show False using short [of m] \<open>\<not> length cs < m\<close> rest by simp
  qed
  then show ?thesis using s1(1) m rest runr unfolding codepoint_prefix_def rest_def by blast
qed

subsection \<open>What the validator relies on and what it promises\<close>

text \<open>
  The documented behaviour of \<open>simdutf8\<close>: \<open>basic\<close> accepts exactly the valid strings; \<open>compat\<close>
  does too, its \<open>valid_up_to\<close> is the length of the longest valid prefix, and its \<open>error_len\<close> is
  \<open>None\<close> exactly when the input ended inside a code point that could still be completed.
\<close>

locale simdutf8_lib =
  fixes U :: simdutf8
  assumes basic: "basic_from_utf8 U bs \<longleftrightarrow> valid_utf8 bs"
    and compat_Ok: "compat_from_utf8 U bs = None \<longleftrightarrow> valid_utf8 bs"
    and compat_error_len:
      "compat_from_utf8 U bs = Some e \<Longrightarrow> error_len e = None \<longleftrightarrow> utf8_run Boundary bs \<noteq> None"
    and compat_valid_up_to: "compat_from_utf8 U bs = Some e \<Longrightarrow> valid_up_to e \<le> length bs
      \<and> valid_utf8 (take (valid_up_to e) bs)
      \<and> (\<forall>i. valid_up_to e < i \<longrightarrow> i \<le> length bs \<longrightarrow> \<not> valid_utf8 (take i bs))"

text \<open>
  The bytes the validator holds back, the automaton state they stand for, and the invariant:
  the array has four bytes and what is stored is a proper prefix of one code point.
\<close>

definition stored :: "validator \<Rightarrow> bytes" where
  "stored v = take (partial_codepoint_len v) (partial_codepoint v)"

definition validator_inv :: "validator \<Rightarrow> bool" where
  "validator_inv v \<longleftrightarrow> length (partial_codepoint v) = 4 \<and> partial_codepoint_len v \<le> 4
     \<and> (partial_codepoint_len v = 0 \<or> codepoint_prefix (stored v))"

lemma validator_inv_new [simp]: "validator_inv new_validator"
  by (simp add: validator_inv_def new_validator_def)

lemma stored_new [simp]: "stored new_validator = []"
  by (simp add: stored_def new_validator_def)

lemma validator_inv_reset [simp]: "validator_inv v \<Longrightarrow> validator_inv (reset v)"
  by (simp add: validator_inv_def reset_def)

lemma stored_reset [simp]: "stored (reset v) = []"
  by (simp add: stored_def reset_def)

lemma stored_eq_Nil: "validator_inv v \<Longrightarrow> stored v = [] \<longleftrightarrow> partial_codepoint_len v = 0"
  by (auto simp: validator_inv_def stored_def)

text \<open>
  The contract of feeding: the call never aborts, keeps the invariant, and answers by the bytes
  held back followed by the input. At the end of a message it accepts exactly the valid strings
  and holds nothing back after accepting; before, it rejects what no continuation can repair and
  otherwise holds back the unfinished code point.
\<close>

definition feed_spec ::
  "bytes \<Rightarrow> bool \<Rightarrow> ((protocol_error + unit) \<times> validator) option \<Rightarrow> bool" where
  "feed_spec bs is_complete res \<longleftrightarrow> (\<exists>r v'. res = Some (r, v') \<and> validator_inv v' \<and>
     (if is_complete
      then (if valid_utf8 bs then r = Inr () \<and> stored v' = [] else r = Inl InvalidUtf8)
      else (case utf8_run Boundary bs of
              None \<Rightarrow> r = Inl InvalidUtf8
            | Some s \<Rightarrow> r = Inr () \<and> utf8_run Boundary (stored v') = Some s)))"

lemma codepoint_prefix_length: "codepoint_prefix cp \<Longrightarrow> 1 \<le> length cp \<and> length cp \<le> 3"
  unfolding codepoint_prefix_def using utf8_step_Boundary_More(2) by fastforce

context simdutf8_lib
begin

lemma feed_remaining_spec:
  assumes inv: "validator_inv v" and empty: "partial_codepoint_len v = 0"
  shows "feed_spec rest is_complete (feed_remaining U v rest is_complete)"
proof (cases is_complete)
  case True
  then show ?thesis using inv by (simp add: feed_spec_def feed_remaining_def basic)
next
  case False
  have [simp]: "stored v = []" using empty by (simp add: stored_def)
  show ?thesis
  proof (cases "compat_from_utf8 U rest")
    case None
    then show ?thesis using False inv compat_Ok [of rest]
      by (simp add: feed_spec_def feed_remaining_def valid_utf8_def)
  next
    case (Some e)
    show ?thesis
    proof (cases "utf8_run Boundary rest")
      case None
      then show ?thesis using False inv Some compat_error_len [OF Some]
        by (simp add: feed_spec_def feed_remaining_def)
    next
      case run: (Some s)
      let ?tail = "drop (valid_up_to e) rest"
      note up = compat_valid_up_to [OF Some]
      have "\<not> valid_utf8 rest" using compat_Ok [of rest] Some by simp
      with up run have tail: "codepoint_prefix ?tail" by (intro incomplete_tail) auto
      have "utf8_run Boundary (take (valid_up_to e) rest @ ?tail) = utf8_run Boundary ?tail"
        using up by (subst utf8_run_append) (simp add: valid_utf8_def)
      then have run_tail: "utf8_run Boundary ?tail = Some s" using run by simp
      have len: "length rest - valid_up_to e \<le> 3" using codepoint_prefix_length [OF tail] by simp
      have "length (partial_codepoint v) = 4" using inv by (simp add: validator_inv_def)
      then show ?thesis using False Some up run run_tail tail len compat_error_len [OF Some]
        by (simp add: feed_spec_def feed_remaining_def validator_inv_def stored_def splice_def)
    qed
  qed
qed

end

text \<open>The code point held back, extended by input that does not go beyond its end.\<close>

lemma extend_prefix:
  assumes cp: "codepoint_prefix cp" and hd: "partial_codepoint v ! 0 = hd cp"
  obtains missing where "complete_codepoint_len v = Some (length cp + missing)" "1 \<le> missing"
    "\<And>ys. length ys = missing \<Longrightarrow> valid_utf8 (cp @ ys) \<or> utf8_run Boundary (cp @ ys) = None"
    "\<And>ys. length ys < missing \<Longrightarrow> utf8_run Boundary (cp @ ys) \<noteq> None \<Longrightarrow> codepoint_prefix (cp @ ys)"
proof -
  from cp obtain b cs m lo hi where b: "cp = b # cs" "utf8_step Boundary b = Some (More m lo hi)"
    "length cs < m" by (auto simp: codepoint_prefix_def)
  note step = utf8_step_Boundary_More [OF b(2)]
  have run: "utf8_run Boundary (cp @ ys) = utf8_run (More m lo hi) (cs @ ys)" for ys
    using b by (simp del: utf8_step.simps)
  show thesis
  proof (rule that [of "m - length cs"])
    show "complete_codepoint_len v = Some (length cp + (m - length cs))"
      using step(3) [of v] hd b by simp
    show "1 \<le> m - length cs" using b(3) by simp
    show "valid_utf8 (cp @ ys) \<or> utf8_run Boundary (cp @ ys) = None"
      if "length ys = m - length cs" for ys
      using utf8_run_More [OF step(1), of "cs @ ys" lo hi] that b(3)
      by (cases "utf8_run (More m lo hi) (cs @ ys)") (auto simp: valid_utf8_def run)
    show "codepoint_prefix (cp @ ys)"
      if "length ys < m - length cs" "utf8_run Boundary (cp @ ys) \<noteq> None" for ys
      unfolding codepoint_prefix_def
      using that b by (intro exI [of _ b] exI [of _ "cs @ ys"] exI [of _ m] exI [of _ lo] exI [of _ hi]) simp
  qed
qed

lemma feed_spec_valid_prefix:
  assumes "valid_utf8 xs" and "feed_spec ys c res"
  shows "feed_spec (xs @ ys) c res"
proof -
  have run: "utf8_run Boundary (xs @ ys) = utf8_run Boundary ys"
    using assms(1) by (simp add: valid_utf8_def utf8_run_append)
  then have "valid_utf8 (xs @ ys) \<longleftrightarrow> valid_utf8 ys" by (simp add: valid_utf8_def)
  with run assms(2) show ?thesis unfolding feed_spec_def by (simp only:)
qed

lemma feed_spec_reject:
  "utf8_run Boundary bs = None \<Longrightarrow> validator_inv v \<Longrightarrow> feed_spec bs c (Some (Inl InvalidUtf8, v))"
  by (auto simp: feed_spec_def valid_utf8_def)

lemma utf8_run_append_None: "utf8_run s xs = None \<Longrightarrow> utf8_run s (xs @ ys) = None"
  by (simp add: utf8_run_append)

lemma hd_stored: "stored v \<noteq> [] \<Longrightarrow> partial_codepoint v ! 0 = hd (stored v)"
  by (simp add: stored_def hd_take hd_conv_nth)

context simdutf8_lib
begin

theorem feed_correct:
  assumes inv: "validator_inv v"
  shows "feed_spec (stored v @ input) is_complete (feed U v input is_complete)"
proof (cases "partial_codepoint_len v = 0")
  case True
  then show ?thesis using feed_remaining_spec [OF inv] by (simp add: feed_def stored_def)
next
  case nonempty: False
  let ?cp = "stored v" let ?n = "partial_codepoint_len v" let ?pc = "partial_codepoint v"
  have pc: "length ?pc = 4" "?n \<le> 4" "codepoint_prefix ?cp" "length ?cp = ?n"
    using inv nonempty by (auto simp: validator_inv_def stored_def)
  obtain missing where missing: "complete_codepoint_len v = Some (?n + missing)" "1 \<le> missing"
    and full: "\<And>ys. length ys = missing \<Longrightarrow> valid_utf8 (?cp @ ys) \<or> utf8_run Boundary (?cp @ ys) = None"
    and short: "\<And>ys. length ys < missing \<Longrightarrow> utf8_run Boundary (?cp @ ys) \<noteq> None
      \<Longrightarrow> codepoint_prefix (?cp @ ys)"
    using extend_prefix [OF pc(3) hd_stored] pc(4) nonempty by (metis list.size(3))
  have four: "?n + missing \<le> 4" using missing(1) by (auto simp: complete_codepoint_len_def Let_def split: if_splits)
  let ?k = "min (length input) missing"
  let ?v1 = "v\<lparr>partial_codepoint := splice ?pc ?n (take ?k input)\<rparr>"
  have k: "length (take ?k input) = ?k" "?n + ?k \<le> 4" using four by auto
  have cp1: "take (?n + ?k) (partial_codepoint ?v1) = ?cp @ take ?k input"
    using k pc by (simp add: splice_def stored_def)
  have inv1: "validator_inv ?v1" "stored ?v1 = ?cp"
    using inv k pc by (auto simp: validator_inv_def stored_def)
  show ?thesis
  proof (cases "input = [] \<and> \<not> is_complete")
    case True
    then show ?thesis using inv nonempty pc(3)
      by (auto simp: feed_def feed_spec_def codepoint_prefix_def)
  next
    case proceed: False
    show ?thesis
    proof (cases "missing \<le> length input")
      case True
      have eq: "feed U v input is_complete =
          (if valid_utf8 (?cp @ take missing input)
           then feed_remaining U (reset ?v1) (drop missing input) is_complete
           else Some (Inl InvalidUtf8, ?v1))"
        using True nonempty missing proceed pc k cp1 by (auto simp: feed_def Let_def basic)
      show ?thesis
      proof (cases "valid_utf8 (?cp @ take missing input)")
        case valid: True
        have "feed_spec (drop missing input) is_complete
            (feed_remaining U (reset ?v1) (drop missing input) is_complete)"
          using inv1(1) by (intro feed_remaining_spec) (simp_all add: reset_def validator_inv_def)
        with valid eq feed_spec_valid_prefix [OF valid] show ?thesis by (metis append.assoc append_take_drop_id)
      next
        case invalid: False
        then have "utf8_run Boundary (?cp @ take missing input) = None"
          using full [of "take missing input"] True by simp
        then have "utf8_run Boundary (?cp @ input) = None"
          using utf8_run_append_None [of Boundary "?cp @ take missing input" "drop missing input"] by simp
        then show ?thesis using eq invalid inv1(1) by (simp add: feed_spec_reject)
      qed
    next
      case False
      then have short_in: "length input < missing" by simp
      let ?v2 = "?v1\<lparr>partial_codepoint_len := ?n + length input\<rparr>"
      have all: "?k = length input" "take ?k input = input" using short_in by auto
      have prefix: "utf8_run Boundary (?cp @ input) \<noteq> None \<Longrightarrow> codepoint_prefix (?cp @ input)"
        using short [OF short_in] .
      then have "\<not> valid_utf8 (?cp @ input)"
        using codepoint_prefix_not_valid by (cases "utf8_run Boundary (?cp @ input)") (auto simp: valid_utf8_def)
      then obtain e where e: "compat_from_utf8 U (?cp @ input) = Some e"
        using compat_Ok [of "?cp @ input"] by (cases "compat_from_utf8 U (?cp @ input)") auto
      have eq: "feed U v input is_complete =
          (if error_len e \<noteq> None then Some (Inl InvalidUtf8, ?v1)
           else if is_complete then Some (Inl InvalidUtf8, ?v2) else Some (Inr (), ?v2))"
        using False nonempty missing proceed pc k(2) cp1 e unfolding all
        by (auto simp: feed_def Let_def)
      show ?thesis
      proof (cases "utf8_run Boundary (?cp @ input)")
        case None
        then show ?thesis using eq inv1(1) compat_error_len [OF e] by (simp add: feed_spec_reject)
      next
        case (Some s)
        have "stored ?v2 = ?cp @ input" using cp1 unfolding all by (simp add: stored_def)
        moreover have "validator_inv ?v2"
          using inv1(1) prefix Some k(2) calculation unfolding all by (simp add: validator_inv_def)
        ultimately show ?thesis
          using eq Some compat_error_len [OF e] \<open>\<not> valid_utf8 (?cp @ input)\<close>
          by (simp add: feed_spec_def)
      qed
    qed
  qed
qed

end

subsection \<open>The crate as its documentation describes it\<close>

text \<open>
  A concrete \<open>simdutf8\<close> that satisfies the documented behaviour, computed from the automaton. It
  shows that the assumptions of \<open>simdutf8_lib\<close> hold together, and concrete runs use it.
\<close>

definition std_compat :: "bytes \<Rightarrow> utf8_error option" where
  "std_compat bs =
     (if valid_utf8 bs then None
      else let v = last (filter (\<lambda>i. valid_utf8 (take i bs)) [0..<Suc (length bs)])
           in Some \<lparr>valid_up_to = v,
                error_len =
                  (if utf8_run Boundary bs \<noteq> None then None
                   else Some (last (1 # filter (\<lambda>j. utf8_run Boundary (take j (drop v bs)) \<noteq> None)
                     [1..<4])))\<rparr>)"

definition std_utf8 :: simdutf8 where
  "std_utf8 = \<lparr>basic_from_utf8 = valid_utf8, compat_from_utf8 = std_compat\<rparr>"

lemma last_filter_upt:
  "P 0 \<Longrightarrow> v = last (filter P [0..<Suc n]) \<Longrightarrow> v \<le> n \<and> P v \<and> (\<forall>i. v < i \<longrightarrow> i \<le> n \<longrightarrow> \<not> P i)"
proof (induction n arbitrary: v)
  case (Suc n)
  show ?case
  proof (cases "P (Suc n)")
    case True
    with Suc.prems(2) have "v = Suc n" by simp
    with True show ?thesis by simp
  next
    case False
    with Suc.prems(2) have "v = last (filter P [0..<Suc n])" by simp
    from Suc.IH [OF Suc.prems(1) this] False show ?thesis by (metis le_Suc_eq)
  qed
qed simp

interpretation std: simdutf8_lib std_utf8
proof
  fix bs e assume "compat_from_utf8 std_utf8 bs = Some e"
  then have e: "valid_up_to e = last (filter (\<lambda>i. valid_utf8 (take i bs)) [0..<Suc (length bs)])"
    "error_len e = None \<longleftrightarrow> utf8_run Boundary bs \<noteq> None"
    by (auto simp: std_utf8_def std_compat_def Let_def split: if_splits)
  show "error_len e = None \<longleftrightarrow> utf8_run Boundary bs \<noteq> None" by (rule e(2))
  show "valid_up_to e \<le> length bs \<and> valid_utf8 (take (valid_up_to e) bs)
      \<and> (\<forall>i. valid_up_to e < i \<longrightarrow> i \<le> length bs \<longrightarrow> \<not> valid_utf8 (take i bs))"
    using e(1) by (intro last_filter_upt) (simp_all add: valid_utf8_def)
qed (simp_all add: std_utf8_def std_compat_def Let_def)

subsection \<open>Properties\<close>

text \<open>The state of the validator after a whole message, fed in pieces.\<close>

fun feed_all :: "simdutf8 \<Rightarrow> validator \<Rightarrow> bytes list \<Rightarrow> bytes \<Rightarrow>
    ((protocol_error + unit) \<times> validator) option" where
  "feed_all U v [] final = feed U v final True"
| "feed_all U v (c # cs) final =
     (case feed U v c False of
        Some (Inr _, v') \<Rightarrow> feed_all U v' cs final
      | other \<Rightarrow> other)"

text \<open>
  C3: Feeding a message to the validator in any pieces never aborts (no unreachable branch, no
  access outside the 4-byte array) and accepts the message exactly if its bytes are well-formed
  UTF-8; after accepting, nothing is held back for the next message.
\<close>

theorem feed_all_accepts_valid_utf8:
  assumes "simdutf8_lib U" and "validator_inv v" and "stored v = []"
  shows "\<exists>r v'. feed_all U v cs final = Some (r, v') \<and> validator_inv v'
    \<and> (r = Inr () \<longleftrightarrow> valid_utf8 (concat cs @ final)) \<and> (r = Inr () \<longrightarrow> stored v' = [])"
proof -
  have "\<exists>r v'. feed_all U v cs final = Some (r, v') \<and> validator_inv v'
      \<and> (r = Inr () \<longleftrightarrow> valid_utf8 (stored v @ concat cs @ final)) \<and> (r = Inr () \<longrightarrow> stored v' = [])"
    if "validator_inv v" for v
    using that
  proof (induction cs arbitrary: v)
    case Nil
    from simdutf8_lib.feed_correct [OF assms(1) Nil, of final True] show ?case
      by (auto simp: feed_spec_def split: if_splits)
  next
    case (Cons c cs)
    from simdutf8_lib.feed_correct [OF assms(1) Cons.prems, of c False]
    obtain r v1 where v1: "feed U v c False = Some (r, v1)" "validator_inv v1"
      and r: "case utf8_run Boundary (stored v @ c) of None \<Rightarrow> r = Inl InvalidUtf8
        | Some s \<Rightarrow> r = Inr () \<and> utf8_run Boundary (stored v1) = Some s"
      by (auto simp: feed_spec_def)
    show ?case
    proof (cases "utf8_run Boundary (stored v @ c)")
      case None
      then have "\<not> valid_utf8 ((stored v @ c) @ concat cs @ final)"
        using utf8_run_append_None [OF None] by (simp add: valid_utf8_def)
      with None r v1 show ?thesis by simp
    next
      case (Some s)
      with r have "utf8_run Boundary (stored v1 @ concat cs @ final)
          = utf8_run Boundary ((stored v @ c) @ concat cs @ final)"
        by (simp only: utf8_run_append [of _ "stored v1"] utf8_run_append [of _ "stored v @ c"])
          simp
      with Cons.IH [OF v1(2)] Some r v1 show ?thesis by (simp add: valid_utf8_def)
    qed
  qed
  from this [OF assms(2)] assms(3) show ?thesis by simp
qed

theorem feed_all_accepts_valid_utf8_witness:
  "\<exists>r v'. feed_all std_utf8 new_validator [[0xF0, 0x9F], [], [0x98]] [0x84] = Some (r, v')
    \<and> r = Inr () \<and> stored v' = []"
proof -
  have "valid_utf8 (concat [[0xF0, 0x9F], [], [0x98]] @ [0x84])"
    by (simp add: valid_utf8_def)
  with feed_all_accepts_valid_utf8 [OF std.simdutf8_lib_axioms validator_inv_new stored_new,
      of "[[0xF0, 0x9F], [], [0x98]]" "[0x84]"]
  show ?thesis by blast
qed

end
