(* ===== verification/Proto_Types.thy ===== *)
theory Proto_Types
  imports Errors Utf8
begin

text \<open>
  \<open>src/proto/types.rs\<close>: opcodes, close codes, payloads, messages, their splitting into frames,
  limits and configuration, and the encoding of a frame head. A \<open>Bytes\<close> or \<open>&str\<close> is its
  list of bytes; field names carry the struct's initial where two structs share a name. A result
  of \<open>None\<close> under an outer \<open>option\<close> is a panic, or undefined behaviour of an \<open>unsafe\<close> block.
\<close>

subsection \<open>Opcodes\<close>

datatype opcode = Continuation | Text | Binary | Close | Ping | Pong

definition is_control :: "opcode \<Rightarrow> bool" where
  "is_control op = (op \<in> {Close, Ping, Pong})"

definition opcode_try_from :: "byte \<Rightarrow> protocol_error + opcode" where
  "opcode_try_from v =
     (if v = 0 then Inr Continuation
      else if v = 1 then Inr Text
      else if v = 2 then Inr Binary
      else if v = 8 then Inr Close
      else if v = 9 then Inr Ping
      else if v = 10 then Inr Pong
      else Inl InvalidOpcode)"

fun opcode_to_u8 :: "opcode \<Rightarrow> byte" where
  "opcode_to_u8 Continuation = 0"
| "opcode_to_u8 Text = 1"
| "opcode_to_u8 Binary = 2"
| "opcode_to_u8 Close = 8"
| "opcode_to_u8 Ping = 9"
| "opcode_to_u8 Pong = 10"

lemma is_control_simps [simp]:
  "is_control Close" "is_control Ping" "is_control Pong"
  "\<not> is_control Continuation" "\<not> is_control Text" "\<not> is_control Binary"
  by (simp_all add: is_control_def)

lemma opcode_try_from_to_u8 [simp]: "opcode_try_from (opcode_to_u8 op) = Inr op"
  by (cases op) (simp_all add: opcode_try_from_def)

lemma opcode_try_from_Inr: "opcode_try_from v = Inr op \<longleftrightarrow> v = opcode_to_u8 op"
  by (cases op) (auto simp: opcode_try_from_def split: if_splits)

subsection \<open>Close codes\<close>

datatype close_code = CloseCode (close_code_get: u16)

definition try_from_u16 :: "u16 \<Rightarrow> close_code option" where
  "try_from_u16 code =
     (if (1000 \<le> code \<and> code \<le> 1015) \<or> (3000 \<le> code \<and> code \<le> 4999) then Some (CloseCode code)
      else None)"

definition close_code_try_from :: "u16 \<Rightarrow> protocol_error + close_code" where
  "close_code_try_from v =
     (case try_from_u16 v of None \<Rightarrow> Inl InvalidCloseCode | Some c \<Rightarrow> Inr c)"

text \<open>\<open>CloseCode::constant\<close>, \<open>None\<close> where it panics, and the constants (\<open>close_code_constants\<close>).\<close>

definition close_code_constant :: "u16 \<Rightarrow> close_code option" where
  "close_code_constant code = try_from_u16 code"

definition NORMAL_CLOSURE :: close_code where
  "NORMAL_CLOSURE = CloseCode 1000"

definition GOING_AWAY :: close_code where
  "GOING_AWAY = CloseCode 1001"

definition PROTOCOL_ERROR :: close_code where
  "PROTOCOL_ERROR = CloseCode 1002"

definition UNSUPPORTED_DATA :: close_code where
  "UNSUPPORTED_DATA = CloseCode 1003"

definition NO_STATUS_RECEIVED :: close_code where
  "NO_STATUS_RECEIVED = CloseCode 1005"

definition INVALID_FRAME_PAYLOAD_DATA :: close_code where
  "INVALID_FRAME_PAYLOAD_DATA = CloseCode 1007"

definition POLICY_VIOLATION :: close_code where
  "POLICY_VIOLATION = CloseCode 1008"

definition MESSAGE_TOO_BIG :: close_code where
  "MESSAGE_TOO_BIG = CloseCode 1009"

definition MANDATORY_EXTENSION :: close_code where
  "MANDATORY_EXTENSION = CloseCode 1010"

definition INTERNAL_SERVER_ERROR :: close_code where
  "INTERNAL_SERVER_ERROR = CloseCode 1011"

definition SERVICE_RESTART :: close_code where
  "SERVICE_RESTART = CloseCode 1012"

definition SERVICE_OVERLOAD :: close_code where
  "SERVICE_OVERLOAD = CloseCode 1013"

definition BAD_GATEWAY :: close_code where
  "BAD_GATEWAY = CloseCode 1014"

lemmas close_code_defs [simp] =
  NORMAL_CLOSURE_def GOING_AWAY_def PROTOCOL_ERROR_def UNSUPPORTED_DATA_def
  NO_STATUS_RECEIVED_def INVALID_FRAME_PAYLOAD_DATA_def POLICY_VIOLATION_def MESSAGE_TOO_BIG_def
  MANDATORY_EXTENSION_def INTERNAL_SERVER_ERROR_def SERVICE_RESTART_def SERVICE_OVERLOAD_def
  BAD_GATEWAY_def

text \<open>
  The last arm of the \<open>match\<close> (codes outside \<open>1000..=4999\<close>) only asserts in debug builds and
  answers \<open>false\<close>; no close code gets there (\<open>try_from_u16_range\<close>).
\<close>

definition is_reserved :: "close_code \<Rightarrow> bool" where
  "is_reserved c = (close_code_get c \<in> {1004, 1005, 1006, 1015})"

lemma try_from_u16_range:
  "try_from_u16 code = Some c \<Longrightarrow> 1000 \<le> close_code_get c \<and> close_code_get c \<le> 4999"
  by (auto simp: try_from_u16_def word_le_nat_alt split: if_splits)

lemma close_code_constants:
  "close_code_constant 1000 = Some NORMAL_CLOSURE" "close_code_constant 1002 = Some PROTOCOL_ERROR"
  "close_code_constant 1005 = Some NO_STATUS_RECEIVED" "close_code_constant 1007 = Some INVALID_FRAME_PAYLOAD_DATA"
  "close_code_constant 1009 = Some MESSAGE_TOO_BIG" "close_code_constant 1001 = Some GOING_AWAY"
  "close_code_constant 1003 = Some UNSUPPORTED_DATA" "close_code_constant 1008 = Some POLICY_VIOLATION"
  "close_code_constant 1010 = Some MANDATORY_EXTENSION" "close_code_constant 1011 = Some INTERNAL_SERVER_ERROR"
  "close_code_constant 1012 = Some SERVICE_RESTART" "close_code_constant 1013 = Some SERVICE_OVERLOAD"
  "close_code_constant 1014 = Some BAD_GATEWAY"
  by (simp_all add: close_code_constant_def try_from_u16_def)

subsection \<open>Payloads and messages\<close>

record payload =
  data :: bytes
  utf8_validated :: bool

text \<open>\<open>From\<close> for \<open>Bytes\<close>, \<open>BytesMut\<close>, \<open>Vec<u8>\<close>, \<open>&[u8]\<close>; and for \<open>String\<close>, \<open>&str\<close>.\<close>

definition payload_from_bytes :: "bytes \<Rightarrow> payload" where
  "payload_from_bytes b = \<lparr>data = b, utf8_validated = False\<rparr>"

definition payload_from_str :: "bytes \<Rightarrow> payload" where
  "payload_from_str s = \<lparr>data = s, utf8_validated = True\<rparr>"

record message =
  m_opcode :: opcode
  m_payload :: payload

definition message_new :: "opcode \<Rightarrow> bytes \<Rightarrow> message" where
  "message_new op b = \<lparr>m_opcode = op, m_payload = \<lparr>data = b, utf8_validated = (op = Text)\<rparr>\<rparr>"

definition message_text :: "payload \<Rightarrow> message" where
  "message_text p = \<lparr>m_opcode = Text, m_payload = p\<rparr>"

definition message_binary :: "payload \<Rightarrow> message" where
  "message_binary p = \<lparr>m_opcode = Binary, m_payload = p\<rparr>"

definition message_close :: "close_code option \<Rightarrow> bytes \<Rightarrow> message option" where
  "message_close code reason =
     (case code of
        None \<Rightarrow> Some \<lparr>m_opcode = Close, m_payload = payload_from_bytes []\<rparr>
      | Some c \<Rightarrow>
          if is_reserved c then None
          else if length reason \<le> 123
            then Some \<lparr>m_opcode = Close,
              m_payload = payload_from_bytes (to_be_bytes 2 (close_code_get c) @ reason)\<rparr>
            else None)"

definition message_ping :: "payload \<Rightarrow> message option" where
  "message_ping p =
     (if length (data p) \<le> 125 then Some \<lparr>m_opcode = Ping, m_payload = p\<rparr> else None)"

definition message_pong :: "payload \<Rightarrow> message option" where
  "message_pong p =
     (if length (data p) \<le> 125 then Some \<lparr>m_opcode = Pong, m_payload = p\<rparr> else None)"

text \<open>
  The accessors: the inner \<open>option\<close> is the method's own, the outer one is \<open>None\<close> where the
  assertion fails or where \<open>from_utf8_unchecked\<close>, \<open>get_unchecked\<close> or \<open>unwrap_unchecked\<close> is
  reached with a value it must not be given.
\<close>

definition as_text :: "simdutf8 \<Rightarrow> message \<Rightarrow> bytes option option" where
  "as_text U m =
     (if m_opcode m = Text
      then (if (utf8_validated (m_payload m) \<or> \<not> isl (parse_str U (data (m_payload m))))
              \<and> valid_utf8 (data (m_payload m))
            then Some (Some (data (m_payload m))) else None)
      else Some None)"

definition as_close :: "message \<Rightarrow> (close_code \<times> bytes) option option" where
  "as_close m =
     (if m_opcode m = Close
      then let p = data (m_payload m);
               code = (if p = [] then Some NO_STATUS_RECEIVED
                       else (case slice p 0 2 of
                               None \<Rightarrow> None
                             | Some b \<Rightarrow> (case close_code_try_from (from_be_bytes b) of
                                           Inl _ \<Rightarrow> None | Inr c \<Rightarrow> Some c)))
           in (case code of
                 None \<Rightarrow> None
               | Some c \<Rightarrow> if valid_utf8 (drop 2 p) then Some (Some (c, drop 2 p)) else None)
      else Some None)"

subsection \<open>Frames, and messages split into frames\<close>

record wsframe =
  f_is_final :: bool
  f_opcode :: opcode
  f_payload :: bytes

definition frame_from_message :: "message \<Rightarrow> wsframe" where
  "frame_from_message m =
     \<lparr>f_is_final = True, f_opcode = m_opcode m, f_payload = data (m_payload m)\<rparr>"

definition DEFAULT_CLOSE :: wsframe where
  "DEFAULT_CLOSE = \<lparr>f_is_final = True, f_opcode = Close, f_payload = to_be_bytes 2 (1000 :: u16)\<rparr>"

definition frame_from_protocol_error :: "protocol_error \<Rightarrow> wsframe option" where
  "frame_from_protocol_error e =
     map_option frame_from_message
       (if e = InvalidUtf8
        then message_close (Some INVALID_FRAME_PAYLOAD_DATA) (ascii ''invalid utf8'')
        else message_close (Some PROTOCOL_ERROR) (ascii (as_str e)))"

record message_frames =
  mf_frame_size :: usize
  mf_payload :: bytes
  mf_opcode :: opcode

definition into_frames :: "message \<Rightarrow> usize \<Rightarrow> message_frames" where
  "into_frames m n =
     \<lparr>mf_frame_size = n, mf_payload = data (m_payload m), mf_opcode = m_opcode m\<rparr>"

text \<open>The split that \<open>next\<close> and \<open>fold\<close> both perform.\<close>

definition split_frame :: "message_frames \<Rightarrow> wsframe \<times> message_frames" where
  "split_frame mf =
     (let n = min (mf_frame_size mf) (length (mf_payload mf));
          rest = drop n (mf_payload mf)
      in (\<lparr>f_is_final = (rest = []), f_opcode = mf_opcode mf, f_payload = take n (mf_payload mf)\<rparr>,
          mf\<lparr>mf_payload := rest, mf_opcode := Continuation\<rparr>))"

definition frames_next :: "message_frames \<Rightarrow> wsframe option \<times> message_frames" where
  "frames_next mf =
     (if mf_payload mf = [] \<and> mf_opcode mf = Continuation then (None, mf)
      else (let (f, mf') = split_frame mf in (Some f, mf')))"

text \<open>\<open>None\<close>: the loop does not end, as it would for a frame size of \<open>0\<close>.\<close>

partial_function (option) frames_fold ::
  "('b \<Rightarrow> wsframe \<Rightarrow> 'b) \<Rightarrow> 'b \<Rightarrow> message_frames \<Rightarrow> 'b option" where
  "frames_fold f acc mf =
     (let (fr, mf') = split_frame mf; acc' = f acc fr
      in if mf_payload mf' = [] then Some acc' else frames_fold f acc' mf')"

subsection \<open>Limits, configuration, roles and states\<close>

record limits =
  max_payload_len :: usize

definition limits_unlimited :: limits where
  "limits_unlimited = \<lparr>max_payload_len = usize_MAX\<rparr>"

definition limits_max_payload_len :: "limits \<Rightarrow> usize option \<Rightarrow> limits" where
  "limits_max_payload_len l sz =
     l\<lparr>max_payload_len := (case sz of None \<Rightarrow> usize_MAX | Some n \<Rightarrow> n)\<rparr>"

definition limits_default :: limits where
  "limits_default = \<lparr>max_payload_len = 64 * 1024 * 1024\<rparr>"

record config =
  frame_size :: usize
  flush_threshold :: usize

text \<open>\<open>Config::frame_size\<close> panics (\<open>None\<close>) on \<open>0\<close>.\<close>

definition config_frame_size :: "config \<Rightarrow> usize \<Rightarrow> config option" where
  "config_frame_size c n = (if n \<noteq> 0 then Some (c\<lparr>frame_size := n\<rparr>) else None)"

definition config_flush_threshold :: "config \<Rightarrow> usize \<Rightarrow> config" where
  "config_flush_threshold c n = c\<lparr>flush_threshold := n\<rparr>"

definition config_default :: config where
  "config_default = \<lparr>frame_size = 4 * 1024 * 1024, flush_threshold = 8 * 1024\<rparr>"

datatype role = Client | Server

datatype stream_state = Active | ClosedByPeer | ClosedByUs | CloseAcknowledged

subsection \<open>Encoding a frame head\<close>

text \<open>
  Writes the head into the 14-byte buffer and returns it with the position where the mask goes
  (the source returns that part of the buffer).
\<close>

definition encode :: "wsframe \<Rightarrow> bytes \<Rightarrow> bytes \<times> nat" where
  "encode fr out =
     (let len = length (f_payload fr);
          out0 = out[0 := push_bit 7 (of_bool (f_is_final fr)) OR opcode_to_u8 (f_opcode fr)]
      in if 2 ^ 16 \<le> len
         then (splice (out0[1 := 127]) 2 (to_be_bytes 8 (of_nat len :: u64)), 10)
         else if 125 < len
         then (splice (out0[1 := 126]) 2 (to_be_bytes 2 (of_nat len :: u16)), 4)
         else (out0[1 := of_nat len], 2))"

end
