(* ===== verification/Codec.thy ===== *)
theory Codec
  imports Proto_Types Mask
begin

text \<open>
  \<open>src/proto/codec.rs\<close>: the decoder \<open>WebSocketProtocol\<close>, which takes single frames off the read
  buffer. \<open>decode\<close> works in place: it unmasks the payload inside the buffer, for a text payload
  as far as its bytes have arrived, and then leaves the rotated key in the header, so that the
  next call goes on where this one stopped. It returns the result, the new decoder state and the
  new buffer; the outer \<open>option\<close> is \<open>None\<close> where an unchecked access of the source would be out
  of range or a check would panic. \<open>reserve\<close> only affects capacity and has no model.
\<close>

record websocket_protocol =
  role :: role
  limits :: limits
  fragmented_message_opcode :: opcode
  payload_processed :: usize
  validator :: validator

definition protocol_new :: "role \<Rightarrow> limits \<Rightarrow> websocket_protocol" where
  "protocol_new r l = \<lparr>role = r, limits = l, fragmented_message_opcode = Continuation,
     payload_processed = 0, validator = new_validator\<rparr>"

definition take_message_opcode :: "websocket_protocol \<Rightarrow> opcode \<times> websocket_protocol" where
  "take_message_opcode p =
     (fragmented_message_opcode p, p\<lparr>fragmented_message_opcode := Continuation\<rparr>)"

subsection \<open>The head of a frame\<close>

record head =
  fin :: bool
  opcode :: opcode
  masked :: bool
  payload_length :: usize
  offset :: usize

text \<open>
  The payload length and the offset behind it; \<open>Inr None\<close> asks for more bytes
  (\<open>get_buf_if_space\<close>).
\<close>

definition decode_length :: "opcode \<Rightarrow> byte \<Rightarrow> bytes \<Rightarrow> error + (usize \<times> usize) option" where
  "decode_length op second src =
     (let len7 = unat (second AND 127)
      in if op = Close \<and> len7 = 1 then Inl (Protocol InvalidPayloadLength)
         else if 125 < len7 then
           (if is_control op then Inl (Protocol InvalidPayloadLength)
            else if len7 = 126 then
              (case slice src 2 4 of
                 None \<Rightarrow> Inr None
               | Some b \<Rightarrow>
                   let n = unat (from_be_bytes b :: u16)
                   in if n \<le> 125 then Inl (Protocol InvalidPayloadLength) else Inr (Some (n, 4)))
            else
              (case slice src 2 10 of
                 None \<Rightarrow> Inr None
               | Some b \<Rightarrow>
                   let n = unat (from_be_bytes b :: u64)
                   in if n < 2 ^ 16 then Inl (Protocol InvalidPayloadLength) else Inr (Some (n, 10))))
         else Inr (Some (len7, 2)))"

text \<open>The checks on the first two bytes: the \<open>FIN\<close> bit, the opcode and the mask bit.\<close>

definition decode_first ::
  "websocket_protocol \<Rightarrow> byte \<Rightarrow> byte \<Rightarrow> error + (bool \<times> opcode \<times> bool)" where
  "decode_first p first second =
     (let is_fin = (drop_bit 7 first \<noteq> 0); rsv = first AND 0x70
      in if rsv \<noteq> 0 then Inl (Protocol InvalidRsv)
         else case opcode_try_from (first AND 0xF) of
           Inl e \<Rightarrow> Inl (Protocol e)
         | Inr op \<Rightarrow>
             if is_control op \<and> \<not> is_fin then Inl (Protocol FragmentedControlFrame)
             else if \<not> is_control op \<and> fragmented_message_opcode p = Continuation
               \<and> op = Continuation then Inl (Protocol InvalidOpcode)
             else if \<not> is_control op \<and> fragmented_message_opcode p \<noteq> Continuation
               \<and> op \<noteq> Continuation then Inl (Protocol InvalidOpcode)
             else let is_masked = (drop_bit 7 second \<noteq> 0)
             in if is_masked \<and> role p = Client then Inl (Protocol UnexpectedMaskedFrame)
                else if \<not> is_masked \<and> role p = Server
                  then Inl (Protocol UnexpectedUnmaskedFrame)
                else Inr (is_fin, op, is_masked))"

definition decode_head :: "websocket_protocol \<Rightarrow> bytes \<Rightarrow> error + head option" where
  "decode_head p src =
     (case slice src 0 2 of
        None \<Rightarrow> Inr None
      | Some first_two_bytes \<Rightarrow>
          (case decode_first p (first_two_bytes ! 0) (first_two_bytes ! 1) of
             Inl e \<Rightarrow> Inl e
           | Inr (is_fin, op, is_masked) \<Rightarrow>
               (case decode_length op (first_two_bytes ! 1) src of
                  Inl e \<Rightarrow> Inl e
                | Inr None \<Rightarrow> Inr None
                | Inr (Some (len, off)) \<Rightarrow>
                    if max_payload_len (limits p) < len
                      then Inl (PayloadTooLong len (max_payload_len (limits p)))
                    else let off' = (if is_masked then off + 4 else off)
                    in if is_masked \<and> length src < off' then Inr None
                       else Inr (Some \<lparr>fin = is_fin, opcode = op, masked = is_masked,
                         payload_length = len, offset = off'\<rparr>))))"

subsection \<open>The payload\<close>

definition is_text :: "websocket_protocol \<Rightarrow> head \<Rightarrow> bool" where
  "is_text p h = (opcode h = Text
     \<or> (opcode h = Continuation \<and> fragmented_message_opcode p = Text))"

text \<open>The checks on the body of a close frame.\<close>

definition check_close :: "simdutf8 \<Rightarrow> head \<Rightarrow> bytes \<Rightarrow> (error + unit) option" where
  "check_close U h src =
     (case slice src (offset h) (offset h + 2) of
        None \<Rightarrow> None
      | Some b \<Rightarrow>
          (case close_code_try_from (from_be_bytes b) of
             Inl e \<Rightarrow> Some (Inl (Protocol e))
           | Inr code \<Rightarrow>
               if is_reserved code then Some (Inl (Protocol InvalidCloseCode))
               else (case slice src (offset h + 2) (offset h + payload_length h) of
                       None \<Rightarrow> None
                     | Some reason \<Rightarrow>
                         (case parse_str U reason of
                            Inl e \<Rightarrow> Some (Inl (Protocol e))
                          | Inr _ \<Rightarrow> Some (Inr ())))))"

text \<open>Taking a complete frame off the buffer.\<close>

definition decode_finish ::
  "websocket_protocol \<Rightarrow> bytes \<Rightarrow> head
     \<Rightarrow> ((error + wsframe option) \<times> websocket_protocol \<times> bytes) option" where
  "decode_finish p src h =
     (case slice src (offset h) (offset h + payload_length h) of
        None \<Rightarrow> None
      | Some payload \<Rightarrow>
          Some (Inr (Some \<lparr>f_is_final = fin h, f_opcode = opcode h, f_payload = payload\<rparr>),
            p\<lparr>fragmented_message_opcode :=
                (if \<not> fin h \<and> opcode h \<noteq> Continuation then opcode h
                 else fragmented_message_opcode p),
              payload_processed := 0\<rparr>,
            drop (offset h + payload_length h) src))"

text \<open>
  Unmasking the part of the payload between \<open>payload_processed\<close> and what is available: the new
  buffer and the part, unmasked.
\<close>

definition unmask_available ::
  "platform \<Rightarrow> websocket_protocol \<Rightarrow> bytes \<Rightarrow> head \<Rightarrow> usize \<Rightarrow> bool
     \<Rightarrow> (bytes \<times> bytes) option" where
  "unmask_available pf p src h payload_available unmask =
     (case slice src (offset h + payload_processed p) (offset h + payload_available) of
        None \<Rightarrow> None
      | Some payload \<Rightarrow>
          if unmask
          then (case slice src (offset h - 4) (offset h) of
                  None \<Rightarrow> None
                | Some key \<Rightarrow>
                    let (key', payload') = mask_frame pf key payload
                    in Some (splice (splice src (offset h - 4) key')
                               (offset h + payload_processed p) payload', payload'))
          else Some (src, payload))"

text \<open>What follows once the available payload is unmasked.\<close>

definition decode_unmasked ::
  "simdutf8 \<Rightarrow> websocket_protocol \<Rightarrow> bytes \<Rightarrow> head \<Rightarrow> usize \<Rightarrow> bytes
     \<Rightarrow> ((error + wsframe option) \<times> websocket_protocol \<times> bytes) option" where
  "decode_unmasked U p src h payload_available payload =
     (let is_complete = (payload_available = payload_length h)
      in case (if is_text p h then feed U (validator p) payload (is_complete \<and> fin h)
               else Some (Inr (), validator p)) of
           None \<Rightarrow> None
         | Some (Inl e, v) \<Rightarrow> Some (Inl (Protocol e), p\<lparr>validator := v\<rparr>, src)
         | Some (Inr _, v) \<Rightarrow>
             let p1 = (if is_text p h
                       then p\<lparr>validator := v, payload_processed := payload_available\<rparr>
                       else p)
             in if \<not> is_complete then Some (Inr None, p1, src)
                else if opcode h = Close then
                  (case check_close U h src of
                     None \<Rightarrow> None
                   | Some (Inl e) \<Rightarrow> Some (Inl e, p1, src)
                   | Some (Inr _) \<Rightarrow> decode_finish p1 src h)
                else decode_finish p1 src h)"

definition decode_payload ::
  "simdutf8 \<Rightarrow> platform \<Rightarrow> websocket_protocol \<Rightarrow> bytes \<Rightarrow> head
     \<Rightarrow> ((error + wsframe option) \<times> websocket_protocol \<times> bytes) option" where
  "decode_payload U pf p src h =
     (case checked_sub (length src) (offset h) of
        None \<Rightarrow> None
      | Some behind \<Rightarrow>
          let payload_available = min behind (payload_length h);
              is_complete = (payload_available = payload_length h)
          in case unmask_available pf p src h payload_available
                    (masked h \<and> (is_complete \<or> is_text p h)) of
               None \<Rightarrow> None
             | Some (src', payload) \<Rightarrow> decode_unmasked U p src' h payload_available payload)"

definition decode ::
  "simdutf8 \<Rightarrow> platform \<Rightarrow> websocket_protocol \<Rightarrow> bytes
     \<Rightarrow> ((error + wsframe option) \<times> websocket_protocol \<times> bytes) option" where
  "decode U pf p src =
     (case decode_head p src of
        Inl e \<Rightarrow> Some (Inl e, p, src)
      | Inr None \<Rightarrow> Some (Inr None, p, src)
      | Inr (Some h) \<Rightarrow>
          if payload_length h \<noteq> 0 then decode_payload U pf p src h else decode_finish p src h)"

subsection \<open>The head depends on the bytes before the mask only\<close>

lemma slice_cong: "take n xs = take n ys \<Longrightarrow> j \<le> n \<Longrightarrow> slice xs i j = slice ys i j"
proof -
  assume eq: "take n xs = take n ys" and j: "j \<le> n"
  then have "take j xs = take j ys" by (metis min.absorb1 take_take)
  moreover have "j \<le> length xs \<longleftrightarrow> j \<le> length ys"
    using arg_cong [OF eq, of length] j by (simp add: min_def split: if_splits)
  ultimately show ?thesis by (simp add: slice_def)
qed

lemma decode_length_bounds:
  assumes "decode_length op second src = Inr (Some (len, off))"
  shows "off \<in> {2, 4, 10}" and "2 < off \<Longrightarrow> off \<le> length src" and "is_control op \<Longrightarrow> len \<le> 125"
    and "op = Close \<Longrightarrow> len \<noteq> 1" and "len < 2 ^ 64"
proof -
  have "second AND 127 \<le> 127" by (rule word_and_le1)
  then have "unat (second AND 127) \<le> 127" by (simp add: word_le_nat_alt)
  moreover have "unat (from_be_bytes (drop 2 (take 4 src)) :: u16) < 2 ^ 64"
    by (rule less_trans [OF unsigned_less]) simp
  moreover have "unat (from_be_bytes (drop 2 (take 10 src)) :: u64) < 2 ^ 64"
    using unsigned_less [of "from_be_bytes (drop 2 (take 10 src)) :: u64"] by simp
  ultimately show "off \<in> {2, 4, 10}" and "2 < off \<Longrightarrow> off \<le> length src" and "is_control op \<Longrightarrow> len \<le> 125"
    and "op = Close \<Longrightarrow> len \<noteq> 1" and "len < 2 ^ 64"
    using assms by (auto simp: decode_length_def Let_def slice_eq_Some_iff split: if_splits option.splits)
qed

lemma decode_length_cong:
  assumes "decode_length op second src = Inr (Some (len, off))" and "take off src = take off src'"
  shows "decode_length op second src' = Inr (Some (len, off))"
  using assms(1) slice_cong [OF assms(2) [symmetric], of 4 2]
    slice_cong [OF assms(2) [symmetric], of 10 2]
  by (cases "slice src 2 4"; cases "slice src 2 10")
    (auto simp: decode_length_def Let_def split: if_splits)

lemma decode_length_append:
  "decode_length op second src \<noteq> Inr None \<Longrightarrow>
     decode_length op second (src @ rest) = decode_length op second src"
  by (auto simp: decode_length_def Let_def slice_append split: if_splits option.splits)

definition same_head_state :: "websocket_protocol \<Rightarrow> websocket_protocol \<Rightarrow> bool" where
  "same_head_state p q \<longleftrightarrow> role p = role q \<and> limits p = limits q
     \<and> fragmented_message_opcode p = fragmented_message_opcode q"

lemma decode_first_cong: "same_head_state p q \<Longrightarrow> decode_first p = decode_first q"
proof -
  assume "same_head_state p q"
  then have eqs: "role p = role q" "fragmented_message_opcode p = fragmented_message_opcode q"
    by (simp_all add: same_head_state_def)
  show ?thesis unfolding fun_eq_iff decode_first_def eqs by simp
qed

lemma decode_head_cong: "same_head_state p q \<Longrightarrow> decode_head p = decode_head q"
proof -
  assume same: "same_head_state p q"
  then have lims: "limits p = limits q" by (simp add: same_head_state_def)
  show ?thesis unfolding fun_eq_iff decode_head_def decode_first_cong [OF same] lims by simp
qed

text \<open>Where the mask of a masked frame starts.\<close>

definition head_end :: "head \<Rightarrow> nat" where
  "head_end h = (if masked h then offset h - 4 else offset h)"

lemma decode_head_Some:
  assumes "decode_head p src = Inr (Some h)"
  obtains second where "slice src 0 2 = Some [src ! 0, second]" "second = src ! 1" "2 \<le> length src"
    "decode_first p (src ! 0) second = Inr (fin h, opcode h, masked h)"
    "decode_length (opcode h) second src = Inr (Some (payload_length h, head_end h))"
    "payload_length h \<le> max_payload_len (limits p)"
    "offset h = (if masked h then head_end h + 4 else head_end h)" "offset h \<le> length src"
proof -
  from assms obtain b where b: "slice src 0 2 = Some b" by (auto simp: decode_head_def split: option.splits)
  then obtain x y zs where "src = x # y # zs" by (cases src; cases "tl src") (auto simp: slice_eq_Some_iff)
  with b have src: "b = [src ! 0, src ! 1]" "2 \<le> length src" by (auto simp: slice_eq_Some_iff numeral_2_eq_2)
  show thesis
    using assms b src decode_length_bounds(1,2) [of _ _ src]
    by (intro that [of "src ! 1"])
      (fastforce simp: decode_head_def Let_def head_end_def split: sum.splits option.splits prod.splits if_splits)+
qed

lemma head_end_ge_2: "decode_head p src = Inr (Some h) \<Longrightarrow> 2 \<le> head_end h"
  using decode_length_bounds(1) by (elim decode_head_Some) fastforce

lemma decode_head_local:
  assumes "decode_head p src = Inr (Some h)" and "take (head_end h) src' = take (head_end h) src"
    and "offset h \<le> length src'"
  shows "decode_head p src' = Inr (Some h)"
  using assms(1)
proof (rule decode_head_Some)
  fix second
  assume *: "slice src 0 2 = Some [src ! 0, second]"
    "decode_first p (src ! 0) second = Inr (fin h, opcode h, masked h)"
    "decode_length (opcode h) second src = Inr (Some (payload_length h, head_end h))"
    "payload_length h \<le> max_payload_len (limits p)"
    "offset h = (if masked h then head_end h + 4 else head_end h)"
  have "slice src' 0 2 = Some [src ! 0, second]"
    using slice_cong [OF assms(2) head_end_ge_2 [OF assms(1)]] *(1) by simp
  moreover have "decode_length (opcode h) second src' = Inr (Some (payload_length h, head_end h))"
    using *(3) assms(2) [symmetric] by (rule decode_length_cong)
  ultimately show ?thesis
    using * assms(3) by (auto simp: decode_head_def intro!: head.equality)
qed

lemma decode_head_append:
  assumes "decode_head p src \<noteq> Inr None"
  shows "decode_head p (src @ rest) = decode_head p src"
proof (cases "slice src 0 2")
  case (Some b)
  note slice_append [OF Some, of rest]
  with assms Some decode_length_append [of _ "b ! 1" src rest] show ?thesis
    by (auto simp: decode_head_def Let_def split: sum.splits option.splits prod.splits if_splits)
qed (use assms in \<open>simp add: decode_head_def\<close>)

end
