(* ===== verification/Codec_Resume.thy ===== *)
theory Codec_Resume
  imports Codec
begin

text \<open>
  The decoder under partial reads. \<open>codec_inv\<close> relates the decoder to the buffer between two
  calls; under it \<open>decode\<close> never aborts and keeps it. A call that asks for more bytes leaves
  buffer and decoder so that the next call, on a longer buffer, answers what a single call on all
  the bytes would have answered, although a text payload has been unmasked, validated and its
  key rotated in place in the meantime. This is what makes dropping a future between two reads
  harmless.
\<close>

subsection \<open>Unmasking in place\<close>

lemma slice_middle: "length a = i \<Longrightarrow> length b + i = j \<Longrightarrow> slice (a @ b @ c) i j = Some b"
  by (auto simp: slice_def)

lemma splice_middle: "length a = i \<Longrightarrow> length b = length b' \<Longrightarrow> splice (a @ b @ c) i b' = a @ b' @ c"
  by (auto simp: splice_def)

lemma unmask_available_masked:
  assumes "length hb + 4 = offset h" and "length key = 4" and "length don = payload_processed p"
    and "length don + length raw = avail"
  shows "unmask_available pf p (hb @ key @ don @ raw @ tail) h avail True
    = Some (hb @ rotate (length raw) key @ don @ mask_bytes key raw @ tail, mask_bytes key raw)"
proof -
  have "slice ((hb @ key @ don) @ raw @ tail) (offset h + payload_processed p) (offset h + avail) = Some raw"
    using assms by (intro slice_middle) simp_all
  moreover have "slice (hb @ key @ (don @ raw @ tail)) (offset h - 4) (offset h) = Some key"
    using assms by (intro slice_middle) simp_all
  moreover have "splice (hb @ key @ (don @ raw @ tail)) (offset h - 4) (rotate (length raw) key)
      = hb @ rotate (length raw) key @ (don @ raw @ tail)"
    using assms by (intro splice_middle) simp_all
  moreover have "splice ((hb @ rotate (length raw) key @ don) @ raw @ tail)
        (offset h + payload_processed p) (mask_bytes key raw)
      = (hb @ rotate (length raw) key @ don) @ mask_bytes key raw @ tail"
    using assms by (intro splice_middle) simp_all
  ultimately show ?thesis
    using assms by (simp add: unmask_available_def mask.masker_eq)
qed

lemma unmask_available_unmasked:
  assumes "length hb = offset h" and "length don = payload_processed p"
    and "length don + length raw = avail"
  shows "unmask_available pf p (hb @ don @ raw @ tail) h avail False = Some (hb @ don @ raw @ tail, raw)"
proof -
  have "slice ((hb @ don) @ raw @ tail) (offset h + payload_processed p) (offset h + avail) = Some raw"
    using assms by (intro slice_middle) simp_all
  then show ?thesis by (simp add: unmask_available_def)
qed

subsection \<open>Decoders that cannot be told apart\<close>

text \<open>
  Two validators are alike if they are in the same automaton state; two decoders if they agree
  on everything else.
\<close>

definition validator_sim :: "validator \<Rightarrow> validator \<Rightarrow> bool" where
  "validator_sim v w \<longleftrightarrow> validator_inv v \<and> validator_inv w
     \<and> utf8_run Boundary (stored v) = utf8_run Boundary (stored w)"

definition proto_sim :: "websocket_protocol \<Rightarrow> websocket_protocol \<Rightarrow> bool" where
  "proto_sim p q \<longleftrightarrow> same_head_state p q \<and> payload_processed p = payload_processed q
     \<and> validator_sim (validator p) (validator q)"

text \<open>
  The same answer, with decoders that are alike and the same buffer unless the answer is an
  error (after an error the connection is closed and nothing is decoded any more).
\<close>

inductive result_sim ::
  "((error + 'r) \<times> websocket_protocol \<times> bytes) option
     \<Rightarrow> ((error + 'r) \<times> websocket_protocol \<times> bytes) option \<Rightarrow> bool" where
  result_sim_error: "result_sim (Some (Inl e, p, s)) (Some (Inl e, q, t))"
| result_sim_ok: "proto_sim p q \<Longrightarrow> result_sim (Some (Inr x, p, s)) (Some (Inr x, q, s))"

inductive_simps result_sim_simps [simp]:
  "result_sim (Some (Inl e, p, s)) res"
  "result_sim (Some (Inr x, p, s)) res"
  "result_sim res (Some (Inl e, p, s))"
  "result_sim res (Some (Inr x, p, s))"
  "result_sim None res"
  "result_sim res None"

lemma validator_sim_refl: "validator_inv v \<Longrightarrow> validator_sim v v"
  by (simp add: validator_sim_def)

lemma proto_sim_refl: "validator_inv (validator p) \<Longrightarrow> proto_sim p p"
  by (simp add: proto_sim_def same_head_state_def validator_sim_refl)

lemma proto_sim_trans: "proto_sim p q \<Longrightarrow> proto_sim q r \<Longrightarrow> proto_sim p r"
  by (simp add: proto_sim_def validator_sim_def same_head_state_def)

lemma result_sim_trans: "result_sim a b \<Longrightarrow> result_sim b c \<Longrightarrow> result_sim a c"
  by (elim result_sim.cases) (auto intro: proto_sim_trans)

context simdutf8_lib
begin

lemma feed_total:
  "validator_inv v \<Longrightarrow> \<exists>r v'. feed U v xs c = Some (r, v') \<and> validator_inv v'"
  using feed_correct [of v xs c] by (auto simp: feed_spec_def)

lemma feed_sim:
  assumes "validator_sim v w" and "feed U v xs c = Some (r, v')"
  shows "\<exists>w'. feed U w xs c = Some (r, w') \<and> (r = Inr () \<longrightarrow> validator_sim v' w')"
proof -
  have run: "utf8_run Boundary (stored v @ xs) = utf8_run Boundary (stored w @ xs)"
    using assms(1) by (simp add: validator_sim_def utf8_run_append)
  then have valid: "valid_utf8 (stored v @ xs) \<longleftrightarrow> valid_utf8 (stored w @ xs)" by (simp add: valid_utf8_def)
  have "feed_spec (stored v @ xs) c (feed U v xs c)" "feed_spec (stored w @ xs) c (feed U w xs c)"
    using assms(1) by (simp_all add: feed_correct validator_sim_def)
  then show ?thesis
    using assms(2) valid run
    by (cases c; cases "utf8_run Boundary (stored w @ xs)")
      (auto simp: feed_spec_def validator_sim_def split: if_splits)
qed

text \<open>Feeding in two pieces answers as feeding at once.\<close>

lemma feed_split:
  assumes inv: "validator_inv v" and first: "feed U v xs False = Some (r, v1)"
  shows "\<exists>r' v2. feed U v (xs @ ys) c = Some (r', v2) \<and>
    (case r of
       Inl e \<Rightarrow> r' = Inl e
     | Inr _ \<Rightarrow> \<exists>v2'. feed U v1 ys c = Some (r', v2') \<and> (r' = Inr () \<longrightarrow> validator_sim v2 v2'))"
proof -
  have spec1: "feed_spec (stored v @ xs) False (Some (r, v1))" using feed_correct [OF inv, of xs False] first by simp
  then have inv1: "validator_inv v1" by (simp add: feed_spec_def)
  have spec: "feed_spec (stored v @ xs @ ys) c (feed U v (xs @ ys) c)" by (rule feed_correct [OF inv])
  show ?thesis
  proof (cases "utf8_run Boundary (stored v @ xs)")
    case None
    then have "utf8_run Boundary (stored v @ xs @ ys) = None"
      using utf8_run_append_None [OF None, of ys] by simp
    with spec spec1 None show ?thesis by (auto simp: feed_spec_def valid_utf8_def split: if_splits)
  next
    case (Some s)
    with spec1 have r: "r = Inr ()" "utf8_run Boundary (stored v1) = Some s" by (auto simp: feed_spec_def)
    have run: "utf8_run Boundary (stored v1 @ ys) = utf8_run Boundary (stored v @ xs @ ys)"
      using Some r(2) utf8_run_append [of Boundary "stored v @ xs" ys] by (simp add: utf8_run_append)
    then have valid: "valid_utf8 (stored v1 @ ys) \<longleftrightarrow> valid_utf8 (stored v @ xs @ ys)" by (simp add: valid_utf8_def)
    have "feed_spec (stored v1 @ ys) c (feed U v1 ys c)" by (rule feed_correct [OF inv1])
    with spec r run valid show ?thesis
      by (cases c; cases "utf8_run Boundary (stored v @ xs @ ys)")
        (auto simp: feed_spec_def validator_sim_def split: if_splits)
  qed
qed

end

subsection \<open>The buffer seen through a parsed head\<close>

text \<open>
  The invariant between two calls. A decoder that has processed a part of a payload has a
  complete head in the buffer, of a text frame whose payload is not complete yet.
\<close>

definition codec_inv :: "websocket_protocol \<Rightarrow> bytes \<Rightarrow> bool" where
  "codec_inv p src \<longleftrightarrow> validator_inv (validator p) \<and>
     (payload_processed p \<noteq> 0 \<longrightarrow>
       (\<exists>h. decode_head p src = Inr (Some h) \<and> is_text p h
          \<and> offset h + payload_processed p \<le> length src \<and> payload_processed p < payload_length h))"

lemma codec_inv_fresh:
  "validator_inv (validator p) \<Longrightarrow> payload_processed p = 0 \<Longrightarrow> codec_inv p src"
  by (simp add: codec_inv_def)

lemma codec_inv_new [simp]: "codec_inv (protocol_new r l) src"
  by (simp add: codec_inv_def protocol_new_def)

text \<open>
  Head, key (empty if the frame is not masked), processed payload, payload that is available and
  not processed, and what is behind it.
\<close>

definition layout ::
  "websocket_protocol \<Rightarrow> head \<Rightarrow> nat \<Rightarrow> bytes \<Rightarrow> bytes \<Rightarrow> bytes \<Rightarrow> bytes \<Rightarrow> bytes \<Rightarrow> bool" where
  "layout p h avail hb key don raw tail \<longleftrightarrow>
     length hb = head_end h \<and> length key = (if masked h then 4 else 0)
     \<and> length hb + length key = offset h \<and> length don = payload_processed p
     \<and> length don + length raw = avail \<and> avail = min (avail + length tail) (payload_length h)"

lemma layout_exists:
  assumes "decode_head p src = Inr (Some h)" and "codec_inv p src" and "payload_length h \<noteq> 0"
  obtains avail hb key don raw tail where "src = hb @ key @ don @ raw @ tail"
    "layout p h avail hb key don raw tail"
proof -
  let ?o = "offset h" and ?d = "payload_processed p"
  define avail where "avail = min (length src - ?o) (payload_length h)"
  have o: "?o \<le> length src" "?o = (if masked h then head_end h + 4 else head_end h)"
    using assms(1) by (auto elim: decode_head_Some)
  have d: "?d \<le> avail"
    using assms by (cases "?d = 0") (auto simp: codec_inv_def avail_def)
  have "src = take (head_end h) src @ drop (head_end h) (take ?o src) @ drop ?o (take (?o + ?d) src)
      @ drop (?o + ?d) (take (?o + avail) src) @ drop (?o + avail) src"
  proof -
    have "take (head_end h) src @ drop (head_end h) (take ?o src) = take ?o src"
      using o(2) by (metis append_take_drop_id min.absorb1 take_take le_add1 order_refl)
    moreover have "take ?o src @ drop ?o (take (?o + ?d) src) = take (?o + ?d) src"
      by (metis append_take_drop_id le_add1 min.absorb1 take_take)
    moreover have "take (?o + ?d) src @ drop (?o + ?d) (take (?o + avail) src) = take (?o + avail) src"
      using d by (metis append_take_drop_id add_le_cancel_left min.absorb1 take_take)
    ultimately show ?thesis by (metis append.assoc append_take_drop_id)
  qed
  moreover have "layout p h avail (take (head_end h) src) (drop (head_end h) (take ?o src))
      (drop ?o (take (?o + ?d) src)) (drop (?o + ?d) (take (?o + avail) src)) (drop (?o + avail) src)"
    using o d by (auto simp: layout_def avail_def split: if_splits)
  ultimately show thesis by (rule that)
qed

definition mask_if :: "bool \<Rightarrow> bytes \<Rightarrow> bytes \<Rightarrow> bytes" where
  "mask_if u key xs = (if u then mask_bytes key xs else xs)"

definition rotate_if :: "bool \<Rightarrow> nat \<Rightarrow> bytes \<Rightarrow> bytes" where
  "rotate_if u n key = (if u then rotate n key else key)"

lemma length_if [simp]: "length (mask_if u key xs) = length xs" "length (rotate_if u n key) = length key"
  by (simp_all add: mask_if_def rotate_if_def)

lemma unmask_available_layout:
  assumes "layout p h avail hb key don raw tail" and "u \<Longrightarrow> masked h"
  shows "unmask_available pf p (hb @ key @ don @ raw @ tail) h avail u
    = Some (hb @ rotate_if u (length raw) key @ don @ mask_if u key raw @ tail, mask_if u key raw)"
proof (cases u)
  case True
  with assms show ?thesis
    by (auto simp: layout_def mask_if_def rotate_if_def intro: unmask_available_masked)
next
  case False
  with assms(1) unmask_available_unmasked [of "hb @ key" h don p raw avail pf tail] show ?thesis
    by (simp add: layout_def mask_if_def rotate_if_def)
qed

lemma decode_layout:
  assumes "decode_head p src = Inr (Some h)" and "payload_length h \<noteq> 0"
    and "src = hb @ key @ don @ raw @ tail" and lay: "layout p h avail hb key don raw tail"
    and u: "u \<longleftrightarrow> masked h \<and> (avail = payload_length h \<or> is_text p h)"
  shows "decode U pf p src = decode_unmasked U p
    (hb @ rotate_if u (length raw) key @ don @ mask_if u key raw @ tail) h avail (mask_if u key raw)"
proof -
  have len: "length src = offset h + (avail + length tail)"
    and avail: "min (avail + length tail) (payload_length h) = avail"
    using lay by (auto simp: layout_def assms(3))
  have "decode U pf p src = decode_payload U pf p src h" using assms(1,2) by (simp add: decode_def)
  also have "\<dots> = (case unmask_available pf p src h avail u of None \<Rightarrow> None
      | Some (src', payload) \<Rightarrow> decode_unmasked U p src' h avail payload)"
    by (simp add: decode_payload_def len avail u)
  finally show ?thesis using unmask_available_layout [OF lay, of u pf] u by (simp add: assms(3))
qed

subsection \<open>No call aborts, and the invariant is kept\<close>

lemma check_close_total:
  assumes "2 \<le> payload_length h" and "offset h + payload_length h \<le> length src"
  shows "check_close U h src \<noteq> None"
  using assms by (auto simp: check_close_def split: sum.splits)

lemma decode_finish_eq:
  "offset h + payload_length h \<le> length src \<Longrightarrow> decode_finish p src h =
    Some (Inr (Some \<lparr>f_is_final = fin h, f_opcode = opcode h,
        f_payload = drop (offset h) (take (offset h + payload_length h) src)\<rparr>),
      p\<lparr>fragmented_message_opcode :=
          (if \<not> fin h \<and> opcode h \<noteq> Continuation then opcode h else fragmented_message_opcode p),
        payload_processed := 0\<rparr>,
      drop (offset h + payload_length h) src)"
  by (simp add: decode_finish_def)

lemma close_length:
  assumes "decode_head p src = Inr (Some h)" and "opcode h = Close" and "payload_length h \<noteq> 0"
  shows "2 \<le> payload_length h"
  using assms decode_length_bounds(4) by (elim decode_head_Some) fastforce

text \<open>
  What a call leaves behind: after a request for more bytes the invariant and the same head
  state, after a frame a decoder that has processed nothing of the next one.
\<close>

definition decode_post ::
  "websocket_protocol \<Rightarrow> ((error + wsframe option) \<times> websocket_protocol \<times> bytes) option \<Rightarrow> bool" where
  "decode_post p res \<longleftrightarrow> (\<exists>r p' src'. res = Some (r, p', src') \<and> validator_inv (validator p')
     \<and> role p' = role p \<and> limits p' = limits p
     \<and> (r = Inr None \<longrightarrow> codec_inv p' src' \<and> same_head_state p p')
     \<and> (\<forall>f. r = Inr (Some f) \<longrightarrow> payload_processed p' = 0))"

context simdutf8_lib
begin

lemma decode_unmasked_complete_post:
  assumes head: "decode_head p src0 = Inr (Some h)" and inv: "validator_inv (validator p)"
    and len: "offset h + payload_length h \<le> length src" and "payload_length h \<noteq> 0"
  shows "decode_post p (decode_unmasked U p src h (payload_length h) pay)"
proof -
  obtain r v where feed: "(if is_text p h then feed U (validator p) pay
      (payload_length h = payload_length h \<and> fin h) else Some (Inr (), validator p)) = Some (r, v)"
    and v: "validator_inv v"
    using feed_total [OF inv, of pay "fin h"] inv by (cases "is_text p h") auto
  define p1 where "p1 = (if is_text p h then p\<lparr>validator := v, payload_processed := payload_length h\<rparr> else p)"
  have p1: "validator_inv (validator p1)" "role p1 = role p" "limits p1 = limits p"
    using v inv by (simp_all add: p1_def)
  show ?thesis
  proof (cases r)
    case (Inl e)
    then show ?thesis using v unfolding decode_unmasked_def Let_def feed by (simp add: decode_post_def)
  next
    case (Inr u)
    have finish: "decode_post p (decode_finish p1 src h)"
      using p1 by (simp add: decode_finish_eq [OF len] decode_post_def)
    have eq: "decode_unmasked U p src h (payload_length h) pay =
        (if opcode h = Close then
          (case check_close U h src of None \<Rightarrow> None | Some (Inl e) \<Rightarrow> Some (Inl e, p1, src)
            | Some (Inr _) \<Rightarrow> decode_finish p1 src h) else decode_finish p1 src h)"
      unfolding decode_unmasked_def Let_def feed unfolding Inr p1_def by simp
    show ?thesis
    proof (cases "opcode h = Close")
      case True
      have "check_close U h src \<noteq> None"
        using check_close_total [of h src] close_length [OF head True assms(4)] len by blast
      then obtain c where "check_close U h src = Some c" by blast
      then show ?thesis using True eq finish p1 by (cases c) (simp_all add: decode_post_def)
    qed (use eq finish in simp)
  qed
qed

lemma decode_unmasked_incomplete_post:
  assumes head: "decode_head p src = Inr (Some h)" and inv: "codec_inv p src"
    and avail: "avail < payload_length h" and len: "offset h + avail \<le> length src"
  shows "decode_post p (decode_unmasked U p src h avail pay)"
proof (cases "is_text p h")
  case True
  have "validator_inv (validator p)" using inv by (simp add: codec_inv_def)
  from feed_total [OF this, of pay False] obtain r v where
    feed: "feed U (validator p) pay False = Some (r, v)" and v: "validator_inv v" by blast
  let ?p1 = "p\<lparr>validator := v, payload_processed := avail\<rparr>"
  have same: "same_head_state p ?p1" by (simp add: same_head_state_def)
  have "decode_head ?p1 src = Inr (Some h)" using head decode_head_cong [OF same] by simp
  moreover have "is_text ?p1 h" using True by (simp add: is_text_def)
  ultimately have "codec_inv ?p1 src" using v len avail by (auto simp: codec_inv_def)
  then show ?thesis
    using True avail v same
    by (cases r) (simp_all add: decode_unmasked_def Let_def feed decode_post_def)
next
  case False
  have "validator_inv (validator p)" using inv by (simp add: codec_inv_def)
  then show ?thesis
    using False avail inv by (simp add: decode_unmasked_def Let_def decode_post_def same_head_state_def)
qed

theorem decode_total:
  assumes inv: "codec_inv p src"
  shows "decode_post p (decode U pf p src)"
proof (cases "decode_head p src")
  case (Inl e)
  then show ?thesis using inv by (simp add: decode_def decode_post_def codec_inv_def)
next
  case (Inr ho)
  show ?thesis
  proof (cases ho)
    case None
    then show ?thesis using Inr inv
      by (simp add: decode_def decode_post_def codec_inv_def same_head_state_def)
  next
    case (Some h)
    with Inr have head: "decode_head p src = Inr (Some h)" by simp
    show ?thesis
    proof (cases "payload_length h = 0")
      case True
      have "offset h \<le> length src" using head by (auto elim: decode_head_Some)
      moreover have "validator_inv (validator p)" using inv by (simp add: codec_inv_def)
      ultimately show ?thesis using True head
        by (simp add: decode_def decode_finish_eq decode_post_def)
    next
      case False
      obtain avail hb key don raw tail where src: "src = hb @ key @ don @ raw @ tail"
        and lay: "layout p h avail hb key don raw tail"
        by (rule layout_exists [OF head inv False]) (rule that)
      define u where "u \<longleftrightarrow> masked h \<and> (avail = payload_length h \<or> is_text p h)"
      let ?src' = "hb @ rotate_if u (length raw) key @ don @ mask_if u key raw @ tail"
      have eq: "decode U pf p src = decode_unmasked U p ?src' h avail (mask_if u key raw)"
        using decode_layout [OF head False src lay u_def] .
      have len: "length ?src' = length src" "offset h + avail \<le> length src"
        using lay by (simp_all add: src layout_def)
      have head': "decode_head p ?src' = Inr (Some h)"
        using lay by (intro decode_head_local [OF head]) (simp_all add: src layout_def)
      show ?thesis
      proof (cases "avail = payload_length h")
        case True
        have "validator_inv (validator p)" using inv by (simp add: codec_inv_def)
        from decode_unmasked_complete_post [OF head this, of ?src'] True eq len False
        show ?thesis by simp
      next
        case incomplete: False
        have "codec_inv p ?src'"
          using inv unfolding codec_inv_def head head' len(1) by simp
        moreover have "avail < payload_length h" using incomplete lay by (auto simp: layout_def)
        ultimately show ?thesis using eq len head' decode_unmasked_incomplete_post by simp
      qed
    qed
  qed
qed

end

subsection \<open>Going on where the last call stopped\<close>

lemma codec_inv_append: "codec_inv p src \<Longrightarrow> codec_inv p (src @ rest)"
  unfolding codec_inv_def
proof (elim conjE, intro conjI impI)
  assume "payload_processed p \<noteq> 0"
    "payload_processed p \<noteq> 0 \<longrightarrow> (\<exists>h. decode_head p src = Inr (Some h) \<and> is_text p h
      \<and> offset h + payload_processed p \<le> length src \<and> payload_processed p < payload_length h)"
  then obtain h where h: "decode_head p src = Inr (Some h)" "is_text p h"
    "offset h + payload_processed p \<le> length src" "payload_processed p < payload_length h" by blast
  moreover have "decode_head p (src @ rest) = Inr (Some h)" using h(1) decode_head_append [of p src rest] by simp
  ultimately show "\<exists>h. decode_head p (src @ rest) = Inr (Some h) \<and> is_text p h
      \<and> offset h + payload_processed p \<le> length (src @ rest) \<and> payload_processed p < payload_length h"
    by (intro exI [of _ h]) simp
qed

lemma check_close_append: "check_close U h src \<noteq> None \<Longrightarrow> check_close U h (src @ rest) = check_close U h src"
  by (auto simp: check_close_def slice_append split: option.splits sum.splits if_splits)

lemma decode_finish_append:
  "offset h + payload_length h \<le> length src \<Longrightarrow> decode_finish p (src @ rest) h =
     map_option (\<lambda>(r, p', src'). (r, p', src' @ rest)) (decode_finish p src h)"
  by (simp add: decode_finish_eq)

lemma mask_if_append:
  "length key = (if masked h then 4 else 0) \<Longrightarrow> u \<longrightarrow> masked h \<Longrightarrow>
     mask_if u key (xs @ ys) = mask_if u key xs @ mask_if u (rotate_if u (length xs) key) ys"
  by (simp add: mask_if_def rotate_if_def mask_bytes_append)

lemma rotate_if_append: "rotate_if u (m + n) key = rotate_if u n (rotate_if u m key)"
  by (simp add: rotate_if_def rotate_rotate add.commute)

definition extend ::
  "bytes \<Rightarrow> ((error + wsframe option) \<times> websocket_protocol \<times> bytes) option
     \<Rightarrow> ((error + wsframe option) \<times> websocket_protocol \<times> bytes) option" where
  "extend rest = map_option (\<lambda>(r, p, src). (r, p, src @ rest))"

lemma extend_simps [simp]: "extend rest None = None" "extend rest (Some (r, p, src)) = Some (r, p, src @ rest)"
  by (simp_all add: extend_def)

lemma decode_finish_extend:
  "offset h + payload_length h \<le> length src \<Longrightarrow>
     decode_finish p (src @ rest) h = extend rest (decode_finish p src h)"
  by (simp add: decode_finish_append extend_def)

lemma decode_unmasked_extend:
  assumes "offset h + payload_length h \<le> length src"
    and "decode_unmasked U p src h (payload_length h) pay \<noteq> None"
  shows "decode_unmasked U p (src @ rest) h (payload_length h) pay
    = extend rest (decode_unmasked U p src h (payload_length h) pay)"
proof -
  define fd where "fd = (if is_text p h then feed U (validator p) pay (payload_length h = payload_length h \<and> fin h)
    else Some (Inr (), validator p))"
  note d = decode_unmasked_def Let_def fd_def [symmetric]
  obtain r v where fd: "fd = Some (r, v)"
    using assms(2) unfolding d by (cases fd) auto
  show ?thesis
  proof (cases r)
    case (Inl e)
    then show ?thesis unfolding d fd by simp
  next
    case (Inr u)
    show ?thesis
    proof (cases "opcode h = Close")
      case True
      with assms(2) Inr have "check_close U h src \<noteq> None"
        unfolding d fd by (cases "check_close U h src") simp_all
      then obtain c where c: "check_close U h src = Some c" by blast
      then have "check_close U h (src @ rest) = Some c" using check_close_append [of U h src rest] by simp
      with c True Inr show ?thesis
        unfolding d fd by (cases c) (simp_all add: decode_finish_extend [OF assms(1)])
    next
      case False
      with Inr show ?thesis unfolding d fd by (simp add: decode_finish_extend [OF assms(1)])
    qed
  qed
qed

lemma decode_unmasked_complete_not_None:
  "decode_unmasked U p src h (payload_length h) pay \<noteq> Some (Inr None, p', src')"
proof -
  have finish: "decode_finish q src h \<noteq> Some (Inr None, p', src')" for q
    by (simp add: decode_finish_def split: option.split)
  define fd where "fd = (if is_text p h then feed U (validator p) pay (payload_length h = payload_length h \<and> fin h)
    else Some (Inr (), validator p))"
  note d = decode_unmasked_def Let_def fd_def [symmetric]
  show ?thesis
  proof (cases fd)
    case (Some rv)
    obtain r v where rv: "rv = (r, v)" by (cases rv)
    show ?thesis unfolding d Some rv
      using finish by (cases r) (simp_all split: option.split sum.split)
  next
    case None
    then show ?thesis unfolding d by simp
  qed
qed

text \<open>
  Processing a text payload in one step or in two: the decoder \<open>p1\<close> has validated \<open>xs\<close>, the
  decoder \<open>p\<close> validates \<open>xs\<close> and \<open>ys\<close> together.
\<close>

lemma decode_unmasked_sim:
  assumes istext: "is_text p h" and p1: "p1 = p\<lparr>validator := v1, payload_processed := n\<rparr>"
    and one: "feed U (validator p) xs (avail = payload_length h \<and> fin h) = Some (r, v2)"
    and two: "feed U v1 ys (avail = payload_length h \<and> fin h) = Some (r, v2')"
    and sim: "r = Inr () \<Longrightarrow> validator_sim v2' v2"
    and len: "avail = payload_length h \<Longrightarrow> offset h + payload_length h \<le> length src"
  shows "result_sim (decode_unmasked U p1 src h avail ys) (decode_unmasked U p src h avail xs)"
proof -
  have t1: "is_text p1 h" using istext p1 by (simp add: is_text_def)
  have v1: "validator p1 = v1" using p1 by simp
  have nc: "opcode h \<noteq> Close" using istext by (auto simp: is_text_def)
  show ?thesis
  proof (cases r)
    case (Inl e)
    then show ?thesis using istext t1 unfolding decode_unmasked_def Let_def by (simp add: v1 one two)
  next
    case (Inr u)
    then have "validator_sim v2' v2" using sim by simp
    then show ?thesis
      using Inr istext t1 nc unfolding decode_unmasked_def Let_def
      by (simp add: v1 one two decode_finish_eq len)
        (simp add: p1 proto_sim_def same_head_state_def)
  qed
qed

lemma layout_append:
  assumes "layout p h avail hb key don raw tail" and "rest = more1 @ tail'"
    and "length more1 = min (length rest) (payload_length h - avail)" and "tail = []"
  shows "layout p h (avail + length more1) hb key don (raw @ more1) tail'"
  using assms by (auto simp: layout_def)

lemma layout_incomplete:
  assumes "layout p h avail hb key don raw tail" and "avail \<noteq> payload_length h"
  shows "tail = []" and "avail < payload_length h"
proof -
  have "avail = min (avail + length tail) (payload_length h)" using assms(1) unfolding layout_def by blast
  then have "length tail = 0" "avail < payload_length h" using assms(2) by linarith+
  then show "tail = []" and "avail < payload_length h" by simp_all
qed

lemma layout_processed:
  assumes "layout p h avail hb key don (raw @ more1) tail" and "payload_processed p1 = length don + length raw"
    and "length key1 = length key" and "length raw1 = length raw"
  shows "layout p1 h avail hb key1 (don @ raw1) more1 tail"
  using assms by (auto simp: layout_def)

context simdutf8_lib
begin

lemma result_sim_refl: "decode_post p res \<Longrightarrow> result_sim res res"
  by (elim exE conjE decode_post_def [THEN iffD1, elim_format])
    (metis (no_types) result_sim_error result_sim_ok proto_sim_refl sum.exhaust)

lemma decode_resume_text:
  assumes head: "decode_head p src = Inr (Some h)" and inv: "codec_inv p src" and nz: "payload_length h \<noteq> 0"
    and istext: "is_text p h" and src: "src = hb @ key @ don @ raw"
    and lay: "layout p h avail hb key don raw []" and inc: "avail < payload_length h"
  shows "case decode U pf p src of None \<Rightarrow> False
    | Some (Inl e, p', src') \<Rightarrow> \<exists>q t. decode U pf p (src @ rest) = Some (Inl e, q, t)
    | Some (Inr None, p', src') \<Rightarrow> result_sim (decode U pf p' (src' @ rest)) (decode U pf p (src @ rest))
    | Some (Inr (Some f), p', src') \<Rightarrow> False"
proof -
  let ?u = "masked h" let ?v = "validator p"
  define n where "n = min (length rest) (payload_length h - avail)"
  define ys tail where "ys = take n rest" and "tail = drop n rest"
  have rest: "rest = ys @ tail" "length ys = n" by (simp_all add: ys_def tail_def n_def)
  have lay2: "layout p h (avail + n) hb key don (raw @ ys) tail"
    using layout_append [OF lay rest(1)] rest(2) by (simp add: n_def)
  have key: "length key = (if masked h then 4 else 0)" using lay by (simp add: layout_def)
  let ?key1 = "rotate_if ?u (length raw) key" let ?raw1 = "mask_if ?u key raw"
  let ?src1 = "hb @ ?key1 @ don @ ?raw1"
  let ?buf = "hb @ rotate_if ?u (length (raw @ ys)) key @ don @ mask_if ?u key (raw @ ys) @ tail"
  let ?ys1 = "mask_if ?u ?key1 ys"
  have inv': "validator_inv ?v" using inv by (simp add: codec_inv_def)
  have head2: "decode_head p (src @ rest) = Inr (Some h)" using head decode_head_append [of p src rest] by simp
  have d1: "decode U pf p src = decode_unmasked U p ?src1 h avail ?raw1"
    using decode_layout [OF head nz _ lay, of ?u U pf] src istext by simp
  have src2: "src @ rest = hb @ key @ don @ (raw @ ys) @ tail" by (simp add: src rest)
  have d2: "decode U pf p (src @ rest) = decode_unmasked U p ?buf h (avail + n) (?raw1 @ ?ys1)"
    using decode_layout [OF head2 nz src2 lay2, of ?u U pf] istext mask_if_append [OF key, of ?u raw ys] by simp
  from feed_total [OF inv', of ?raw1 False] obtain r v1 where
    feed: "feed U ?v ?raw1 False = Some (r, v1)" and v1: "validator_inv v1" by blast
  let ?c = "avail + n = payload_length h \<and> fin h"
  from feed_split [OF inv' feed, of ?ys1 ?c] obtain r' v2 where
    one: "feed U ?v (?raw1 @ ?ys1) ?c = Some (r', v2)"
    and two: "case r of Inl e \<Rightarrow> r' = Inl e
      | Inr _ \<Rightarrow> \<exists>v2'. feed U v1 ?ys1 ?c = Some (r', v2') \<and> (r' = Inr () \<longrightarrow> validator_sim v2 v2')" by blast
  show ?thesis
  proof (cases r)
    case (Inl e)
    have "decode U pf p src = Some (Inl (Protocol e), p\<lparr>validator := v1\<rparr>, ?src1)"
      unfolding d1 decode_unmasked_def Let_def using istext inc by (simp add: feed Inl)
    moreover have "decode U pf p (src @ rest) = Some (Inl (Protocol e), p\<lparr>validator := v2\<rparr>, ?buf)"
      unfolding d2 decode_unmasked_def Let_def using istext two Inl by (simp add: one)
    ultimately show ?thesis by simp
  next
    case (Inr u)
    with two obtain v2' where two': "feed U v1 ?ys1 ?c = Some (r', v2')"
      and sim: "r' = Inr () \<Longrightarrow> validator_sim v2' v2" by (auto simp: validator_sim_def)
    define p1 where "p1 = p\<lparr>validator := v1, payload_processed := avail\<rparr>"
    have r1: "decode U pf p src = Some (Inr None, p1, ?src1)"
      unfolding d1 decode_unmasked_def Let_def p1_def using istext inc by (simp add: feed Inr)
    have same: "same_head_state p p1" by (simp add: same_head_state_def p1_def)
    have "decode_head p (?src1 @ rest) = Inr (Some h)"
      using lay by (intro decode_head_local [OF head]) (simp_all add: src layout_def)
    then have head1: "decode_head p1 (?src1 @ rest) = Inr (Some h)" using decode_head_cong [OF same] by simp
    have lay1: "layout p1 h (avail + n) hb ?key1 (don @ ?raw1) ys tail"
      using lay by (intro layout_processed [OF lay2]) (simp_all add: p1_def layout_def)
    have src1: "?src1 @ rest = hb @ ?key1 @ (don @ ?raw1) @ ys @ tail" by (simp add: rest)
    have istext1: "is_text p1 h" using istext by (simp add: is_text_def p1_def)
    have buf: "hb @ rotate_if ?u (length ys) ?key1 @ (don @ ?raw1) @ ?ys1 @ tail = ?buf"
      using mask_if_append [OF key, of ?u raw ys] rotate_if_append [of ?u "length raw" "length ys" key] by simp
    have d3: "decode U pf p1 (?src1 @ rest) = decode_unmasked U p1 ?buf h (avail + n) ?ys1"
      using decode_layout [OF head1 nz src1 lay1, of ?u U pf] istext1 unfolding buf by simp
    have len: "offset h + payload_length h \<le> length ?buf" if "avail + n = payload_length h"
      using lay2 that by (auto simp: layout_def)
    have "result_sim (decode U pf p1 (?src1 @ rest)) (decode U pf p (src @ rest))"
      unfolding d2 d3 using istext p1_def one two' sim len by (rule decode_unmasked_sim)
    then show ?thesis by (simp add: r1)
  qed
qed

text \<open>What a call on a part of the bytes says about a call on all of them.\<close>

definition resumes ::
  "platform \<Rightarrow> websocket_protocol \<Rightarrow> bytes \<Rightarrow> bytes \<Rightarrow> bool" where
  "resumes pf p src rest \<longleftrightarrow> (case decode U pf p src of None \<Rightarrow> False
    | Some (Inl e, p', src') \<Rightarrow> \<exists>q t. decode U pf p (src @ rest) = Some (Inl e, q, t)
    | Some (Inr None, p', src') \<Rightarrow> result_sim (decode U pf p' (src' @ rest)) (decode U pf p (src @ rest))
    | Some (Inr (Some f), p', src') \<Rightarrow>
        decode U pf p (src @ rest) = Some (Inr (Some f), p', src' @ rest))"

lemma resumes_extend:
  assumes "decode U pf p src = Some (r, p', src')" and "r \<noteq> Inr None"
    and "decode U pf p (src @ rest) = extend rest (decode U pf p src)"
  shows "resumes pf p src rest"
  using assms by (auto simp: resumes_def split: sum.splits option.splits)

lemma resumes_unchanged:
  assumes "decode U pf p src = Some (Inr None, p, src)" and "codec_inv p src"
  shows "resumes pf p src rest"
  using assms result_sim_refl [OF decode_total [OF codec_inv_append [OF assms(2)]]]
  by (simp add: resumes_def)

theorem decode_resume:
  assumes inv: "codec_inv p src"
  shows "resumes pf p src rest"
proof (cases "decode_head p src")
  case (Inl e)
  then show ?thesis using decode_head_append [of p src rest] by (simp add: resumes_def decode_def)
next
  case (Inr ho)
  show ?thesis
  proof (cases ho)
    case None
    with Inr inv show ?thesis by (intro resumes_unchanged) (simp_all add: decode_def)
  next
    case (Some h)
    with Inr have head: "decode_head p src = Inr (Some h)" by simp
    then have head2: "decode_head p (src @ rest) = Inr (Some h)" using decode_head_append [of p src rest] by simp
    show ?thesis
    proof (cases "payload_length h = 0")
      case True
      have "offset h \<le> length src" using head by (auto elim: decode_head_Some)
      then show ?thesis using True head head2
        by (simp add: resumes_def decode_def decode_finish_eq)
    next
      case False
      obtain avail hb key don raw tail where src: "src = hb @ key @ don @ raw @ tail"
        and lay: "layout p h avail hb key don raw tail"
        by (rule layout_exists [OF head inv False]) (rule that)
      define u where "u \<longleftrightarrow> masked h \<and> (avail = payload_length h \<or> is_text p h)"
      let ?src' = "hb @ rotate_if u (length raw) key @ don @ mask_if u key raw @ tail"
      have eq: "decode U pf p src = decode_unmasked U p ?src' h avail (mask_if u key raw)"
        using decode_layout [OF head False src lay u_def] .
      obtain r p' src' where res: "decode U pf p src = Some (r, p', src')"
        using decode_total [OF inv, of pf] by (auto simp: decode_post_def)
      show ?thesis
      proof (cases "avail = payload_length h")
        case True
        have lay2: "layout p h avail hb key don raw (tail @ rest)" using lay True by (auto simp: layout_def)
        have src2: "src @ rest = hb @ key @ don @ raw @ tail @ rest" by (simp add: src)
        have eq2: "decode U pf p (src @ rest) = decode_unmasked U p (?src' @ rest) h avail (mask_if u key raw)"
          using decode_layout [OF head2 False src2 lay2 u_def] by simp
        have "offset h + payload_length h \<le> length ?src'" using lay True by (auto simp: layout_def)
        moreover have "decode_unmasked U p ?src' h (payload_length h) (mask_if u key raw) \<noteq> None"
          unfolding eq [unfolded True, symmetric] res by simp
        ultimately have ext: "decode U pf p (src @ rest) = extend rest (decode U pf p src)"
          unfolding eq eq2 True by (rule decode_unmasked_extend)
        have "r \<noteq> Inr None" using decode_unmasked_complete_not_None [of U p ?src' h] eq res True by metis
        with res ext show ?thesis by (intro resumes_extend)
      next
        case incomplete: False
        note t = layout_incomplete [OF lay incomplete]
        show ?thesis
        proof (cases "is_text p h")
          case True
          have src': "src = hb @ key @ don @ raw" using src t(1) by simp
          show ?thesis
            using decode_resume_text [OF head inv False True src' lay [unfolded t(1)] t(2), of pf rest]
            unfolding resumes_def res by (cases r) (auto split: option.splits)
        next
          case False
          then have "decode U pf p src = Some (Inr None, p, src)"
            using eq incomplete by (simp add: u_def decode_unmasked_def Let_def rotate_if_def mask_if_def src)
          then show ?thesis using inv by (rule resumes_unchanged)
        qed
      qed
    qed
  qed
qed

text \<open>Decoders that are alike answer alike.\<close>

lemma proto_sim_inv:
  assumes "proto_sim p q" and "codec_inv p src"
  shows "codec_inv q src"
proof -
  have same: "same_head_state p q" using assms(1) by (simp add: proto_sim_def)
  have "is_text q = is_text p" using same by (simp add: is_text_def same_head_state_def fun_eq_iff)
  then show ?thesis using assms decode_head_cong [OF same]
    by (simp add: codec_inv_def proto_sim_def validator_sim_def)
qed

lemma decode_finish_sim:
  assumes "proto_sim p q" and "offset h + payload_length h \<le> length src"
  shows "result_sim (decode_finish p src h) (decode_finish q src h)"
  using assms by (simp add: decode_finish_eq proto_sim_def same_head_state_def)

lemma decode_unmasked_proto_sim:
  assumes sim: "proto_sim p q"
    and close: "opcode h = Close \<Longrightarrow> avail = payload_length h \<Longrightarrow> check_close U h src \<noteq> None"
    and len: "avail = payload_length h \<Longrightarrow> offset h + payload_length h \<le> length src"
  shows "result_sim (decode_unmasked U p src h avail pay) (decode_unmasked U q src h avail pay)"
proof (cases "is_text p h")
  case True
  have same: "same_head_state p q" using sim by (simp add: proto_sim_def)
  then have istext: "is_text q h" using True by (simp add: is_text_def same_head_state_def)
  have nc: "opcode h \<noteq> Close" using True by (auto simp: is_text_def)
  have vs: "validator_sim (validator p) (validator q)" using sim by (simp add: proto_sim_def)
  let ?c = "avail = payload_length h \<and> fin h"
  have "validator_inv (validator p)" using vs by (simp add: validator_sim_def)
  from feed_total [OF this, of pay ?c] obtain r v where v: "feed U (validator p) pay ?c = Some (r, v)" by blast
  from feed_sim [OF vs v] obtain w where w: "feed U (validator q) pay ?c = Some (r, w)"
    and vw: "r = Inr () \<Longrightarrow> validator_sim v w" by blast
  have ps: "proto_sim (p\<lparr>validator := v, payload_processed := n\<rparr>) (q\<lparr>validator := w, payload_processed := n\<rparr>)"
    if "r = Inr ()" for n using same vw [OF that] by (simp add: proto_sim_def same_head_state_def)
  show ?thesis
    using nc len ps unfolding decode_unmasked_def Let_def
    by (cases r) (simp_all add: True istext v w decode_finish_sim)
next
  case False
  have "\<not> is_text q h" using False sim by (simp add: is_text_def proto_sim_def same_head_state_def)
  moreover obtain c where "opcode h = Close \<Longrightarrow> avail = payload_length h \<Longrightarrow> check_close U h src = Some c"
    using close by blast
  ultimately show ?thesis
    using False sim len unfolding decode_unmasked_def Let_def
    by (cases c) (simp_all add: decode_finish_sim)
qed

lemma decode_proto_sim:
  assumes sim: "proto_sim p q" and inv: "codec_inv p src"
  shows "result_sim (decode U pf p src) (decode U pf q src)"
proof -
  have same: "same_head_state p q" and done_eq: "payload_processed q = payload_processed p"
    using sim by (simp_all add: proto_sim_def)
  note heads = decode_head_cong [OF same]
  show ?thesis
  proof (cases "\<exists>h. decode_head p src = Inr (Some h) \<and> payload_length h \<noteq> 0")
    case True
    then obtain h where head: "decode_head p src = Inr (Some h)" and nz: "payload_length h \<noteq> 0" by blast
    obtain avail hb key don raw tail where src: "src = hb @ key @ don @ raw @ tail"
      and lay: "layout p h avail hb key don raw tail"
      by (rule layout_exists [OF head inv nz]) (rule that)
    have lay2: "layout q h avail hb key don raw tail" using lay done_eq by (simp add: layout_def)
    have istext: "is_text q h = is_text p h" using same by (simp add: is_text_def same_head_state_def)
    define u where "u \<longleftrightarrow> masked h \<and> (avail = payload_length h \<or> is_text p h)"
    let ?src' = "hb @ rotate_if u (length raw) key @ don @ mask_if u key raw @ tail"
    have eq: "decode U pf p src = decode_unmasked U p ?src' h avail (mask_if u key raw)"
      using decode_layout [OF head nz src lay u_def] .
    have eq2: "decode U pf q src = decode_unmasked U q ?src' h avail (mask_if u key raw)"
      using decode_layout [OF head [unfolded heads] nz src lay2] istext u_def by simp
    have len: "offset h + payload_length h \<le> length ?src'" if "avail = payload_length h"
      using lay that by (auto simp: layout_def)
    show ?thesis unfolding eq eq2
      using sim check_close_total [OF close_length [OF head _ nz] len] len by (rule decode_unmasked_proto_sim)
  next
    case False
    have fin: "result_sim (decode_finish p src h) (decode_finish q src h)" if "decode_head p src = Inr (Some h)" for h
      using that False sim by (intro decode_finish_sim) (auto elim: decode_head_Some)
    show ?thesis
      using False sim fin unfolding decode_def heads [symmetric]
      by (cases "decode_head p src") (auto split: option.split)
  qed
qed

end

text \<open>
  The next answer of a decoder whose buffer is extended by one chunk of bytes after the other
  until it has one.
\<close>

fun decode_reads ::
  "simdutf8 \<Rightarrow> platform \<Rightarrow> websocket_protocol \<Rightarrow> bytes \<Rightarrow> bytes list
     \<Rightarrow> ((error + wsframe option) \<times> websocket_protocol \<times> bytes) option" where
  "decode_reads U pf p src [] = decode U pf p src"
| "decode_reads U pf p src (c # cs) =
     (case decode U pf p src of
        Some (Inr None, p', src') \<Rightarrow> decode_reads U pf p' (src' @ c) cs
      | other \<Rightarrow> map_option (\<lambda>(r, p', src'). (r, p', src' @ concat (c # cs))) other)"

context simdutf8_lib
begin

lemma decode_reads_sim:
  assumes "codec_inv p src"
  shows "result_sim (decode_reads U pf p src cs) (decode U pf p (src @ concat cs))"
  using assms
proof (induction cs arbitrary: p src)
  case Nil
  then show ?case
    using result_sim_refl [OF decode_total [OF Nil]] by simp
next
  case (Cons c cs)
  let ?all = "src @ concat (c # cs)"
  have resume: "resumes pf p src (concat (c # cs))"
    by (rule decode_resume [OF Cons.prems])
  note resume' = resume [unfolded resumes_def]
  from decode_total [OF Cons.prems, of pf] obtain r p' src' where
    res: "decode U pf p src = Some (r, p', src')" "r = Inr None \<longrightarrow> codec_inv p' src'"
    and inv': "validator_inv (validator p')" by (auto simp: decode_post_def)
  show ?case
  proof (cases r)
    case (Inl e)
    then show ?thesis using res resume' by auto
  next
    case (Inr fo)
    show ?thesis
    proof (cases fo)
      case None
      have "codec_inv p' (src' @ c)" using res(2) Inr None by (simp add: codec_inv_append)
      from Cons.IH [OF this] have "result_sim (decode_reads U pf p src (c # cs)) (decode U pf p' (src' @ concat (c # cs)))"
        using res(1) Inr None by simp
      moreover have "result_sim (decode U pf p' (src' @ concat (c # cs))) (decode U pf p ?all)"
        using resume' res(1) Inr None by simp
      ultimately show ?thesis by (rule result_sim_trans)
    next
      case (Some f)
      then show ?thesis using res(1) Inr resume' inv' by (simp add: proto_sim_refl)
    qed
  qed
qed

end

subsection \<open>Properties\<close>

text \<open>
  C4: Between two calls the decoder never aborts (no unchecked access out of range, no failed
  check, whatever the peer sends), and it re-establishes what the next call relies on: after a
  request for more bytes the position reached in the payload fits the buffer that was left, after
  a frame nothing of the next one counts as processed.
\<close>

theorem decode_never_aborts:
  assumes "simdutf8_lib U" and "codec_inv p src"
  shows "\<exists>r p' src'. decode U pf p src = Some (r, p', src') \<and> (\<not> isl r \<longrightarrow> codec_inv p' (src' @ rest))"
proof -
  from simdutf8_lib.decode_total [OF assms] obtain r p' src' where
    res: "decode U pf p src = Some (r, p', src')" "validator_inv (validator p')"
    "r = Inr None \<longrightarrow> codec_inv p' src'" "\<forall>f. r = Inr (Some f) \<longrightarrow> payload_processed p' = 0"
    unfolding decode_post_def by blast
  have "codec_inv p' (src' @ rest)" if r: "r = Inr fo" for fo
    using r res by (cases fo) (simp_all add: codec_inv_append codec_inv_fresh)
  then show ?thesis using res(1) by (cases r) auto
qed

theorem decode_never_aborts_witness:
  "\<exists>r p' src'. decode std_utf8 scalar_platform (protocol_new Server limits_default) [0x81, 0x82, 1, 2]
    = Some (r, p', src') \<and> (\<not> isl r \<longrightarrow> codec_inv p' (src' @ [3, 4, 5]))"
  using decode_never_aborts [OF std.simdutf8_lib_axioms codec_inv_new] .

text \<open>
  C5: However the bytes of the connection are split into reads, the decoder gives the same
  answer: the same error, or the same frame with the same bytes left in the buffer and a decoder
  in an equivalent state, although it unmasks and validates a text payload in place read by read
  and rotates the masking key in the buffer each time.
\<close>

theorem decode_independent_of_chunking:
  assumes "simdutf8_lib U" and "codec_inv p src"
  shows "result_sim (decode_reads U pf p src cs) (decode U pf p (src @ concat cs))"
  by (rule simdutf8_lib.decode_reads_sim [OF assms])

theorem decode_independent_of_chunking_witness:
  "result_sim (decode_reads std_utf8 scalar_platform (protocol_new Server limits_default)
      [0x81] [[0x82], [1, 2, 3], [4, 0x69], [0x6B]])
    (decode std_utf8 scalar_platform (protocol_new Server limits_default)
      ([0x81] @ concat [[0x82], [1, 2, 3], [4, 0x69], [0x6B]]))"
  by (rule decode_independent_of_chunking [OF std.simdutf8_lib_axioms codec_inv_new])

end
