(* ===== verification/Codec_Wire.thy ===== *)
theory Codec_Wire
  imports Codec_Resume
begin

text \<open>
  The frame format of RFC 6455, section 5.2, as a function \<open>wire_frame\<close> from frames to bytes,
  and what makes a frame acceptable in a decoder state. The decoder accepts exactly the
  encodings of acceptable frames: every one is decoded to the frame it encodes, and nothing
  else is accepted, in particular no length in a longer form than necessary.
\<close>

subsection \<open>The format\<close>

definition len7 :: "nat \<Rightarrow> nat" where
  "len7 n = (if n \<le> 125 then n else if n < 2 ^ 16 then 126 else 127)"

definition ext_len :: "nat \<Rightarrow> bytes" where
  "ext_len n = (if n \<le> 125 then [] else if n < 2 ^ 16 then to_be_bytes 2 (of_nat n :: u16)
     else to_be_bytes 8 (of_nat n :: u64))"

definition wire_head :: "bool \<Rightarrow> opcode \<Rightarrow> bool \<Rightarrow> nat \<Rightarrow> bytes" where
  "wire_head fi op m n = [push_bit 7 (of_bool fi) OR opcode_to_u8 op,
     push_bit 7 (of_bool m) OR of_nat (len7 n)] @ ext_len n"

text \<open>An empty key stands for an unmasked frame.\<close>

definition wire_frame :: "bytes \<Rightarrow> wsframe \<Rightarrow> bytes" where
  "wire_frame key fr =
     wire_head (f_is_final fr) (f_opcode fr) (key \<noteq> []) (length (f_payload fr))
       @ key @ mask_if (key \<noteq> []) key (f_payload fr)"

definition key_for :: "role \<Rightarrow> bytes \<Rightarrow> bool" where
  "key_for r key \<longleftrightarrow> length key = (if r = Server then 4 else 0)"

text \<open>What section 5 of the RFC asks of a frame, given the message being assembled.\<close>

definition legal_head :: "websocket_protocol \<Rightarrow> bool \<Rightarrow> opcode \<Rightarrow> nat \<Rightarrow> bool" where
  "legal_head p fi op n \<longleftrightarrow>
     (if is_control op then fi \<and> n \<le> 125
      else op = Continuation \<longleftrightarrow> fragmented_message_opcode p \<noteq> Continuation)
     \<and> (op = Close \<longrightarrow> n \<noteq> 1) \<and> n \<le> max_payload_len (limits p) \<and> n < 2 ^ 64"

definition legal_close :: "bytes \<Rightarrow> bool" where
  "legal_close body \<longleftrightarrow> body = [] \<or> (\<exists>code reason c. body = to_be_bytes 2 (code :: u16) @ reason
     \<and> try_from_u16 code = Some c \<and> \<not> is_reserved c \<and> valid_utf8 reason)"

subsection \<open>The bits of the first two bytes\<close>

lemma mask_constants: "(127 :: byte) = mask 7" "(0xF :: byte) = mask 4" "(0x70 :: byte) = push_bit 4 (mask 3)"
  by (simp_all add: mask_eq_exp_minus_1)

lemma drop_bit_7: "drop_bit 7 x = (of_bool (bit x 7) :: byte)"
proof (rule bit_word_eqI)
  fix n assume "n < LENGTH(8)"
  show "bit (drop_bit 7 x) n \<longleftrightarrow> bit (of_bool (bit x 7) :: byte) n"
    using bit_imp_le_length [of x "7 + n"] by (cases n) (auto simp: bit_simps)
qed

lemma high_bit: "drop_bit 7 x \<noteq> 0 \<longleftrightarrow> bit (x :: byte) 7"
  by (simp add: drop_bit_7)

lemma bit_7_small:
  assumes "x \<le> 127"
  shows "\<not> bit (x :: byte) 7"
proof -
  have "unat (drop_bit 7 x) = drop_bit 7 (unat x)" by (rule unat_drop_bit_eq)
  then have "unat (drop_bit 7 x) = unat x div 2 ^ 7" by (simp only: drop_bit_eq_div)
  then have "unat (drop_bit 7 x) = 0" using assms by (simp add: word_le_nat_alt)
  then show ?thesis by (cases "bit x 7") (simp_all add: drop_bit_7)
qed

lemma byte_high_low:
  fixes x :: byte
  assumes "x \<le> 127"
  shows "(push_bit 7 (of_bool m) OR x) AND 127 = x" and "drop_bit 7 (push_bit 7 (of_bool m) OR x) \<noteq> 0 \<longleftrightarrow> m"
proof -
  note bit_7_small [OF assms]
  then have "bit x n \<Longrightarrow> n < 7" for n
    using bit_imp_le_length [of x n] by (cases "n = 7") auto
  then show "(push_bit 7 (of_bool m) OR x) AND 127 = x"
    by (intro bit_word_eqI) (auto simp: mask_constants bit_simps)
  show "drop_bit 7 (push_bit 7 (of_bool m) OR x) \<noteq> 0 \<longleftrightarrow> m"
    unfolding high_bit using bit_7_small [OF assms] by (simp add: bit_simps)
qed

lemma byte_split_high: "push_bit 7 (of_bool (drop_bit 7 x \<noteq> 0)) OR (x AND 127) = (x :: byte)"
proof (rule bit_word_eqI)
  fix n assume "n < LENGTH(8)"
  then show "bit (push_bit 7 (of_bool (drop_bit 7 x \<noteq> 0)) OR (x AND 127)) n \<longleftrightarrow> bit x n"
    unfolding high_bit by (cases "n = 7") (auto simp: mask_constants bit_simps)
qed

lemma byte_split_first:
  assumes "x AND 0x70 = 0"
  shows "push_bit 7 (of_bool (drop_bit 7 x \<noteq> 0)) OR (x AND 0xF) = (x :: byte)"
proof (rule bit_word_eqI)
  fix n assume n: "n < LENGTH(8)"
  have "\<not> bit (x AND 0x70) n" using assms by simp
  then have "bit x n \<longrightarrow> n < 4 \<or> 7 \<le> n" by (auto simp: mask_constants bit_simps)
  with n show "bit (push_bit 7 (of_bool (drop_bit 7 x \<noteq> 0)) OR (x AND 0xF)) n \<longleftrightarrow> bit x n"
    unfolding high_bit by (cases "n = 7") (auto simp: mask_constants bit_simps)
qed

subsection \<open>The head\<close>

lemma len7_le [simp]: "len7 n \<le> 127"
  by (simp add: len7_def)

lemma second_byte:
  fixes n :: nat and m :: bool
  defines "second \<equiv> push_bit 7 (of_bool m) OR of_nat (len7 n) :: byte"
  shows "unat (second AND 127) = len7 n" and "drop_bit 7 second \<noteq> 0 \<longleftrightarrow> m"
proof -
  have "len7 n < 2 ^ 8" by (rule le_less_trans [OF len7_le]) simp
  then have u: "unat (of_nat (len7 n) :: byte) = len7 n" by (simp add: unat_of_nat)
  then have "(of_nat (len7 n) :: byte) \<le> 127" by (simp add: word_le_nat_alt)
  note byte_high_low [OF this, of m]
  then show "unat (second AND 127) = len7 n" and "drop_bit 7 second \<noteq> 0 \<longleftrightarrow> m"
    using u by (simp_all add: second_def)
qed

lemma first_byte:
  fixes op :: opcode and fi :: bool
  defines "first \<equiv> push_bit 7 (of_bool fi) OR opcode_to_u8 op :: byte"
  shows "drop_bit 7 first \<noteq> 0 \<longleftrightarrow> fi" and "first AND 0x70 = 0" and "first AND 0xF = opcode_to_u8 op"
  by (cases fi; cases op; simp add: first_def)+

lemma decode_first_wire:
  assumes "legal_head p fi op n" and "m \<longleftrightarrow> role p = Server"
  shows "decode_first p (push_bit 7 (of_bool fi) OR opcode_to_u8 op) (push_bit 7 (of_bool m) OR of_nat (len7 n))
    = Inr (fi, op, m)"
  using assms unfolding decode_first_def Let_def first_byte second_byte
  by (cases "role p") (auto simp: legal_head_def split: if_splits)

lemma length_ext_len: "length (ext_len n) = (if n \<le> 125 then 0 else if n < 2 ^ 16 then 2 else 8)"
  by (simp add: ext_len_def)

lemma decode_length_wire:
  assumes "legal_head p fi op n"
  shows "decode_length op (push_bit 7 (of_bool m) OR of_nat (len7 n)) (x # y # ext_len n @ rest)
    = Inr (Some (n, 2 + length (ext_len n)))"
proof -
  have legal: "op = Close \<Longrightarrow> n \<noteq> 1" "is_control op \<Longrightarrow> n \<le> 125" "n < 2 ^ 64"
    using assms by (auto simp: legal_head_def split: if_splits)
  consider "n \<le> 125" | "125 < n" "n < 2 ^ 16" | "2 ^ 16 \<le> n" by linarith
  then show ?thesis
  proof cases
    case 1
    then have "len7 n = n" "ext_len n = []" by (simp_all add: len7_def ext_len_def)
    then show ?thesis unfolding decode_length_def second_byte using 1 legal by simp
  next
    case 2
    then have l: "len7 n = 126" and e: "ext_len n = to_be_bytes 2 (of_nat n :: u16)"
      by (simp_all add: len7_def ext_len_def)
    have "slice (x # y # ext_len n @ rest) 2 4 = Some (to_be_bytes 2 (of_nat n :: u16))"
      using slice_middle [of "[x, y]" 2 "to_be_bytes 2 (of_nat n :: u16)" 4 rest] by (simp add: e)
    moreover have "unat (of_nat n :: u16) = n" using 2 by (simp add: unat_of_nat)
    ultimately show ?thesis unfolding decode_length_def second_byte using 2 l legal
      by (auto simp: e)
  next
    case 3
    then have l: "len7 n = 127" and e: "ext_len n = to_be_bytes 8 (of_nat n :: u64)"
      by (simp_all add: len7_def ext_len_def)
    have "slice (x # y # ext_len n @ rest) 2 10 = Some (to_be_bytes 8 (of_nat n :: u64))"
      using slice_middle [of "[x, y]" 2 "to_be_bytes 8 (of_nat n :: u64)" 10 rest] by (simp add: e)
    moreover have "unat (of_nat n :: u64) = n" using legal(3) by (simp add: unat_of_nat)
    ultimately show ?thesis unfolding decode_length_def second_byte using 3 l legal
      by (auto simp: e)
  qed
qed

theorem decode_head_wire:
  assumes "legal_head p fi op n" and "m \<longleftrightarrow> role p = Server" and "length key = (if m then 4 else 0)"
  shows "decode_head p (wire_head fi op m n @ key @ rest) = Inr (Some
    \<lparr>fin = fi, opcode = op, masked = m, payload_length = n, offset = length (wire_head fi op m n @ key)\<rparr>)"
proof -
  let ?b0 = "push_bit 7 (of_bool fi) OR opcode_to_u8 op :: byte"
  let ?b1 = "push_bit 7 (of_bool m) OR of_nat (len7 n) :: byte"
  have "slice (?b0 # ?b1 # ext_len n @ key @ rest) 0 2 = Some [?b0, ?b1]"
    by (simp add: slice_def)
  moreover have "n \<le> max_payload_len (limits p)" using assms(1) by (simp add: legal_head_def)
  ultimately show ?thesis
    using decode_first_wire [OF assms(1,2)] decode_length_wire [OF assms(1), of m ?b0 ?b1 "key @ rest"] assms(3)
    by (simp add: decode_head_def wire_head_def)
qed

lemma decode_first_sound:
  assumes "decode_first p x y = Inr (fi, op, m)"
  shows "x = push_bit 7 (of_bool fi) OR opcode_to_u8 op" and "m \<longleftrightarrow> drop_bit 7 y \<noteq> 0"
    and "m \<longleftrightarrow> role p = Server"
    and "if is_control op then fi else op = Continuation \<longleftrightarrow> fragmented_message_opcode p \<noteq> Continuation"
proof -
  have *: "x AND 0x70 = 0" "fi \<longleftrightarrow> drop_bit 7 x \<noteq> 0" "opcode_try_from (x AND 0xF) = Inr op"
    "m \<longleftrightarrow> drop_bit 7 y \<noteq> 0" "\<not> (m \<and> role p = Client)" "m \<or> role p \<noteq> Server"
    "if is_control op then fi else op = Continuation \<longleftrightarrow> fragmented_message_opcode p \<noteq> Continuation"
    using assms by (auto simp: decode_first_def Let_def split: if_splits sum.splits)
  show "x = push_bit 7 (of_bool fi) OR opcode_to_u8 op"
    using byte_split_first [OF *(1)] *(2,3) by (simp add: opcode_try_from_Inr)
  show "m \<longleftrightarrow> role p = Server" using *(5,6) by (cases "role p") auto
  show "m \<longleftrightarrow> drop_bit 7 y \<noteq> 0"
    and "if is_control op then fi else op = Continuation \<longleftrightarrow> fragmented_message_opcode p \<noteq> Continuation"
    using *(4,7) by blast+
qed

lemma decode_length_sound:
  assumes "decode_length op y src = Inr (Some (n, off))"
  shows "y = push_bit 7 (of_bool (drop_bit 7 y \<noteq> 0)) OR of_nat (len7 n)"
    and "take (off - 2) (drop 2 src) = ext_len n" and "off = 2 + length (ext_len n)"
proof -
  have y: "y = push_bit 7 (of_bool (drop_bit 7 y \<noteq> 0)) OR of_nat (unat (y AND 127))"
    using byte_split_high [of y] by simp
  have le: "unat (y AND 127) \<le> 127"
    using word_and_le1 [of y 127] by (simp add: word_le_nat_alt)
  consider (short) "unat (y AND 127) \<le> 125" "n = unat (y AND 127)" "off = 2"
    | (u16) "unat (y AND 127) = 126" "4 \<le> length src" "n = unat (from_be_bytes (drop 2 (take 4 src)) :: u16)"
        "125 < n" "off = 4"
    | (u64) "unat (y AND 127) = 127" "10 \<le> length src" "n = unat (from_be_bytes (drop 2 (take 10 src)) :: u64)"
        "2 ^ 16 \<le> n" "off = 10"
  proof -
    consider "unat (y AND 127) \<le> 125" | "unat (y AND 127) = 126" | "unat (y AND 127) = 127"
      using le by linarith
    then show thesis
    proof cases
      case 1
      with assms show ?thesis by (intro short) (auto simp: decode_length_def Let_def split: if_splits)
    next
      case 2
      with assms show ?thesis
        by (intro u16) (auto simp: decode_length_def Let_def slice_eq_Some_iff split: if_splits option.splits)
    next
      case 3
      with assms show ?thesis
        by (intro u64) (auto simp: decode_length_def Let_def slice_eq_Some_iff split: if_splits option.splits)
    qed
  qed
  then have "len7 n = unat (y AND 127) \<and> take (off - 2) (drop 2 src) = ext_len n \<and> off = 2 + length (ext_len n)"
  proof cases
    case short
    then show ?thesis by (simp add: len7_def ext_len_def)
  next
    case u16
    have "n < 2 ^ 16" using u16(3) unsigned_less [of "from_be_bytes (drop 2 (take 4 src)) :: u16"] by simp
    moreover have "to_be_bytes 2 (of_nat n :: u16) = drop 2 (take 4 src)" using u16(2,3) by simp
    ultimately show ?thesis using u16 by (simp add: len7_def ext_len_def take_drop)
  next
    case u64
    have "to_be_bytes 8 (of_nat n :: u64) = drop 2 (take 10 src)" using u64(2,3) by simp
    then show ?thesis using u64 by (simp add: len7_def ext_len_def take_drop)
  qed
  then show "y = push_bit 7 (of_bool (drop_bit 7 y \<noteq> 0)) OR of_nat (len7 n)"
    and "take (off - 2) (drop 2 src) = ext_len n" and "off = 2 + length (ext_len n)"
    using y by (metis, blast, blast)
qed

theorem decode_head_sound:
  assumes "decode_head p src = Inr (Some h)"
  shows "legal_head p (fin h) (opcode h) (payload_length h)" and "masked h \<longleftrightarrow> role p = Server"
    and "take (head_end h) src = wire_head (fin h) (opcode h) (masked h) (payload_length h)"
  using assms
proof (atomize (full), rule decode_head_Some)
  fix second
  assume *: "second = src ! 1" "2 \<le> length src"
    "decode_first p (src ! 0) second = Inr (fin h, opcode h, masked h)"
    "decode_length (opcode h) second src = Inr (Some (payload_length h, head_end h))"
    "payload_length h \<le> max_payload_len (limits p)"
  note first = decode_first_sound [OF *(3)] and len = decode_length_sound [OF *(4)]
    and bounds = decode_length_bounds [OF *(4)]
  have "src = [src ! 0, src ! 1] @ drop 2 src"
    using *(2) by (metis One_nat_def Suc_1 Suc_le_eq append_Cons append_Nil Cons_nth_drop_Suc drop0 lessI less_trans One_nat_def)
  then have "take (head_end h) src = [src ! 0, src ! 1] @ take (head_end h - 2) (drop 2 src)"
    using len(3) by (metis add_diff_cancel_left' length_Cons list.size(3) numeral_2_eq_2 take_append take_all_iff le_add1 One_nat_def)
  also have "\<dots> = wire_head (fin h) (opcode h) (masked h) (payload_length h)"
    using first(1,2) len(1,2) *(1) by (simp add: wire_head_def)
  finally show "legal_head p (fin h) (opcode h) (payload_length h) \<and> (masked h \<longleftrightarrow> role p = Server)
      \<and> take (head_end h) src = wire_head (fin h) (opcode h) (masked h) (payload_length h)"
    using first(3,4) bounds(3,4,5) *(5) by (simp add: legal_head_def)
qed

subsection \<open>A whole frame in the buffer\<close>

lemma decode_finish_layout:
  assumes "length pre = offset h" and "length pay = payload_length h"
  shows "decode_finish p (pre @ pay @ rest) h =
    Some (Inr (Some \<lparr>f_is_final = fin h, f_opcode = opcode h, f_payload = pay\<rparr>),
      p\<lparr>fragmented_message_opcode :=
          (if \<not> fin h \<and> opcode h \<noteq> Continuation then opcode h else fragmented_message_opcode p),
        payload_processed := 0\<rparr>, rest)"
  using assms by (subst decode_finish_eq) simp_all

lemma legal_close_iff:
  assumes "2 \<le> length body"
  shows "legal_close body \<longleftrightarrow> (\<exists>c. try_from_u16 (from_be_bytes (take 2 body)) = Some c
    \<and> \<not> is_reserved c \<and> valid_utf8 (drop 2 body))"
proof
  assume "legal_close body"
  then obtain code :: u16 and reason c where "body = to_be_bytes 2 code @ reason"
    "try_from_u16 code = Some c" "\<not> is_reserved c" "valid_utf8 reason"
    using assms by (auto simp: legal_close_def)
  then show "\<exists>c. try_from_u16 (from_be_bytes (take 2 body)) = Some c \<and> \<not> is_reserved c \<and> valid_utf8 (drop 2 body)"
    by simp
next
  assume "\<exists>c. try_from_u16 (from_be_bytes (take 2 body)) = Some c \<and> \<not> is_reserved c \<and> valid_utf8 (drop 2 body)"
  moreover have "body = to_be_bytes 2 (from_be_bytes (take 2 body) :: u16) @ drop 2 body" using assms by simp
  ultimately show "legal_close body" unfolding legal_close_def by blast
qed

text \<open>The checks on the payload; \<open>feed\<close> is not called for an empty one.\<close>

definition text_frame :: "websocket_protocol \<Rightarrow> wsframe \<Rightarrow> bool" where
  "text_frame p fr \<longleftrightarrow> f_opcode fr = Text
     \<or> (f_opcode fr = Continuation \<and> fragmented_message_opcode p = Text)"

definition legal_payload :: "websocket_protocol \<Rightarrow> wsframe \<Rightarrow> bool" where
  "legal_payload p fr \<longleftrightarrow>
     (f_opcode fr = Close \<longrightarrow> legal_close (f_payload fr)) \<and>
     (text_frame p fr \<and> f_payload fr \<noteq> [] \<longrightarrow>
       (if f_is_final fr then valid_utf8 (stored (validator p) @ f_payload fr)
        else utf8_run Boundary (stored (validator p) @ f_payload fr) \<noteq> None))"

text \<open>The state of a decoder that has taken a frame, up to what the validator holds back.\<close>

definition took_frame :: "websocket_protocol \<Rightarrow> wsframe \<Rightarrow> websocket_protocol \<Rightarrow> bool" where
  "took_frame p fr p' \<longleftrightarrow> role p' = role p \<and> limits p' = limits p \<and> payload_processed p' = 0
     \<and> fragmented_message_opcode p' =
         (if \<not> f_is_final fr \<and> f_opcode fr \<noteq> Continuation then f_opcode fr
          else fragmented_message_opcode p)
     \<and> validator_inv (validator p')
     \<and> (if text_frame p fr \<and> f_payload fr \<noteq> []
        then utf8_run Boundary (stored (validator p'))
          = utf8_run Boundary (stored (validator p) @ f_payload fr)
        else validator p' = validator p)"

context simdutf8_lib
begin

lemma check_close_layout:
  assumes "length pre = offset h" and "length pay = payload_length h" and "2 \<le> length pay"
  shows "check_close U h (pre @ pay @ rest) = Some (Inr ()) \<longleftrightarrow> legal_close pay"
    and "check_close U h (pre @ pay @ rest) \<noteq> None"
proof -
  have pay: "pay = take 2 pay @ drop 2 pay" by simp
  have "slice (pre @ take 2 pay @ (drop 2 pay @ rest)) (offset h) (offset h + 2) = Some (take 2 pay)"
    using assms by (intro slice_middle) simp_all
  then have code: "slice (pre @ pay @ rest) (offset h) (offset h + 2) = Some (take 2 pay)"
    by (metis append.assoc pay)
  have "slice ((pre @ take 2 pay) @ drop 2 pay @ rest) (offset h + 2) (offset h + payload_length h) = Some (drop 2 pay)"
    using assms by (intro slice_middle) simp_all
  then have reason: "slice (pre @ pay @ rest) (offset h + 2) (offset h + payload_length h) = Some (drop 2 pay)"
    by (metis append.assoc pay)
  show "check_close U h (pre @ pay @ rest) = Some (Inr ()) \<longleftrightarrow> legal_close pay"
    unfolding legal_close_iff [OF assms(3)] check_close_def code reason
    by (simp add: close_code_try_from_def parse_str_def basic split: option.split)
  show "check_close U h (pre @ pay @ rest) \<noteq> None"
    unfolding check_close_def code reason by (simp split: sum.split)
qed

text \<open>
  A final frame resets the validator if it is accepted, so \<open>utf8_run\<close> is at a boundary on both
  sides of \<open>took_frame\<close>.
\<close>

lemma feed_accepts:
  assumes "validator_inv v"
  shows "(\<exists>v'. feed U v xs c = Some (Inr (), v')) \<longleftrightarrow>
    (if c then valid_utf8 (stored v @ xs) else utf8_run Boundary (stored v @ xs) \<noteq> None)"
    and "feed U v xs c = Some (Inr (), v') \<Longrightarrow> validator_inv v'
      \<and> utf8_run Boundary (stored v') = utf8_run Boundary (stored v @ xs)"
  using feed_correct [OF assms, of xs c]
  by (auto simp: feed_spec_def valid_utf8_def split: if_splits option.splits)

lemma decode_unmasked_accepts:
  assumes pre: "length pre = offset h" and pay: "length pay = payload_length h" "pay \<noteq> []"
    and inv: "validator_inv (validator p)" and close: "opcode h = Close \<Longrightarrow> length pay \<noteq> 1"
    and fr: "fr = \<lparr>f_is_final = fin h, f_opcode = opcode h, f_payload = pay\<rparr>"
  shows "legal_payload p fr \<Longrightarrow> \<exists>p'. decode_unmasked U p (pre @ pay @ rest) h (payload_length h) pay
      = Some (Inr (Some fr), p', rest) \<and> took_frame p fr p'"
    and "decode_unmasked U p (pre @ pay @ rest) h (payload_length h) pay = Some (Inr (Some fr'), p', s)
      \<Longrightarrow> fr' = fr \<and> s = rest \<and> legal_payload p fr \<and> took_frame p fr p'"
proof -
  let ?res = "decode_unmasked U p (pre @ pay @ rest) h (payload_length h) pay"
  let ?c = "payload_length h = payload_length h \<and> fin h"
  have istext: "is_text p h \<longleftrightarrow> text_frame p fr" by (simp add: is_text_def text_frame_def fr)
  obtain r v where fd: "(if is_text p h then feed U (validator p) pay ?c else Some (Inr (), validator p)) = Some (r, v)"
    using feed_total [OF inv, of pay ?c] by (cases "is_text p h") auto
  note finish = decode_finish_layout [OF pre pay(1)]
  have cl: "check_close U h (pre @ pay @ rest) = Some (Inr ()) \<longleftrightarrow> legal_close pay"
    "check_close U h (pre @ pay @ rest) \<noteq> None" if "opcode h = Close"
    using check_close_layout [OF pre pay(1)] close [OF that] pay(2)
    by (metis One_nat_def Suc_1 Suc_leI length_greater_0_conv nat_less_le not_less_eq_eq)+
  have r: "r = Inr () \<longleftrightarrow> (text_frame p fr \<longrightarrow>
      (if fin h then valid_utf8 (stored (validator p) @ pay)
       else utf8_run Boundary (stored (validator p) @ pay) \<noteq> None))"
  proof (cases "is_text p h")
    case True
    then show ?thesis using fd feed_accepts(1) [OF inv, of pay ?c] istext by auto
  qed (use fd istext in simp)
  have v: "r = Inr () \<Longrightarrow> validator_inv v \<and> (if text_frame p fr
      then utf8_run Boundary (stored v) = utf8_run Boundary (stored (validator p) @ pay) else v = validator p)"
    using fd feed_accepts(2) [OF inv, of pay ?c v] istext inv by (auto split: if_splits)
  have legal: "legal_payload p fr \<longleftrightarrow> (opcode h = Close \<longrightarrow> legal_close pay) \<and> r = Inr ()"
    using r pay(2) by (auto simp: legal_payload_def fr)
  define p1 where "p1 = (if is_text p h then p\<lparr>validator := v, payload_processed := payload_length h\<rparr> else p)"
  have took: "took_frame p fr (p1\<lparr>fragmented_message_opcode :=
          (if \<not> fin h \<and> opcode h \<noteq> Continuation then opcode h else fragmented_message_opcode p1),
        payload_processed := 0\<rparr>)" if "r = Inr ()"
    using v [OF that] istext pay(2) inv
    by (simp add: took_frame_def fr p1_def)
  have res: "?res = (case r of Inl e \<Rightarrow> Some (Inl (Protocol e), p\<lparr>validator := v\<rparr>, pre @ pay @ rest)
      | Inr _ \<Rightarrow> if opcode h = Close then
          (case check_close U h (pre @ pay @ rest) of None \<Rightarrow> None | Some (Inl e) \<Rightarrow> Some (Inl e, p1, pre @ pay @ rest)
            | Some (Inr _) \<Rightarrow> decode_finish p1 (pre @ pay @ rest) h) else decode_finish p1 (pre @ pay @ rest) h)"
    unfolding decode_unmasked_def Let_def fd p1_def by (simp split: sum.split)
  show "\<exists>p'. ?res = Some (Inr (Some fr), p', rest) \<and> took_frame p fr p'" if "legal_payload p fr"
    using that took cl unfolding legal res finish by (auto simp: fr)
  show "fr' = fr \<and> s = rest \<and> legal_payload p fr \<and> took_frame p fr p'"
    if "?res = Some (Inr (Some fr'), p', s)"
    using that took cl unfolding legal res finish by (auto simp: fr split: sum.splits if_splits option.splits)
qed

lemma decode_wire:
  assumes inv: "validator_inv (validator p)" "payload_processed p = 0" and key: "key_for (role p) key"
    and legal: "legal_head p (f_is_final fr) (f_opcode fr) (length (f_payload fr))" "legal_payload p fr"
  shows "\<exists>p'. decode U pf p (wire_frame key fr @ rest) = Some (Inr (Some fr), p', rest) \<and> took_frame p fr p'"
proof -
  let ?m = "key \<noteq> []" let ?pay = "f_payload fr"
  let ?hb = "wire_head (f_is_final fr) (f_opcode fr) ?m (length ?pay)"
  let ?h = "\<lparr>fin = f_is_final fr, opcode = f_opcode fr, masked = ?m, payload_length = length ?pay,
    offset = length (?hb @ key)\<rparr>"
  let ?src = "wire_frame key fr @ rest"
  have m: "?m \<longleftrightarrow> role p = Server" "length key = (if ?m then 4 else 0)"
    using key by (auto simp: key_for_def split: if_splits)
  have src: "?src = ?hb @ key @ [] @ mask_if ?m key ?pay @ rest" by (simp add: wire_frame_def)
  have head: "decode_head p ?src = Inr (Some ?h)"
    unfolding src using decode_head_wire [OF legal(1) m] by simp
  have fr: "fr = \<lparr>f_is_final = fin ?h, f_opcode = opcode ?h, f_payload = ?pay\<rparr>" by simp
  show ?thesis
  proof (cases "?pay = []")
    case True
    have "decode U pf p ?src = decode_finish p ((?hb @ key) @ [] @ rest) ?h"
      unfolding decode_def head using True by (simp add: wire_frame_def mask_if_def)
    also have "\<dots> = Some (Inr (Some fr), p\<lparr>fragmented_message_opcode :=
          (if \<not> f_is_final fr \<and> f_opcode fr \<noteq> Continuation then f_opcode fr else fragmented_message_opcode p),
        payload_processed := 0\<rparr>, rest)"
      using True by (subst decode_finish_layout) simp_all
    finally show ?thesis using inv True by (simp add: took_frame_def)
  next
    case False
    have lay: "layout p ?h (length ?pay) ?hb key [] (mask_if ?m key ?pay) rest"
      using inv(2) m(2) by (auto simp: layout_def head_end_def)
    have "mask_if ?m key (mask_if ?m key ?pay) = ?pay" by (simp add: mask_if_def mask_bytes_involution)
    then have "decode U pf p ?src = decode_unmasked U p
        ((?hb @ rotate_if ?m (length ?pay) key) @ ?pay @ rest) ?h (payload_length ?h) ?pay"
      using decode_layout [OF head _ src lay, of ?m U pf] False by simp
    moreover have "legal_head p (f_is_final fr) (f_opcode fr) (length ?pay) \<Longrightarrow> opcode ?h = Close \<Longrightarrow> length ?pay \<noteq> 1"
      by (simp add: legal_head_def)
    ultimately show ?thesis
      using decode_unmasked_accepts(1) [of "?hb @ rotate_if ?m (length ?pay) key" ?h ?pay p fr rest] inv False legal fr
      by simp
  qed
qed

lemma decode_wire_only:
  assumes inv: "codec_inv p src" "payload_processed p = 0"
    and res: "decode U pf p src = Some (Inr (Some fr), p', rest)"
  shows "\<exists>key. key_for (role p) key \<and> src = wire_frame key fr @ rest
    \<and> legal_head p (f_is_final fr) (f_opcode fr) (length (f_payload fr)) \<and> legal_payload p fr \<and> took_frame p fr p'"
proof -
  from res obtain h where head: "decode_head p src = Inr (Some h)"
    by (auto simp: decode_def split: sum.splits option.splits)
  note sound = decode_head_sound [OF head]
  have vinv: "validator_inv (validator p)" using inv(1) by (simp add: codec_inv_def)
  show ?thesis
  proof (cases "payload_length h = 0")
    case True
    have o: "offset h \<le> length src" "offset h = (if masked h then head_end h + 4 else head_end h)"
      using head by (auto elim: decode_head_Some)
    let ?key = "drop (head_end h) (take (offset h) src)"
    have key: "?key \<noteq> [] \<longleftrightarrow> masked h" "key_for (role p) ?key" using o sound(2) by (auto simp: key_for_def)
    have split: "src = take (head_end h) src @ ?key @ drop (offset h) src"
      using o(2) by (metis append.assoc append_take_drop_id le_add1 min.absorb1 order_refl take_take)
    have "decode U pf p src = decode_finish p src h" using head True by (simp add: decode_def)
    then have fr: "fr = \<lparr>f_is_final = fin h, f_opcode = opcode h, f_payload = []\<rparr>" "rest = drop (offset h) src"
      "took_frame p fr p'"
      using res o(1) True inv(2) vinv by (auto simp: decode_finish_eq took_frame_def)
    have "wire_frame ?key fr @ rest = wire_head (fin h) (opcode h) (masked h) 0 @ ?key @ drop (offset h) src"
      unfolding wire_frame_def fr(1,2) wsframe.simps key(1) by (simp add: mask_if_def)
    then have "src = wire_frame ?key fr @ rest" using split sound(3) True by simp
    moreover have "legal_payload p fr" using fr(1) by (simp add: legal_payload_def legal_close_def)
    ultimately show ?thesis using sound(1) key(2) fr True by (intro exI [of _ ?key]) simp
  next
    case False
    obtain avail hb key don raw tail where src: "src = hb @ key @ don @ raw @ tail"
      and lay: "layout p h avail hb key don raw tail"
      by (rule layout_exists [OF head inv(1) False]) (rule that)
    define u where "u \<longleftrightarrow> masked h \<and> (avail = payload_length h \<or> is_text p h)"
    note eq = decode_layout [OF head False src lay u_def, of U pf]
    have avail: "avail = payload_length h"
      using res unfolding eq by (auto simp: decode_unmasked_def Let_def split: option.splits sum.splits prod.splits if_splits)
    then have u: "u \<longleftrightarrow> masked h" by (simp add: u_def)
    have don: "don = []" using lay inv(2) by (simp add: layout_def)
    let ?pay = "mask_if u key raw"
    have len: "length hb = head_end h" "length key = (if masked h then 4 else 0)" "length hb + length key = offset h"
      "length ?pay = payload_length h" using lay don avail by (simp_all add: layout_def)
    have key: "key \<noteq> [] \<longleftrightarrow> masked h" "key_for (role p) key" using len(2) sound(2) by (auto simp: key_for_def)
    have "hb = take (head_end h) src" using len(1) by (simp add: src)
    then have hb: "hb = wire_head (fin h) (opcode h) (masked h) (payload_length h)" using sound(3) by simp
    have close: "opcode h = Close \<Longrightarrow> length ?pay \<noteq> 1" using close_length [OF head _ False] len(4) by simp
    let ?fr = "\<lparr>f_is_final = fin h, f_opcode = opcode h, f_payload = ?pay\<rparr>"
    have "decode_unmasked U p ((hb @ rotate_if u (length raw) key) @ ?pay @ tail) h (payload_length h) ?pay
        = Some (Inr (Some fr), p', rest)"
      using res eq avail don by simp
    moreover have "length (hb @ rotate_if u (length raw) key) = offset h" using len by simp
    moreover have "?pay \<noteq> []" using len(4) False by (metis list.size(3))
    ultimately have fr: "fr = ?fr" "rest = tail" "legal_payload p fr" "took_frame p fr p'"
      using decode_unmasked_accepts(2) [of "hb @ rotate_if u (length raw) key" h ?pay p ?fr tail fr p' rest]
        len(4) vinv close by simp_all
    have "src = wire_frame key fr @ rest"
      using src don fr(1,2) key(1) hb len(4) u by (simp add: wire_frame_def mask_if_def mask_bytes_involution)
    then show ?thesis using key(2) sound(1) fr len(4) by auto
  qed
qed

end

subsection \<open>Properties\<close>

text \<open>
  C6: The decoder takes a frame off the buffer exactly if the buffer starts with the encoding of
  that frame by section 5.2 of RFC 6455, masked if and only if this side is the server, with the
  shortest length, and the frame is legal: reserved bits zero and a known opcode, control frames
  final and of at most 125 bytes, continuation frames only inside a message and no other data
  frame there, a length within the limit, a close body that is empty or a sendable code with a
  UTF-8 reason, text that is UTF-8. It then returns the unmasked payload, leaves the bytes behind
  the frame and takes over the opcode of a message that a frame begins.
\<close>

theorem decode_accepts_exactly_wire_frames:
  assumes "simdutf8_lib U" and "codec_inv p src" and "payload_processed p = 0"
  shows "(\<exists>p'. decode U pf p src = Some (Inr (Some fr), p', rest) \<and> took_frame p fr p') \<longleftrightarrow>
    (\<exists>key. key_for (role p) key \<and> src = wire_frame key fr @ rest
      \<and> legal_head p (f_is_final fr) (f_opcode fr) (length (f_payload fr)) \<and> legal_payload p fr)"
proof
  assume "\<exists>p'. decode U pf p src = Some (Inr (Some fr), p', rest) \<and> took_frame p fr p'"
  then show "\<exists>key. key_for (role p) key \<and> src = wire_frame key fr @ rest
      \<and> legal_head p (f_is_final fr) (f_opcode fr) (length (f_payload fr)) \<and> legal_payload p fr"
    using simdutf8_lib.decode_wire_only [OF assms(1-3)] by blast
next
  assume "\<exists>key. key_for (role p) key \<and> src = wire_frame key fr @ rest
      \<and> legal_head p (f_is_final fr) (f_opcode fr) (length (f_payload fr)) \<and> legal_payload p fr"
  moreover have "validator_inv (validator p)" using assms(2) by (simp add: codec_inv_def)
  ultimately show "\<exists>p'. decode U pf p src = Some (Inr (Some fr), p', rest) \<and> took_frame p fr p'"
    using simdutf8_lib.decode_wire [OF assms(1) _ assms(3)] by blast
qed

theorem decode_accepts_exactly_wire_frames_witness:
  "\<exists>p'. decode std_utf8 scalar_platform (protocol_new Server limits_default)
      (wire_frame [1, 2, 3, 4] \<lparr>f_is_final = True, f_opcode = Text, f_payload = [0x68, 0x69]\<rparr> @ [0x81])
    = Some (Inr (Some \<lparr>f_is_final = True, f_opcode = Text, f_payload = [0x68, 0x69]\<rparr>), p', [0x81])"
proof -
  let ?fr = "\<lparr>f_is_final = True, f_opcode = Text, f_payload = [0x68, 0x69 :: byte]\<rparr>"
  let ?p = "protocol_new Server limits_default"
  have "legal_head ?p True Text 2" "key_for (role ?p) [1, 2, 3, 4]"
    by (simp_all add: legal_head_def protocol_new_def limits_default_def key_for_def)
  moreover have "legal_payload ?p ?fr"
    by (simp add: legal_payload_def text_frame_def protocol_new_def valid_utf8_def)
  ultimately show ?thesis
    using decode_accepts_exactly_wire_frames [OF std.simdutf8_lib_axioms codec_inv_new, of Server limits_default
        scalar_platform "wire_frame [1, 2, 3, 4] ?fr @ [0x81]" ?fr "[0x81]"]
    by (auto simp: protocol_new_def numeral_2_eq_2)
qed

text \<open>
  C9: The decoder does not check the end of a text message that ends with an empty frame: after a
  first frame that stops inside a code point, an empty final continuation frame is accepted, so a
  complete text message goes through whose payload is not UTF-8, and the validator still holds the
  unfinished code point, which the next text message will be judged with.
\<close>

theorem empty_final_frame_escapes_utf8_check:
  assumes "simdutf8_lib U" and "utf8_run Boundary xs \<noteq> None" and "\<not> valid_utf8 xs"
    and "length xs \<le> max_payload_len l" and "length xs < 2 ^ 64"
    and "key_for r k1" and "key_for r k2"
  shows "\<exists>p1 p2. decode U pf (protocol_new r l)
        (wire_frame k1 \<lparr>f_is_final = False, f_opcode = Text, f_payload = xs\<rparr>
          @ wire_frame k2 \<lparr>f_is_final = True, f_opcode = Continuation, f_payload = []\<rparr> @ rest)
      = Some (Inr (Some \<lparr>f_is_final = False, f_opcode = Text, f_payload = xs\<rparr>), p1,
          wire_frame k2 \<lparr>f_is_final = True, f_opcode = Continuation, f_payload = []\<rparr> @ rest)
    \<and> decode U pf p1 (wire_frame k2 \<lparr>f_is_final = True, f_opcode = Continuation, f_payload = []\<rparr> @ rest)
      = Some (Inr (Some \<lparr>f_is_final = True, f_opcode = Continuation, f_payload = []\<rparr>), p2, rest)
    \<and> \<not> valid_utf8 (xs @ []) \<and> stored (validator p2) \<noteq> []"
proof -
  let ?p = "protocol_new r l"
  let ?f1 = "\<lparr>f_is_final = False, f_opcode = Text, f_payload = xs\<rparr>"
  let ?f2 = "\<lparr>f_is_final = True, f_opcode = Continuation, f_payload = [] :: bytes\<rparr>"
  have p: "validator_inv (validator ?p)" "payload_processed ?p = 0" "role ?p = r"
    "stored (validator ?p) = []" "fragmented_message_opcode ?p = Continuation" "limits ?p = l"
    by (simp_all add: protocol_new_def)
  have "xs \<noteq> []" using assms(3) by (auto simp: valid_utf8_def)
  have "legal_head ?p (f_is_final ?f1) (f_opcode ?f1) (length (f_payload ?f1))" "legal_payload ?p ?f1"
    using assms p by (simp_all add: legal_head_def legal_payload_def)
  from simdutf8_lib.decode_wire [OF assms(1) p(1,2) _ this, of k1 pf "wire_frame k2 ?f2 @ rest"] assms(6) p(3)
  obtain p1 where d1: "decode U pf ?p (wire_frame k1 ?f1 @ wire_frame k2 ?f2 @ rest)
      = Some (Inr (Some ?f1), p1, wire_frame k2 ?f2 @ rest)" and t1: "took_frame ?p ?f1 p1" by auto
  have p1: "validator_inv (validator p1)" "payload_processed p1 = 0" "role p1 = r"
    "fragmented_message_opcode p1 = Text" "utf8_run Boundary (stored (validator p1)) = utf8_run Boundary xs"
    using t1 p \<open>xs \<noteq> []\<close> by (simp_all add: took_frame_def text_frame_def)
  have "legal_head p1 (f_is_final ?f2) (f_opcode ?f2) (length (f_payload ?f2))" "legal_payload p1 ?f2"
    using p1 by (simp_all add: legal_head_def legal_payload_def)
  from simdutf8_lib.decode_wire [OF assms(1) p1(1,2) _ this, of k2 pf rest] assms(7) p1(3)
  obtain p2 where d2: "decode U pf p1 (wire_frame k2 ?f2 @ rest) = Some (Inr (Some ?f2), p2, rest)"
    and t2: "took_frame p1 ?f2 p2" by auto
  have "validator p2 = validator p1" using t2 by (simp add: took_frame_def)
  then have "stored (validator p2) \<noteq> []" using p1(5) assms(3) by (auto simp: valid_utf8_def)
  with d1 d2 assms(3) show ?thesis by auto
qed

theorem empty_final_frame_escapes_utf8_check_witness:
  "\<exists>p1 p2. decode std_utf8 scalar_platform (protocol_new Client limits_default) [0x01, 0x01, 0xF0, 0x80, 0x00]
      = Some (Inr (Some \<lparr>f_is_final = False, f_opcode = Text, f_payload = [0xF0]\<rparr>), p1, [0x80, 0x00])
    \<and> decode std_utf8 scalar_platform p1 [0x80, 0x00]
      = Some (Inr (Some \<lparr>f_is_final = True, f_opcode = Continuation, f_payload = []\<rparr>), p2, [])
    \<and> \<not> valid_utf8 [0xF0] \<and> stored (validator p2) \<noteq> []"
  using empty_final_frame_escapes_utf8_check [OF std.simdutf8_lib_axioms, of "[0xF0]" limits_default Client
      "[]" "[]" scalar_platform "[]"]
  by (simp add: key_for_def valid_utf8_def limits_default_def wire_frame_def wire_head_def len7_def ext_len_def
      mask_if_def)

end
