(* ===== verification/Frame_Queue.thy ===== *)
theory Frame_Queue
  imports Proto_Types "HOL-Library.Sublist"
begin

text \<open>
  \<open>EncodedFrame\<close> and \<open>FrameQueue\<close> of \<open>src/proto/stream.rs\<close>: the queue of encoded frames that
  waits to be written, and its implementation of \<open>bytes::Buf\<close>. The contract of \<open>Buf\<close> is the
  locale \<open>buf\<close>; the queue implements it for the bytes of its frames in order, less those of the
  first frame that are written already. \<open>None\<close> is a panic or an unchecked access out of range.
\<close>

subsection \<open>Encoded frames\<close>

record encoded_frame =
  header :: bytes
  payload :: bytes

definition is_masked :: "encoded_frame \<Rightarrow> bool" where
  "is_masked ef = (drop_bit 7 (header ef ! 1) \<noteq> 0)"

definition header_len :: "encoded_frame \<Rightarrow> usize" where
  "header_len ef =
     (let mask_bytes = if is_masked ef then 4 else 0; l = header ef ! 1 AND 127
      in if l = 127 then 10 + mask_bytes else if l = 126 then 4 + mask_bytes else 2 + mask_bytes)"

definition encoded_frame_len :: "encoded_frame \<Rightarrow> usize" where
  "encoded_frame_len ef = header_len ef + length (payload ef)"

subsection \<open>The queue\<close>

record frame_queue =
  queue :: "encoded_frame list"
  bytes_written :: usize
  pending_bytes :: usize

definition frame_queue_new :: frame_queue where
  "frame_queue_new = \<lparr>queue = [], bytes_written = 0, pending_bytes = 0\<rparr>"

definition push :: "frame_queue \<Rightarrow> encoded_frame \<Rightarrow> frame_queue" where
  "push fq item = fq\<lparr>pending_bytes := pending_bytes fq + encoded_frame_len item,
     queue := queue fq @ [item]\<rparr>"

definition remaining :: "frame_queue \<Rightarrow> usize" where
  "remaining fq = pending_bytes fq"

definition has_remaining :: "frame_queue \<Rightarrow> bool" where
  "has_remaining fq = (0 < remaining fq)"

definition chunk :: "frame_queue \<Rightarrow> bytes option" where
  "chunk fq =
     (case queue fq of
        [] \<Rightarrow> Some []
      | frame # _ \<Rightarrow>
          if header_len frame \<le> bytes_written fq
          then slice (payload frame) (bytes_written fq - header_len frame) (length (payload frame))
          else slice (header frame) (bytes_written fq) (header_len frame))"

fun advance_loop :: "encoded_frame list \<Rightarrow> usize \<Rightarrow> usize \<Rightarrow> (encoded_frame list \<times> usize) option" where
  "advance_loop [] written cnt = (if 0 < cnt then None else Some ([], written))"
| "advance_loop (item # rest) written cnt =
     (if 0 < cnt
      then if encoded_frame_len item \<le> cnt then advance_loop rest 0 (cnt - encoded_frame_len item)
           else Some (item # rest, cnt)
      else Some (item # rest, written))"

definition advance :: "frame_queue \<Rightarrow> usize \<Rightarrow> frame_queue option" where
  "advance fq cnt =
     (case checked_sub (pending_bytes fq) cnt of
        None \<Rightarrow> None
      | Some pending \<Rightarrow>
          map_option (\<lambda>(q, written). \<lparr>queue = q, bytes_written = written, pending_bytes = pending\<rparr>)
            (advance_loop (queue fq) (bytes_written fq) (cnt + bytes_written fq)))"

text \<open>
  \<open>chunks_vectored\<close>: the slices written to a \<open>dst\<close> with \<open>dst_len\<close> slots; the result \<open>n\<close> of the
  source is their number.
\<close>

fun chunks_vectored_loop ::
  "usize \<Rightarrow> usize \<Rightarrow> nat \<Rightarrow> encoded_frame list \<Rightarrow> bytes list \<Rightarrow> bytes list option" where
  "chunks_vectored_loop written dst_len idx [] dst = Some dst"
| "chunks_vectored_loop written dst_len idx (frame # rest) dst =
     (if dst_len \<le> length dst then Some dst
      else if idx = 0 then
        (case (if written < header_len frame
               then map_option (\<lambda>s. dst @ [s]) (slice (header frame) written (header_len frame))
               else Some dst) of
           None \<Rightarrow> None
         | Some dst1 \<Rightarrow>
             if payload frame \<noteq> [] \<and> length dst1 < dst_len
             then (case slice (payload frame) (written - header_len frame) (length (payload frame)) of
                     None \<Rightarrow> None
                   | Some s \<Rightarrow> chunks_vectored_loop written dst_len (Suc idx) rest (dst1 @ [s]))
             else chunks_vectored_loop written dst_len (Suc idx) rest dst1)
      else
        (case slice (header frame) 0 (header_len frame) of
           None \<Rightarrow> None
         | Some s \<Rightarrow>
             let dst1 = dst @ [s]
             in if payload frame \<noteq> [] \<and> length dst1 < dst_len
                then chunks_vectored_loop written dst_len (Suc idx) rest (dst1 @ [payload frame])
                else chunks_vectored_loop written dst_len (Suc idx) rest dst1))"

definition chunks_vectored :: "frame_queue \<Rightarrow> usize \<Rightarrow> bytes list option" where
  "chunks_vectored fq dst_len = chunks_vectored_loop (bytes_written fq) dst_len 0 (queue fq) []"

subsection \<open>The contract of a buffer\<close>

text \<open>
  What the documentation of \<open>bytes::Buf\<close> asks of an implementation, for the byte sequence
  \<open>contents\<close> that the buffer stands for.
\<close>

locale buf =
  fixes inv :: "'s \<Rightarrow> bool" and contents :: "'s \<Rightarrow> bytes"
    and rem :: "'s \<Rightarrow> usize" and chk :: "'s \<Rightarrow> bytes option"
    and adv :: "'s \<Rightarrow> usize \<Rightarrow> 's option" and vec :: "'s \<Rightarrow> usize \<Rightarrow> bytes list option"
  assumes rem_eq: "inv s \<Longrightarrow> rem s = length (contents s)"
    and chk_prefix: "inv s \<Longrightarrow> \<exists>c. chk s = Some c \<and> prefix c (contents s) \<and> (c = [] \<longrightarrow> contents s = [])"
    and adv_drop: "inv s \<Longrightarrow> n \<le> length (contents s)
      \<Longrightarrow> \<exists>s'. adv s n = Some s' \<and> inv s' \<and> contents s' = drop n (contents s)"
    and vec_prefix: "inv s \<Longrightarrow> \<exists>cs. vec s k = Some cs \<and> length cs \<le> k \<and> prefix (concat cs) (contents s)
      \<and> (0 < k \<and> concat cs = [] \<longrightarrow> contents s = [])"
begin

text \<open>A writer that takes a part of each chunk and advances by it writes the contents in order.\<close>

fun write_all :: "'s \<Rightarrow> usize list \<Rightarrow> (bytes \<times> 's) option" where
  "write_all s [] = Some ([], s)"
| "write_all s (n # ns) =
     (case chk s of
        None \<Rightarrow> None
      | Some c \<Rightarrow>
          (case adv s (min n (length c)) of
             None \<Rightarrow> None
           | Some s' \<Rightarrow> map_option (\<lambda>(out, s''). (take n c @ out, s'')) (write_all s' ns)))"

lemma write_all_in_order:
  "inv s \<Longrightarrow> \<exists>out s'. write_all s ns = Some (out, s') \<and> inv s' \<and> contents s = out @ contents s'"
proof (induction ns arbitrary: s)
  case (Cons n ns)
  from chk_prefix [OF Cons.prems] obtain c where c: "chk s = Some c" "prefix c (contents s)" by blast
  then obtain r where r: "contents s = c @ r" by (auto elim: prefixE)
  have "min n (length c) \<le> length (contents s)" using r by simp
  from adv_drop [OF Cons.prems this] obtain s' where
    s': "adv s (min n (length c)) = Some s'" "inv s'" "contents s' = drop (min n (length c)) (contents s)"
    by blast
  from Cons.IH [OF s'(2)] obtain out s'' where
    "write_all s' ns = Some (out, s'')" "inv s''" "contents s' = out @ contents s''" by blast
  moreover have "contents s = take n c @ contents s'"
    using s'(3) r by (simp add: min_def)
  ultimately show ?case using c(1) s'(1) by simp
qed simp

end

subsection \<open>The queue implements it\<close>

definition frame_bytes :: "encoded_frame \<Rightarrow> bytes" where
  "frame_bytes ef = take (header_len ef) (header ef) @ payload ef"

definition contents :: "frame_queue \<Rightarrow> bytes" where
  "contents fq = drop (bytes_written fq) (concat (map frame_bytes (queue fq)))"

definition fq_inv :: "frame_queue \<Rightarrow> bool" where
  "fq_inv fq \<longleftrightarrow> (\<forall>ef \<in> set (queue fq). length (header ef) = 14)
     \<and> pending_bytes fq = length (contents fq)
     \<and> (case queue fq of [] \<Rightarrow> bytes_written fq = 0 | ef # _ \<Rightarrow> bytes_written fq < encoded_frame_len ef)"

lemma header_len_bounds: "2 \<le> header_len ef" "header_len ef \<le> 14"
  by (simp_all add: header_len_def Let_def)

lemma encoded_frame_len_pos [simp]: "0 < encoded_frame_len ef"
  using header_len_bounds(1) [of ef] by (simp add: encoded_frame_len_def)

lemma length_frame_bytes [simp]:
  "length (header ef) = 14 \<Longrightarrow> length (frame_bytes ef) = encoded_frame_len ef"
  using header_len_bounds(2) [of ef] by (simp add: frame_bytes_def encoded_frame_len_def)

lemma frame_queue_new_inv [simp]: "fq_inv frame_queue_new" "contents frame_queue_new = []"
  by (simp_all add: fq_inv_def frame_queue_new_def contents_def)

lemma length_concat_frames:
  "\<forall>ef \<in> set q. length (header ef) = 14 \<Longrightarrow>
     length (concat (map frame_bytes q)) = sum_list (map encoded_frame_len q)"
  by (induction q) simp_all

lemma push_inv [simp]:
  assumes "fq_inv fq" and "length (header ef) = 14"
  shows "fq_inv (push fq ef)" and "contents (push fq ef) = contents fq @ frame_bytes ef"
proof -
  have "bytes_written fq \<le> length (concat (map frame_bytes (queue fq)))"
    using assms by (cases "queue fq") (auto simp: fq_inv_def)
  then show c: "contents (push fq ef) = contents fq @ frame_bytes ef"
    by (simp add: contents_def push_def)
  show "fq_inv (push fq ef)"
    using assms unfolding fq_inv_def c by (cases "queue fq") (auto simp: push_def)
qed

lemma chunk_prefix:
  assumes "fq_inv fq"
  shows "\<exists>c. chunk fq = Some c \<and> prefix c (contents fq) \<and> (c = [] \<longrightarrow> contents fq = [])"
proof (cases "queue fq")
  case Nil
  then show ?thesis by (simp add: chunk_def contents_def)
next
  case (Cons ef rest)
  let ?w = "bytes_written fq" let ?r = "concat (map frame_bytes rest)"
  have w: "?w < encoded_frame_len ef" and h: "length (header ef) = 14"
    using assms Cons by (simp_all add: fq_inv_def)
  note hl = header_len_bounds [of ef]
  have c: "contents fq = drop ?w (take (header_len ef) (header ef)) @ drop (?w - header_len ef) (payload ef) @ ?r"
    using w h hl by (auto simp: contents_def Cons frame_bytes_def encoded_frame_len_def min_def)
  show ?thesis
  proof (cases "header_len ef \<le> ?w")
    case True
    then show ?thesis using w h hl unfolding c by (simp add: chunk_def Cons encoded_frame_len_def)
  next
    case False
    then show ?thesis using h hl unfolding c by (simp add: chunk_def Cons)
  qed
qed

lemma advance_loop_drop:
  assumes "\<forall>ef \<in> set q. length (header ef) = 14" and "cnt \<le> length (concat (map frame_bytes q))"
  shows "\<exists>q' w. advance_loop q 0 cnt = Some (q', w) \<and> set q' \<subseteq> set q
    \<and> drop w (concat (map frame_bytes q')) = drop cnt (concat (map frame_bytes q))
    \<and> (case q' of [] \<Rightarrow> w = 0 | ef # _ \<Rightarrow> w < encoded_frame_len ef)"
  using assms
proof (induction q arbitrary: cnt)
  case (Cons ef q)
  show ?case
  proof (cases "encoded_frame_len ef \<le> cnt")
    case True
    have "cnt - encoded_frame_len ef \<le> length (concat (map frame_bytes q))" using Cons.prems by simp
    with Cons.IH [of "cnt - encoded_frame_len ef"] Cons.prems(1) obtain q' w where
      "advance_loop q 0 (cnt - encoded_frame_len ef) = Some (q', w)" "set q' \<subseteq> set q"
      "drop w (concat (map frame_bytes q')) = drop (cnt - encoded_frame_len ef) (concat (map frame_bytes q))"
      "case q' of [] \<Rightarrow> w = 0 | ef # _ \<Rightarrow> w < encoded_frame_len ef" by auto
    then show ?thesis using True Cons.prems(1) less_le_trans [OF encoded_frame_len_pos True] by auto
  next
    case False
    then show ?thesis using Cons.prems by (cases "cnt = 0") simp_all
  qed
qed simp

lemma advance_loop_written: "0 < cnt \<Longrightarrow> advance_loop q w cnt = advance_loop q w' cnt"
  by (cases q) simp_all

lemma advance_drop:
  assumes inv: "fq_inv fq" and n: "n \<le> length (contents fq)"
  shows "\<exists>fq'. advance fq n = Some fq' \<and> fq_inv fq' \<and> contents fq' = drop n (contents fq)"
proof -
  let ?w = "bytes_written fq" let ?all = "concat (map frame_bytes (queue fq))"
  have h: "\<forall>ef \<in> set (queue fq). length (header ef) = 14" and pending: "pending_bytes fq = length (contents fq)"
    using inv by (simp_all add: fq_inv_def)
  have w: "?w \<le> length ?all" using inv h by (cases "queue fq") (auto simp: fq_inv_def)
  then have "n + ?w \<le> length ?all" using n by (simp add: contents_def)
  from advance_loop_drop [OF h this] obtain q' w' where
    loop: "advance_loop (queue fq) 0 (n + ?w) = Some (q', w')" "set q' \<subseteq> set (queue fq)"
    "drop w' (concat (map frame_bytes q')) = drop (n + ?w) ?all"
    "case q' of [] \<Rightarrow> w' = 0 | ef # _ \<Rightarrow> w' < encoded_frame_len ef" by blast
  have "advance_loop (queue fq) ?w (n + ?w) = Some (q', w')"
    using loop(1) advance_loop_written [of "n + ?w" "queue fq" ?w 0] by (cases "n + ?w = 0") auto
  then have eq: "advance fq n = Some \<lparr>queue = q', bytes_written = w', pending_bytes = pending_bytes fq - n\<rparr>"
    using n pending by (simp add: advance_def)
  have "contents \<lparr>queue = q', bytes_written = w', pending_bytes = pending_bytes fq - n\<rparr> = drop n (contents fq)"
    using loop(3) by (simp add: contents_def)
  then show ?thesis using eq loop(2,4) h pending by (cases q') (auto simp: fq_inv_def)
qed

lemma chunks_vectored_rest:
  assumes "\<forall>ef \<in> set q. length (header ef) = 14" and "0 < idx" and "length dst \<le> k"
  shows "\<exists>cs. chunks_vectored_loop w k idx q dst = Some (dst @ cs) \<and> length (dst @ cs) \<le> k
    \<and> prefix (concat cs) (concat (map frame_bytes q))"
  using assms
proof (induction q arbitrary: idx dst)
  case (Cons ef q)
  let ?h = "take (header_len ef) (header ef)"
  show ?case
  proof (cases "k \<le> length dst")
    case False
    have h: "slice (header ef) 0 (header_len ef) = Some ?h"
      using Cons.prems(1) header_len_bounds(2) [of ef] by simp
    let ?cs = "if payload ef \<noteq> [] \<and> Suc (length dst) < k then [?h, payload ef] else [?h]"
    have IH: "\<exists>cs. chunks_vectored_loop w k (Suc idx) q (dst @ ?cs) = Some ((dst @ ?cs) @ cs)
        \<and> length ((dst @ ?cs) @ cs) \<le> k \<and> prefix (concat cs) (concat (map frame_bytes q))"
      using False Cons.prems by (intro Cons.IH) auto
    then obtain cs where cs: "chunks_vectored_loop w k (Suc idx) q (dst @ ?cs) = Some ((dst @ ?cs) @ cs)"
      "length ((dst @ ?cs) @ cs) \<le> k" "prefix (concat cs) (concat (map frame_bytes q))" by blast
    have step: "chunks_vectored_loop w k idx (ef # q) dst = chunks_vectored_loop w k (Suc idx) q (dst @ ?cs)"
      using False Cons.prems(2) h by simp
    have "prefix (concat (?cs @ cs)) (concat (map frame_bytes (ef # q)))"
    proof (cases "payload ef \<noteq> [] \<and> \<not> Suc (length dst) < k")
      case True
      then have "cs = []" using cs(2) by (cases cs) (auto split: if_splits)
      then show ?thesis using True by (simp add: frame_bytes_def)
    next
      case False
      then show ?thesis using cs(3) by (auto simp: frame_bytes_def)
    qed
    then show ?thesis using cs(1,2) unfolding step by (intro exI [of _ "?cs @ cs"]) simp
  qed (use Cons.prems in simp)
qed simp

lemma chunks_vectored_prefix:
  assumes inv: "fq_inv fq"
  shows "\<exists>cs. chunks_vectored fq k = Some cs \<and> length cs \<le> k \<and> prefix (concat cs) (contents fq)
    \<and> (0 < k \<and> concat cs = [] \<longrightarrow> contents fq = [])"
proof (cases "queue fq")
  case Nil
  then show ?thesis by (simp add: chunks_vectored_def contents_def)
next
  case (Cons ef q)
  let ?w = "bytes_written fq"
  let ?h = "drop ?w (take (header_len ef) (header ef))" let ?p = "drop (?w - header_len ef) (payload ef)"
  have w: "?w < encoded_frame_len ef" and h: "length (header ef) = 14" "\<forall>ef \<in> set q. length (header ef) = 14"
    using inv Cons by (simp_all add: fq_inv_def)
  note hl = header_len_bounds [of ef]
  have c: "contents fq = ?h @ ?p @ concat (map frame_bytes q)"
    using w h hl by (auto simp: contents_def Cons frame_bytes_def encoded_frame_len_def min_def)
  have empty: "header_len ef \<le> ?w \<Longrightarrow> ?p \<noteq> []" "\<not> header_len ef \<le> ?w \<Longrightarrow> ?h \<noteq> []" "header_len ef \<le> ?w \<Longrightarrow> ?h = []"
    using w h hl by (simp_all add: encoded_frame_len_def)
  show ?thesis
  proof (cases "k = 0")
    case True
    then show ?thesis by (simp add: chunks_vectored_def Cons)
  next
    case False
    let ?hs = "if ?w < header_len ef then [?h] else []"
    let ?cs = "?hs @ (if payload ef \<noteq> [] \<and> length ?hs < k then [?p] else [])"
    have len: "length ?cs \<le> k" using False by simp
    from chunks_vectored_rest [OF h(2) _ this, of 1 ?w] obtain cs where
      cs: "chunks_vectored_loop ?w k 1 q ?cs = Some (?cs @ cs)" "length (?cs @ cs) \<le> k"
      "prefix (concat cs) (concat (map frame_bytes q))" by auto
    have hs: "(if ?w < header_len ef
        then map_option (\<lambda>s. [] @ [s]) (slice (header ef) ?w (header_len ef)) else Some []) = Some ?hs"
      using h hl by simp
    have "?w - header_len ef \<le> length (payload ef)" using w by (simp add: encoded_frame_len_def)
    then have ps: "slice (payload ef) (?w - header_len ef) (length (payload ef)) = Some ?p" by simp
    have eq: "chunks_vectored fq k = chunks_vectored_loop ?w k 1 q ?cs"
      unfolding chunks_vectored_def Cons chunks_vectored_loop.simps hs using False ps by simp
    have "prefix (concat (?cs @ cs)) (contents fq)"
    proof (cases "payload ef \<noteq> [] \<and> \<not> length ?hs < k")
      case True
      then have "cs = []" using cs(2) by (cases cs) (auto split: if_splits)
      then show ?thesis using True unfolding c by (simp split: if_splits)
    next
      case False
      then have "concat ?cs = ?h @ ?p" using empty(3) by (auto simp: not_less)
      then show ?thesis using cs(3) unfolding c by simp
    qed
    moreover have "concat (?cs @ cs) \<noteq> []"
    proof (cases "header_len ef \<le> ?w")
      case True
      from empty(1) [OF True] have "payload ef \<noteq> []" by auto
      with True empty(1) [OF True] False show ?thesis by simp
    next
      case False
      with empty(2) [OF False] show ?thesis by simp
    qed
    moreover have "chunks_vectored fq k = Some (?cs @ cs)" using eq cs(1) by (rule trans)
    ultimately show ?thesis using cs(2) by blast
  qed
qed

interpretation fq: buf fq_inv contents remaining chunk advance chunks_vectored
proof
  show "fq_inv s \<Longrightarrow> remaining s = length (contents s)" for s
    by (simp add: remaining_def fq_inv_def)
qed (fact chunk_prefix advance_drop chunks_vectored_prefix)+

subsection \<open>Properties\<close>

text \<open>
  The queue is a faithful \<open>Buf\<close>: for a queue whose count is in step with its frames, advancing
  by at most what remains never panics, drops exactly that many bytes from the front of the encoded
  frames and keeps the count in step; pushing a frame appends its bytes.
\<close>

lemma frame_queue_advance_push:
  assumes "fq_inv fq" and "n \<le> remaining fq" and "length (header ef) = 14"
  shows "\<exists>fq'. advance fq n = Some fq' \<and> fq_inv fq' \<and> contents fq' = drop n (contents fq)
    \<and> remaining fq' = remaining fq - n
    \<and> fq_inv (push fq' ef) \<and> contents (push fq' ef) = drop n (contents fq) @ frame_bytes ef"
proof -
  have "n \<le> length (contents fq)" using assms fq.rem_eq by simp
  from fq.adv_drop [OF assms(1) this] obtain fq' where
    "advance fq n = Some fq'" "fq_inv fq'" "contents fq' = drop n (contents fq)" by blast
  then show ?thesis using assms(1,3) by (auto simp: fq.rem_eq)
qed

text \<open>
  C35: What a writer is offered: both \<open>chunk\<close> and \<open>chunks_vectored\<close> stay in bounds, give a prefix
  of the bytes that remain, in order and in at most as many slices as there is room for, and
  offer nothing only if nothing remains; so a writer that takes any part of each chunk and
  advances by it writes the queued bytes in order, none twice and none left out.
\<close>

theorem frame_queue_offers_pending_bytes:
  assumes "fq_inv fq"
  shows "\<exists>c cs out fq'. chunk fq = Some c \<and> prefix c (contents fq) \<and> (c = [] \<longrightarrow> contents fq = [])
    \<and> chunks_vectored fq k = Some cs \<and> length cs \<le> k \<and> prefix (concat cs) (contents fq)
    \<and> (0 < k \<and> concat cs = [] \<longrightarrow> contents fq = [])
    \<and> fq.write_all fq ns = Some (out, fq') \<and> fq_inv fq' \<and> contents fq = out @ contents fq'"
  using fq.chk_prefix [OF assms] fq.vec_prefix [OF assms, of k] fq.write_all_in_order [OF assms, of ns] by auto

theorem frame_queue_offers_pending_bytes_witness:
  "\<exists>c. chunk (push frame_queue_new \<lparr>header = [0x81, 2, 0, 0, 0, 0, 0, 0, 0, 0, 0, 0, 0, 0], payload = [0x68, 0x69]\<rparr>) = Some c
    \<and> c \<noteq> []"
proof -
  let ?fq = "push frame_queue_new \<lparr>header = [0x81, 2, 0, 0, 0, 0, 0, 0, 0, 0, 0, 0, 0, 0], payload = [0x68, 0x69 :: byte]\<rparr>"
  have inv: "fq_inv ?fq" "contents ?fq \<noteq> []"
    by (simp_all add: frame_bytes_def header_len_def is_masked_def)
  from frame_queue_offers_pending_bytes [OF inv(1)] inv(2) show ?thesis by blast
qed

end
