(* ===== verification/Messages.thy ===== *)
theory Messages
  imports Codec_Wire
begin

text \<open>
  What \<open>src/proto/types.rs\<close> promises of messages: the splitting of a message into frames
  terminates and keeps its content, a close message reads back as it was built, and the close
  frames the library builds itself never trip over the checks of \<open>Message::close\<close>.
\<close>

subsection \<open>Splitting into frames\<close>

text \<open>The frames of a message, for a frame size that is not zero.\<close>

function frames_of :: "usize \<Rightarrow> opcode \<Rightarrow> bytes \<Rightarrow> wsframe list" where
  "frames_of n op bs =
     (if n = 0 \<or> length bs \<le> n then [\<lparr>f_is_final = True, f_opcode = op, f_payload = bs\<rparr>]
      else \<lparr>f_is_final = False, f_opcode = op, f_payload = take n bs\<rparr> # frames_of n Continuation (drop n bs))"
  by pat_completeness auto
termination by (relation "measure (\<lambda>(n, op, bs). length bs)") auto

declare frames_of.simps [simp del]

lemma split_frame_simps:
  assumes "0 < n"
  shows "split_frame \<lparr>mf_frame_size = n, mf_payload = bs, mf_opcode = op\<rparr> =
    (\<lparr>f_is_final = (length bs \<le> n), f_opcode = op, f_payload = take n bs\<rparr>,
     \<lparr>mf_frame_size = n, mf_payload = drop n bs, mf_opcode = Continuation\<rparr>)"
  by (auto simp: split_frame_def Let_def min_def)

theorem frames_fold_eq:
  "0 < n \<Longrightarrow> frames_fold f acc \<lparr>mf_frame_size = n, mf_payload = bs, mf_opcode = op\<rparr>
     = Some (foldl f acc (frames_of n op bs))"
proof (induction n op bs arbitrary: acc rule: frames_of.induct)
  case (1 n op bs)
  show ?case
  proof (cases "length bs \<le> n")
    case True
    then show ?thesis
      using 1(2) by (subst frames_fold.simps, subst frames_of.simps) (simp add: split_frame_simps)
  next
    case False
    with 1(2) have "\<not> (n = 0 \<or> length bs \<le> n)" by simp
    from 1(1) [OF this 1(2)] False show ?thesis
      using 1(2) by (subst frames_fold.simps, subst frames_of.simps) (simp add: split_frame_simps)
  qed
qed

text \<open>The iterator gives the same frames one by one; it ends where the fold does.\<close>

lemma frames_next_eq:
  assumes "0 < n" and "bs \<noteq> [] \<or> op \<noteq> Continuation"
  shows "frames_next \<lparr>mf_frame_size = n, mf_payload = bs, mf_opcode = op\<rparr> =
    (Some (hd (frames_of n op bs)),
     \<lparr>mf_frame_size = n, mf_payload = drop n bs, mf_opcode = Continuation\<rparr>)"
    and "tl (frames_of n op bs) = (if drop n bs = [] then [] else frames_of n Continuation (drop n bs))"
  using assms by (simp_all add: frames_next_def split_frame_simps frames_of.simps [of n op bs])

text \<open>A frame size of zero makes no progress.\<close>

lemma frames_fold_zero:
  assumes "frames_fold f acc mf = Some r" and "mf_frame_size mf = 0"
  shows "mf_payload mf = []"
  using assms
proof (induction rule: frames_fold.raw_induct [rotated 1, consumes 1])
  case (1 fold f acc mf r)
  show ?case
  proof (rule ccontr)
    assume ne: "mf_payload mf \<noteq> []"
    with 1(2,3) have "fold f (f acc \<lparr>f_is_final = False, f_opcode = mf_opcode mf, f_payload = []\<rparr>)
        (mf\<lparr>mf_opcode := Continuation\<rparr>) = Some r" by (simp add: split_frame_def Let_def)
    from 1(1) [OF this] 1(3) ne show False by simp
  qed
qed

lemma frames_of_shape:
  assumes "0 < n"
  shows "concat (map f_payload (frames_of n op bs)) = bs"
    and "map f_opcode (frames_of n op bs) = op # replicate (length (frames_of n op bs) - 1) Continuation"
    and "map f_is_final (frames_of n op bs) = replicate (length (frames_of n op bs) - 1) False @ [True]"
    and "\<forall>fr \<in> set (frames_of n op bs). length (f_payload fr) \<le> n"
    and "bs \<noteq> [] \<Longrightarrow> \<forall>fr \<in> set (frames_of n op bs). f_payload fr \<noteq> []"
    and "frames_of n op bs \<noteq> []"
  using assms
proof (induction n op bs rule: frames_of.induct)
  case (1 n op bs)
  { case 1 then show ?case using 1 "1.IH"(1) by (subst frames_of.simps) (simp) }
  { case 2 then show ?case using "1.IH"(2,6) by (subst (1 2) frames_of.simps) (auto simp: neq_Nil_conv) }
  { case 3 then show ?case using "1.IH"(3,6) by (subst (1 2) frames_of.simps) (auto simp: neq_Nil_conv) }
  { case 4 then show ?case using "1.IH"(4) by (subst frames_of.simps) auto }
  { case 5 then show ?case using "1.IH"(5) by (subst frames_of.simps) auto }
  { case 6 show ?case by (subst frames_of.simps) simp }
qed

subsection \<open>Close messages\<close>

lemma as_close_body:
  assumes "try_from_u16 code = Some c" and "valid_utf8 reason"
  shows "as_close \<lparr>m_opcode = Close, m_payload = \<lparr>data = to_be_bytes 2 code @ reason, utf8_validated = u\<rparr>\<rparr>
    = Some (Some (c, reason))"
proof -
  let ?p = "to_be_bytes 2 code @ reason"
  have "to_be_bytes 2 code \<noteq> []" by (metis length_to_be_bytes list.size(3) zero_neq_numeral)
  moreover have "slice ?p 0 2 = Some (to_be_bytes 2 code)" by simp
  moreover have "drop 2 ?p = reason" by simp
  moreover have "close_code_try_from (from_be_bytes (to_be_bytes 2 code)) = Inr c"
    using assms(1) by (simp add: close_code_try_from_def)
  ultimately show ?thesis
    using assms(2) unfolding as_close_def Let_def message.simps payload.simps by (simp del: slice_Some)
qed

lemma legal_close_as_close:
  assumes "legal_close body"
  shows "\<exists>c reason. as_close (message_new Close body) = Some (Some (c, reason))"
proof (cases "body = []")
  case True
  then show ?thesis by (simp add: as_close_def message_new_def valid_utf8_def)
next
  case False
  with assms obtain code :: u16 and reason c where body: "body = to_be_bytes 2 code @ reason"
    "try_from_u16 code = Some c" "valid_utf8 reason" by (auto simp: legal_close_def)
  then show ?thesis by (simp add: message_new_def as_close_body)
qed

subsection \<open>Properties\<close>

text \<open>
  C33: Splitting a message that is longer than the frame size into frames ends exactly for a frame
  size that is not zero, which \<open>Config::frame_size\<close> enforces. It then gives frames whose payloads
  put together are the message, each of at most the frame size and none empty, the first with the
  opcode of the message and all others continuations, the last and only the last one final.
\<close>

theorem fragmentation_keeps_message:
  assumes "data (m_payload m) \<noteq> []"
  shows "(frames_fold (\<lambda>acc fr. acc @ [fr]) [] (into_frames m n) \<noteq> None \<longleftrightarrow> config_frame_size c n \<noteq> None)
    \<and> (\<forall>frs. frames_fold (\<lambda>acc fr. acc @ [fr]) [] (into_frames m n) = Some frs \<longrightarrow>
        concat (map f_payload frs) = data (m_payload m)
        \<and> (\<forall>fr \<in> set frs. f_payload fr \<noteq> [] \<and> length (f_payload fr) \<le> n)
        \<and> map f_opcode frs = m_opcode m # replicate (length frs - 1) Continuation
        \<and> map f_is_final frs = replicate (length frs - 1) False @ [True])"
proof (cases "n = 0")
  case True
  have "frames_fold (\<lambda>acc fr. acc @ [fr]) [] (into_frames m 0) = None"
  proof (cases "frames_fold (\<lambda>acc fr. acc @ [fr]) [] (into_frames m 0)")
    case (Some r)
    from frames_fold_zero [OF this] assms show ?thesis by (simp add: into_frames_def)
  qed
  then show ?thesis using True by (simp add: config_frame_size_def)
next
  case False
  have fold: "foldl (\<lambda>acc fr. acc @ [fr]) acc frs = acc @ frs" for acc frs :: "wsframe list"
    by (induction frs arbitrary: acc) simp_all
  have "frames_fold (\<lambda>acc fr. acc @ [fr]) [] (into_frames m n) = Some (frames_of n (m_opcode m) (data (m_payload m)))"
    using False by (simp add: into_frames_def frames_fold_eq fold)
  then show ?thesis
    using frames_of_shape [where n = n and op = "m_opcode m" and bs = "data (m_payload m)"] False assms
    by (simp add: config_frame_size_def)
qed

theorem fragmentation_keeps_message_witness:
  "frames_fold (\<lambda>acc fr. acc @ [fr]) [] (into_frames (message_binary (payload_from_bytes [1, 2, 3])) 2) \<noteq> None"
  using fragmentation_keeps_message [of "message_binary (payload_from_bytes [1, 2, 3])" 2 config_default]
  by (simp add: message_binary_def payload_from_bytes_def config_frame_size_def)

text \<open>
  Every close frame that the decoder delivers can be read: \<open>as_close\<close> never runs into its
  unchecked accesses or an invalid string, whatever the peer sent.
\<close>

lemma received_close_readable:
  assumes "simdutf8_lib U" and "codec_inv p src" and "payload_processed p = 0"
    and "decode U pf p src = Some (Inr (Some fr), p', rest)" and "f_opcode fr = Close"
  shows "\<exists>c reason. as_close (message_new (f_opcode fr) (f_payload fr)) = Some (Some (c, reason))"
proof -
  from simdutf8_lib.decode_wire_only [OF assms(1-4)] have "legal_payload p fr" by blast
  then show ?thesis using assms(5) legal_close_as_close by (simp add: legal_payload_def)
qed

text \<open>
  C34: \<open>Message::close\<close> panics exactly for a reserved code or a reason of more than 123 bytes;
  otherwise, for a code that a \<open>CloseCode\<close> can hold, \<open>as_close\<close> reads back the code and the
  reason, and the body is one that the peer accepts. And every close frame that the decoder delivers can be
  read: \<open>as_close\<close> never runs into its unchecked accesses or an invalid string, whatever the peer sent.
\<close>

theorem close_message_roundtrip:
  assumes "try_from_u16 code = Some c" and "valid_utf8 reason"
  shows "(message_close (Some c) reason = None \<longleftrightarrow> is_reserved c \<or> 123 < length reason)
    \<and> (\<forall>m. message_close (Some c) reason = Some m \<longrightarrow>
        as_close m = Some (Some (c, reason)) \<and> legal_close (data (m_payload m)) \<and> length (data (m_payload m)) \<le> 125)
    \<and> (\<exists>m. message_close None reason = Some m \<and> as_close m = Some (Some (NO_STATUS_RECEIVED, []))
        \<and> legal_close (data (m_payload m)))
    \<and> (simdutf8_lib U \<and> codec_inv p src \<and> payload_processed p = 0 \<and> decode U pf p src = Some (Inr (Some fr), p', rest)
        \<and> f_opcode fr = Close \<longrightarrow>
        (\<exists>c reason. as_close (message_new (f_opcode fr) (f_payload fr)) = Some (Some (c, reason))))"
proof -
  have c: "close_code_get c = code" using assms(1) by (auto simp: try_from_u16_def split: if_splits)
  have none: "as_close \<lparr>m_opcode = Close, m_payload = payload_from_bytes []\<rparr> = Some (Some (NO_STATUS_RECEIVED, []))"
    by (simp add: as_close_def payload_from_bytes_def valid_utf8_def)
  have legal: "legal_close (to_be_bytes 2 code @ reason)" if "\<not> is_reserved c"
    using assms that by (auto simp: legal_close_def)
  show ?thesis
    using c none legal as_close_body [OF assms, of False] received_close_readable
    by (auto simp: message_close_def payload_from_bytes_def legal_close_def)
qed

theorem close_message_roundtrip_witness:
  "\<exists>m. message_close (Some NORMAL_CLOSURE) [0x68, 0x69] = Some m \<and> as_close m = Some (Some (NORMAL_CLOSURE, [0x68, 0x69]))"
proof -
  have "try_from_u16 1000 = Some NORMAL_CLOSURE" "valid_utf8 [0x68, 0x69]"
    by (simp_all add: try_from_u16_def valid_utf8_def)
  from close_message_roundtrip [OF this] show ?thesis
    by (cases "message_close (Some NORMAL_CLOSURE) [0x68, 0x69]") (auto simp: is_reserved_def)
qed

text \<open>
  The library can always build the close frame that answers a protocol violation, and the peer
  accepts it: the construction never panics, and the frame is a final close frame of at most 125
  bytes whose body is legal.
\<close>

theorem protocol_error_close_frame:
  "\<exists>fr. frame_from_protocol_error e = Some fr \<and> f_opcode fr = Close \<and> f_is_final fr
    \<and> 2 \<le> length (f_payload fr) \<and> length (f_payload fr) \<le> 125 \<and> legal_close (f_payload fr)"
proof -
  have utf8: "valid_utf8 (ascii (as_str e))" "valid_utf8 (ascii ''invalid utf8'')"
    by (cases e) (simp_all add: ascii_def valid_utf8_def)
  have codes: "try_from_u16 1007 = Some INVALID_FRAME_PAYLOAD_DATA" "try_from_u16 1002 = Some PROTOCOL_ERROR"
    "\<not> is_reserved INVALID_FRAME_PAYLOAD_DATA" "\<not> is_reserved PROTOCOL_ERROR"
    by (simp_all add: try_from_u16_def is_reserved_def)
  show ?thesis
    using as_str_short [of e] codes utf8
    by (cases "e = InvalidUtf8")
      (auto simp: frame_from_protocol_error_def message_close_def frame_from_message_def payload_from_bytes_def
        legal_close_def)
qed

end
