(* ===== verification/WebSocket_Stream.thy ===== *)
theory WebSocket_Stream
  imports Codec_Wire Frame_Queue
begin

text \<open>
  \<open>WebSocketStream\<close> of \<open>src/proto/stream.rs\<close>: the state of a connection, the reading of frames
  and their assembly into messages, the sink, and the closing handshake. What the code calls
  outside the repository is the record \<open>env\<close>: the reader \<open>FramedRead\<close> and \<open>poll_write_buf\<close> of
  \<open>tokio-util\<close>, the transport's \<open>poll_flush\<close> and \<open>poll_shutdown\<close>, the random number generator
  behind \<open>rand::get_mask\<close>, and the CPU. A \<open>Waker\<close> is the task it wakes. Operations take the
  waker of the polling task and the stream and return their result with the new stream; \<open>None\<close>
  is a loop that does not end, or a panic.
\<close>

subsection \<open>State\<close>

datatype 'a poll = Ready 'a | Pending

type_synonym waker = nat

text \<open>
  \<open>FramedRead\<close>: the transport, the reader's own state \<open>'f\<close>, the decoder and the read buffer.
\<close>

record ('io, 'f) framed_read =
  io :: 'io
  reader_state :: 'f
  decoder :: websocket_protocol
  buffer :: bytes

text \<open>
  The functions the code calls outside the repository. \<open>masks i\<close> is the \<open>i\<close>-th masking key that
  \<open>get_mask\<close> draws.
\<close>

record ('io, 'f) env =
  cpu :: platform
  masks :: "nat \<Rightarrow> bytes"
  framed_poll_next ::
    "waker \<Rightarrow> ('io, 'f) framed_read \<Rightarrow> (error + wsframe) option poll \<times> ('io, 'f) framed_read"
  poll_write_buf :: "waker \<Rightarrow> 'io \<Rightarrow> frame_queue \<Rightarrow> (io_error + usize) poll \<times> 'io \<times> frame_queue"
  io_poll_flush :: "waker \<Rightarrow> 'io \<Rightarrow> (io_error + unit) poll \<times> 'io"
  io_poll_shutdown :: "waker \<Rightarrow> 'io \<Rightarrow> (io_error + unit) poll \<times> 'io"

record ('io, 'f) websocket_stream =
  inner :: "('io, 'f) framed_read"
  config :: config
  state :: stream_state
  partial_payload :: bytes
  frame_queue :: frame_queue
  flushing_waker :: "waker option"
  masks_drawn :: nat

definition from_raw_stream :: "'io \<Rightarrow> 'f \<Rightarrow> role \<Rightarrow> config \<Rightarrow> limits \<Rightarrow> ('io, 'f) websocket_stream" where
  "from_raw_stream stream f r c l =
     \<lparr>inner = \<lparr>io = stream, reader_state = f, decoder = protocol_new r l, buffer = []\<rparr>, config = c,
       state = Active, partial_payload = [], frame_queue = frame_queue_new, flushing_waker = None,
       masks_drawn = 0\<rparr>"

text \<open>\<open>from_framed\<close> keeps the transport and the bytes that the handshake has read too far.\<close>

definition from_framed ::
  "('io, 'f) framed_read \<Rightarrow> role \<Rightarrow> config \<Rightarrow> limits \<Rightarrow> ('io, 'f) websocket_stream" where
  "from_framed framed r c l =
     \<lparr>inner = framed\<lparr>decoder := protocol_new r l\<rparr>, config = c, state = Active, partial_payload = [],
       frame_queue = frame_queue_new, flushing_waker = None, masks_drawn = 0\<rparr>"

subsection \<open>Queueing frames\<close>

definition mask_frame_for_sending ::
  "('io, 'f) env \<Rightarrow> ('io, 'f) websocket_stream \<Rightarrow> wsframe \<Rightarrow> encoded_frame \<times> nat" where
  "mask_frame_for_sending E s fr =
     (let (hdr, at) = encode fr (replicate 14 0)
      in if role (decoder (inner s)) = Client
         then let key = masks E (masks_drawn s);
                  hdr1 = splice hdr at key;
                  (_, body) = mask_frame (cpu E) key (f_payload fr)
              in (\<lparr>header = hdr1[1 := hdr1 ! 1 OR push_bit 7 1], payload = body\<rparr>, masks_drawn s + 1)
         else (\<lparr>header = hdr, payload = f_payload fr\<rparr>, masks_drawn s))"

definition queue_frame ::
  "('io, 'f) env \<Rightarrow> ('io, 'f) websocket_stream \<Rightarrow> wsframe \<Rightarrow> ('io, 'f) websocket_stream" where
  "queue_frame E s fr =
     (let s1 = (if f_opcode fr = Close \<and> state s \<noteq> ClosedByPeer then s\<lparr>state := ClosedByUs\<rparr> else s);
          (item, drawn) = mask_frame_for_sending E s1 fr
      in s1\<lparr>frame_queue := push (frame_queue s1) item, masks_drawn := drawn\<rparr>)"

definition set_flushing_waker ::
  "('io, 'f) websocket_stream \<Rightarrow> waker \<Rightarrow> ('io, 'f) websocket_stream" where
  "set_flushing_waker s w =
     (if \<not> (case flushing_waker s of None \<Rightarrow> False | Some v \<Rightarrow> v = w) then s\<lparr>flushing_waker := Some w\<rparr>
      else s)"

subsection \<open>The sink\<close>

text \<open>A write or flush that failed: the stream is finished.\<close>

definition flush_failed :: "('io, 'f) websocket_stream \<Rightarrow> ('io, 'f) websocket_stream" where
  "flush_failed s = s\<lparr>flushing_waker := None, state := CloseAcknowledged\<rparr>"

definition set_io :: "('io, 'f) websocket_stream \<Rightarrow> 'io \<Rightarrow> ('io, 'f) websocket_stream" where
  "set_io s i = s\<lparr>inner := (inner s)\<lparr>io := i\<rparr>\<rparr>"

text \<open>The end of \<open>poll_flush\<close>, once the queue is empty.\<close>

definition flush_io ::
  "('io, 'f) env \<Rightarrow> waker \<Rightarrow> ('io, 'f) websocket_stream
     \<Rightarrow> (error + unit) poll \<times> ('io, 'f) websocket_stream" where
  "flush_io E w s =
     (let (r, i) = io_poll_flush E w (io (inner s)); s1 = set_io s i
      in case r of
           Ready (Inr _) \<Rightarrow> (Ready (Inr ()), s1\<lparr>flushing_waker := None\<rparr>)
         | Ready (Inl e) \<Rightarrow> (Ready (Inl (Io e)), flush_failed s1)
         | Pending \<Rightarrow> (Pending, set_flushing_waker s1 w))"

partial_function (option) poll_flush ::
  "('io, 'f) env \<Rightarrow> waker \<Rightarrow> ('io, 'f) websocket_stream
     \<Rightarrow> ((error + unit) poll \<times> ('io, 'f) websocket_stream) option" where
  "poll_flush E w s =
     (if has_remaining (frame_queue s)
      then let (r, i, fq) = poll_write_buf E w (io (inner s)) (frame_queue s);
               s1 = (set_io s i)\<lparr>frame_queue := fq\<rparr>
           in case r of
                Ready (Inl e) \<Rightarrow> Some (Ready (Inl (Io e)), flush_failed s1)
              | Pending \<Rightarrow> Some (Pending, set_flushing_waker s1 w)
              | Ready (Inr n) \<Rightarrow>
                  if n = 0 then Some (Ready (Inl (Io WriteZero)), flush_failed s1) else poll_flush E w s1
      else Some (flush_io E w s))"

definition poll_ready ::
  "('io, 'f) env \<Rightarrow> waker \<Rightarrow> ('io, 'f) websocket_stream
     \<Rightarrow> ((error + unit) poll \<times> ('io, 'f) websocket_stream) option" where
  "poll_ready E w s =
     (if flush_threshold (config s) \<le> remaining (frame_queue s) then poll_flush E w s
      else Some (Ready (Inr ()), s))"

definition start_send ::
  "('io, 'f) env \<Rightarrow> ('io, 'f) websocket_stream \<Rightarrow> message
     \<Rightarrow> ((error + unit) \<times> ('io, 'f) websocket_stream) option" where
  "start_send E s item =
     (if state s \<noteq> Active then Some (Inl AlreadyClosed, s)
      else if is_control (m_opcode item) \<or> length (data (m_payload item)) \<le> frame_size (config s)
      then Some (Inr (), queue_frame E s (frame_from_message item))
      else map_option (Pair (Inr ())) (frames_fold (queue_frame E) s (into_frames item (frame_size (config s)))))"

subsection \<open>Reading frames\<close>

text \<open>\<open>format!("{n}")\<close> for a \<open>usize\<close>.\<close>

fun show_nat :: "nat \<Rightarrow> string" where
  "show_nat n = (if n < 10 then [char_of (48 + n)] else show_nat (n div 10) @ [char_of (48 + n mod 10)])"

declare show_nat.simps [simp del]

text \<open>The close frame that answers an error of the decoder, if there is one; \<open>None\<close> panics.\<close>

definition close_for_error :: "error \<Rightarrow> wsframe option option" where
  "close_for_error e =
     (case e of
        Protocol p \<Rightarrow> map_option Some (frame_from_protocol_error p)
      | PayloadTooLong _ max_len \<Rightarrow>
          map_option (\<lambda>m. Some (frame_from_message m))
            (message_close (Some MESSAGE_TOO_BIG) (ascii (''max length: '' @ show_nat max_len)))
      | _ \<Rightarrow> Some None)"

definition on_read_error ::
  "('io, 'f) env \<Rightarrow> ('io, 'f) websocket_stream \<Rightarrow> error
     \<Rightarrow> ((error + wsframe) option poll \<times> ('io, 'f) websocket_stream) option" where
  "on_read_error E s e =
     (if (case e of Io _ \<Rightarrow> True | _ \<Rightarrow> False) \<or> state s = ClosedByUs
      then Some (Ready (Some (Inl e)), s\<lparr>state := CloseAcknowledged\<rparr>)
      else let s1 = s\<lparr>state := ClosedByPeer\<rparr>
           in case close_for_error e of
                None \<Rightarrow> None
              | Some None \<Rightarrow> Some (Ready (Some (Inl e)), s1)
              | Some (Some fr) \<Rightarrow> Some (Ready (Some (Inl e)), queue_frame E s1 fr))"

definition on_frame ::
  "('io, 'f) env \<Rightarrow> ('io, 'f) websocket_stream \<Rightarrow> wsframe \<Rightarrow> ('io, 'f) websocket_stream" where
  "on_frame E s fr =
     (if f_opcode fr = Close
      then (case state s of
              Active \<Rightarrow> queue_frame E (s\<lparr>state := ClosedByPeer\<rparr>) (fr\<lparr>f_payload := take 2 (f_payload fr)\<rparr>)
            | ClosedByUs \<Rightarrow> s\<lparr>state := CloseAcknowledged\<rparr>
            | _ \<Rightarrow> s)
      else if f_opcode fr = Ping \<and> state s = Active then queue_frame E s (fr\<lparr>f_opcode := Pong\<rparr>)
      else s)"

definition read_frame ::
  "('io, 'f) env \<Rightarrow> waker \<Rightarrow> ('io, 'f) websocket_stream
     \<Rightarrow> ((error + wsframe) option poll \<times> ('io, 'f) websocket_stream) option" where
  "read_frame E w s =
     (let (r, fr) = framed_poll_next E w (inner s); s1 = s\<lparr>inner := fr\<rparr>
      in case r of
           Pending \<Rightarrow> Some (Pending, s1)
         | Ready None \<Rightarrow> Some (Ready None, s1)
         | Ready (Some (Inl e)) \<Rightarrow> on_read_error E s1 e
         | Ready (Some (Inr f)) \<Rightarrow> Some (Ready (Some (Inr f)), on_frame E s1 f))"

definition poll_next_frame ::
  "('io, 'f) env \<Rightarrow> waker \<Rightarrow> ('io, 'f) websocket_stream
     \<Rightarrow> ((error + wsframe) option poll \<times> ('io, 'f) websocket_stream) option" where
  "poll_next_frame E w s =
     (if state s = CloseAcknowledged then Some (Ready None, s)
      else if state s = ClosedByPeer then
        (case poll_flush E w s of
           None \<Rightarrow> None
         | Some (Pending, s1) \<Rightarrow> Some (Pending, s1)
         | Some (Ready (Inl e), s1) \<Rightarrow> Some (Ready (Some (Inl e)), s1)
         | Some (Ready (Inr _), s1) \<Rightarrow> Some (Ready None, s1\<lparr>state := CloseAcknowledged\<rparr>))
      else if has_remaining (frame_queue s) then
        (case poll_flush E (case flushing_waker s of None \<Rightarrow> w | Some v \<Rightarrow> v) s of
           None \<Rightarrow> None
         | Some (Ready (Inl e), s1) \<Rightarrow> Some (Ready (Some (Inl e)), s1)
         | Some (_, s1) \<Rightarrow> read_frame E w s1)
      else read_frame E w s)"

subsection \<open>Messages, and closing\<close>

text \<open>
  What one round of the loop in \<open>poll_next\<close> does with a frame: \<open>Inl\<close> the result of the call,
  \<open>Inr\<close> the stream to go on with.
\<close>

definition assemble ::
  "usize \<Rightarrow> ('io, 'f) websocket_stream \<Rightarrow> wsframe
     \<Rightarrow> ((error + message) \<times> ('io, 'f) websocket_stream) + ('io, 'f) websocket_stream" where
  "assemble max_len s f =
     (let len = length (partial_payload s) + length (f_payload f)
      in if f_opcode f \<noteq> Continuation
         then if f_is_final f then Inl (Inr (message_new (f_opcode f) (f_payload f)), s)
              else Inr (s\<lparr>partial_payload := f_payload f\<rparr>)
         else if max_len < len then Inl (Inl (PayloadTooLong len max_len), s)
         else let s1 = s\<lparr>partial_payload := partial_payload s @ f_payload f\<rparr>
         in if f_is_final f
            then let (op, p) = take_message_opcode (decoder (inner s1))
                 in Inl (Inr (message_new op (partial_payload s1)),
                      s1\<lparr>inner := (inner s1)\<lparr>decoder := p\<rparr>, partial_payload := []\<rparr>)
            else Inr s1)"

partial_function (option) poll_next_loop ::
  "('io, 'f) env \<Rightarrow> waker \<Rightarrow> usize \<Rightarrow> ('io, 'f) websocket_stream
     \<Rightarrow> ((error + message) option poll \<times> ('io, 'f) websocket_stream) option" where
  "poll_next_loop E w max_len s =
     (case poll_next_frame E w s of
        None \<Rightarrow> None
      | Some (r, s1) \<Rightarrow>
          (case r of
             Pending \<Rightarrow> Some (Pending, s1)
           | Ready None \<Rightarrow> Some (Ready None, s1)
           | Ready (Some (Inl e)) \<Rightarrow> Some (Ready (Some (Inl e)), s1)
           | Ready (Some (Inr f)) \<Rightarrow>
               (case assemble max_len s1 f of
                  Inl (m, s2) \<Rightarrow> Some (Ready (Some m), s2)
                | Inr s2 \<Rightarrow> poll_next_loop E w max_len s2)))"

definition poll_next ::
  "('io, 'f) env \<Rightarrow> waker \<Rightarrow> ('io, 'f) websocket_stream
     \<Rightarrow> ((error + message) option poll \<times> ('io, 'f) websocket_stream) option" where
  "poll_next E w s = poll_next_loop E w (max_payload_len (limits (decoder (inner s)))) s"

definition is_terminated :: "('io, 'f) websocket_stream \<Rightarrow> bool" where
  "is_terminated s = (state s = CloseAcknowledged)"

definition size_hint :: "('io, 'f) websocket_stream \<Rightarrow> nat \<times> nat option" where
  "size_hint s = (0, if is_terminated s \<or> state s = ClosedByPeer then Some 0 else None)"

text \<open>The loop of \<open>poll_close\<close> that reads until the stream ends.\<close>

partial_function (option) close_drain ::
  "('io, 'f) env \<Rightarrow> waker \<Rightarrow> ('io, 'f) websocket_stream
     \<Rightarrow> (unit poll \<times> ('io, 'f) websocket_stream) option" where
  "close_drain E w s =
     (case poll_next E w s of
        None \<Rightarrow> None
      | Some (r, s1) \<Rightarrow>
          (case r of
             Pending \<Rightarrow> Some (Pending, s1)
           | Ready None \<Rightarrow> Some (Ready (), s1)
           | Ready (Some _) \<Rightarrow> close_drain E w s1))"

definition poll_close ::
  "('io, 'f) env \<Rightarrow> waker \<Rightarrow> ('io, 'f) websocket_stream
     \<Rightarrow> ((error + unit) poll \<times> ('io, 'f) websocket_stream) option" where
  "poll_close E w s =
     (case close_drain E w (if state s = Active then queue_frame E s DEFAULT_CLOSE else s) of
        None \<Rightarrow> None
      | Some (Pending, s1) \<Rightarrow> Some (Pending, s1)
      | Some (Ready _, s1) \<Rightarrow>
          (case poll_flush E w s1 of
             None \<Rightarrow> None
           | Some (Pending, s2) \<Rightarrow> Some (Pending, s2)
           | Some (Ready (Inl e), s2) \<Rightarrow> Some (Ready (Inl e), s2)
           | Some (Ready (Inr _), s2) \<Rightarrow>
               let (r, i) = io_poll_shutdown E w (io (inner s2)); s3 = set_io s2 i
               in Some (case r of
                     Pending \<Rightarrow> (Pending, s3)
                   | Ready (Inl e) \<Rightarrow> (Ready (Inl (Io e)), s3)
                   | Ready (Inr _) \<Rightarrow> (Ready (Inr ()), s3))))"

end
