(* ===== verification/Stream_Loops.thy ===== *)
theory Stream_Loops
  imports WebSocket_Stream
begin

text \<open>
  Induction rules for the three loops of the stream, which are \<open>partial_function\<close>s: one for the writes of
  \<open>poll_flush\<close>, one for the frames of \<open>poll_next\<close>, one for the messages that \<open>poll_close\<close> discards.
\<close>

text \<open>
  Induction over the rounds of the loop in \<open>poll_flush\<close>: a property that every write keeps, and that
  gives the conclusion where the loop stops.
\<close>

lemma poll_flush_rounds:
  assumes "poll_flush E w s = Some (r, s')" and "J s"
    and flushed: "\<And>s. J s \<Longrightarrow> \<not> has_remaining (frame_queue s) \<Longrightarrow> Q (fst (flush_io E w s)) (snd (flush_io E w s))"
    and failed: "\<And>s e i fq. J s \<Longrightarrow> has_remaining (frame_queue s) \<Longrightarrow>
      poll_write_buf E w (io (inner s)) (frame_queue s) = (Ready (Inl e), i, fq) \<Longrightarrow>
      Q (Ready (Inl (Io e))) (flush_failed ((set_io s i)\<lparr>frame_queue := fq\<rparr>))"
    and none: "\<And>s i fq. J s \<Longrightarrow> has_remaining (frame_queue s) \<Longrightarrow>
      poll_write_buf E w (io (inner s)) (frame_queue s) = (Ready (Inr 0), i, fq) \<Longrightarrow>
      Q (Ready (Inl (Io WriteZero))) (flush_failed ((set_io s i)\<lparr>frame_queue := fq\<rparr>))"
    and waits: "\<And>s i fq. J s \<Longrightarrow> has_remaining (frame_queue s) \<Longrightarrow>
      poll_write_buf E w (io (inner s)) (frame_queue s) = (Pending, i, fq) \<Longrightarrow>
      Q Pending (set_flushing_waker ((set_io s i)\<lparr>frame_queue := fq\<rparr>) w)"
    and round: "\<And>s n i fq. J s \<Longrightarrow> has_remaining (frame_queue s) \<Longrightarrow>
      poll_write_buf E w (io (inner s)) (frame_queue s) = (Ready (Inr n), i, fq) \<Longrightarrow> n \<noteq> 0 \<Longrightarrow>
      J ((set_io s i)\<lparr>frame_queue := fq\<rparr>)"
  shows "Q r s'"
proof -
  let ?P = "\<lambda>E' w' s y. E' = E \<longrightarrow> w' = w \<longrightarrow> J s \<longrightarrow> Q (fst y) (snd y)"
  have "?P E w s (r, s')"
  proof (rule poll_flush.raw_induct [where P = ?P, OF _ assms(1)], intro impI)
    fix loop :: "('a, 'b) env \<Rightarrow> waker \<Rightarrow> ('a, 'b) websocket_stream \<Rightarrow>
        ((error + unit) poll \<times> ('a, 'b) websocket_stream) option" and E' w' s y
    assume IH: "\<And>E' w' s y. loop E' w' s = Some y \<Longrightarrow> ?P E' w' s y"
      and step: "(if has_remaining (frame_queue s)
        then let (r, i, fq) = poll_write_buf E' w' (io (inner s)) (frame_queue s); s1 = (set_io s i)\<lparr>frame_queue := fq\<rparr>
           in case r of
                Ready (Inl e) \<Rightarrow> Some (Ready (Inl (Io e)), flush_failed s1)
              | Pending \<Rightarrow> Some (Pending, set_flushing_waker s1 w')
              | Ready (Inr n) \<Rightarrow>
                  if n = 0 then Some (Ready (Inl (Io WriteZero)), flush_failed s1) else loop E' w' s1
        else Some (flush_io E' w' s)) = Some y"
      and eqs: "E' = E" "w' = w" and J: "J s"
    show "Q (fst y) (snd y)"
    proof (cases "has_remaining (frame_queue s)")
      case False
      then show ?thesis using step flushed [OF J] unfolding eqs by auto
    next
      case True
      obtain x i fq where wb: "poll_write_buf E w (io (inner s)) (frame_queue s) = (x, i, fq)"
        by (cases "poll_write_buf E w (io (inner s)) (frame_queue s)")
      let ?s1 = "(set_io s i)\<lparr>frame_queue := fq\<rparr>"
      consider (fail) e where "x = Ready (Inl e)" | (zero) "x = Ready (Inr 0)" | (pend) "x = Pending"
        | (some) n where "x = Ready (Inr n)" "n \<noteq> 0"
        by (cases x) (metis sum.exhaust, simp)
      then show ?thesis
      proof cases
        case fail
        then show ?thesis using step True wb failed [OF J True, of e i fq] unfolding eqs by auto
      next
        case zero
        then show ?thesis using step True wb none [OF J True, of i fq] unfolding eqs by auto
      next
        case pend
        then show ?thesis using step True wb waits [OF J True, of i fq] unfolding eqs by auto
      next
        case some
        then have "loop E w ?s1 = Some y" using step True wb unfolding eqs by (simp add: Let_def)
        with IH [OF this] round [OF J True wb [unfolded some(1)] some(2)] show ?thesis by blast
      qed
    qed
  qed
  then show ?thesis using assms(2) by simp
qed

text \<open>
  Induction over the rounds of the loop in \<open>poll_next\<close>: a property that every round keeps, and
  that gives the conclusion where the loop stops.
\<close>

lemma poll_next_loop_rounds:
  assumes "poll_next_loop E w m s = Some (r, s')" and "J s"
    and stop: "\<And>s r s1. J s \<Longrightarrow> poll_next_frame E w s = Some (r, s1) \<Longrightarrow> \<forall>f. r \<noteq> Ready (Some (Inr f)) \<Longrightarrow>
      Q (case r of Pending \<Rightarrow> Pending | Ready None \<Rightarrow> Ready None | Ready (Some (Inl e)) \<Rightarrow> Ready (Some (Inl e))) s1"
    and message: "\<And>s f s1 x s2. J s \<Longrightarrow> poll_next_frame E w s = Some (Ready (Some (Inr f)), s1) \<Longrightarrow>
      assemble m s1 f = Inl (x, s2) \<Longrightarrow> Q (Ready (Some x)) s2"
    and round: "\<And>s f s1 s2. J s \<Longrightarrow> poll_next_frame E w s = Some (Ready (Some (Inr f)), s1) \<Longrightarrow>
      assemble m s1 f = Inr s2 \<Longrightarrow> J s2"
  shows "Q r s'"
proof -
  have "E = E \<longrightarrow> w = w \<longrightarrow> m = m \<longrightarrow> J s \<longrightarrow> Q (fst (r, s')) (snd (r, s'))"
  proof (rule poll_next_loop.raw_induct
      [where P = "\<lambda>E' w' m' s y. E' = E \<longrightarrow> w' = w \<longrightarrow> m' = m \<longrightarrow> J s \<longrightarrow> Q (fst y) (snd y)", OF _ assms(1)],
      intro impI)
    fix loop :: "('a, 'b) env \<Rightarrow> waker \<Rightarrow> usize \<Rightarrow> ('a, 'b) websocket_stream \<Rightarrow>
      ((error + message) option poll \<times> ('a, 'b) websocket_stream) option" and E' w' m' s y
    assume IH: "\<And>E' w' m' s y. loop E' w' m' s = Some y \<Longrightarrow>
        E' = E \<longrightarrow> w' = w \<longrightarrow> m' = m \<longrightarrow> J s \<longrightarrow> Q (fst y) (snd y)"
      and step: "(case poll_next_frame E' w' s of
        None \<Rightarrow> None
      | Some (r, s1) \<Rightarrow>
          (case r of
             Pending \<Rightarrow> Some (Pending, s1)
           | Ready None \<Rightarrow> Some (Ready None, s1)
           | Ready (Some (Inl e)) \<Rightarrow> Some (Ready (Some (Inl e)), s1)
           | Ready (Some (Inr f)) \<Rightarrow>
               (case assemble m' s1 f of
                  Inl (m, s2) \<Rightarrow> Some (Ready (Some m), s2)
                | Inr s2 \<Rightarrow> loop E' w' m' s2))) = Some y"
      and eqs: "E' = E" "w' = w" "m' = m" and J: "J s"
    from step obtain r s1 where r: "poll_next_frame E w s = Some (r, s1)"
      unfolding eqs by (auto split: option.splits)
    show "Q (fst y) (snd y)"
    proof (cases "\<exists>f. r = Ready (Some (Inr f))")
      case False
      then show ?thesis using step stop [OF J r] unfolding eqs r by (auto split: poll.splits option.splits sum.splits)
    next
      case True
      then obtain f where f: "r = Ready (Some (Inr f))" by blast
      show ?thesis
      proof (cases "assemble m s1 f")
        case (Inl ms)
        then show ?thesis using step message [OF J r [unfolded f]] unfolding eqs r f by (cases ms) auto
      next
        case (Inr s2)
        then have "loop E w m s2 = Some y" using step unfolding eqs r f by simp
        with IH [OF this] round [OF J r [unfolded f] Inr] show ?thesis by simp
      qed
    qed
  qed
  then show ?thesis using assms(2) by simp
qed

text \<open>The same for the loop of \<open>poll_close\<close>.\<close>

lemma close_drain_rounds:
  assumes "close_drain E w s = Some (r, s')" and "J s"
    and stop: "\<And>s r s1. J s \<Longrightarrow> poll_next E w s = Some (r, s1) \<Longrightarrow> \<forall>x. r \<noteq> Ready (Some x) \<Longrightarrow>
      Q (case r of Pending \<Rightarrow> Pending | Ready _ \<Rightarrow> Ready ()) s1"
    and round: "\<And>s x s1. J s \<Longrightarrow> poll_next E w s = Some (Ready (Some x), s1) \<Longrightarrow> J s1"
  shows "Q r s'"
proof -
  let ?P = "\<lambda>E' w' s y. E' = E \<longrightarrow> w' = w \<longrightarrow> J s \<longrightarrow> Q (fst y) (snd y)"
  have "?P E w s (r, s')"
  proof (rule close_drain.raw_induct [where P = ?P, OF _ assms(1)], intro impI)
    fix loop :: "('a, 'b) env \<Rightarrow> waker \<Rightarrow> ('a, 'b) websocket_stream \<Rightarrow> (unit poll \<times> ('a, 'b) websocket_stream) option"
      and E' w' s y
    assume IH: "\<And>E' w' s y. loop E' w' s = Some y \<Longrightarrow> ?P E' w' s y"
      and step: "(case poll_next E' w' s of
        None \<Rightarrow> None
      | Some (r, s1) \<Rightarrow>
          (case r of
             Pending \<Rightarrow> Some (Pending, s1)
           | Ready None \<Rightarrow> Some (Ready (), s1)
           | Ready (Some _) \<Rightarrow> loop E' w' s1)) = Some y"
      and eqs: "E' = E" "w' = w" and J: "J s"
    from step obtain x s1 where x: "poll_next E w s = Some (x, s1)" unfolding eqs by (auto split: option.splits)
    show "Q (fst y) (snd y)"
    proof (cases "\<exists>z. x = Ready (Some z)")
      case True
      then have "loop E w s1 = Some y" "J s1" using step round [OF J] x unfolding eqs by auto
      with IH show ?thesis by blast
    next
      case False
      then show ?thesis using step stop [OF J x] x unfolding eqs by (auto split: poll.splits option.splits)
    qed
  qed
  then show ?thesis using assms(2) by simp
qed

end
