(* ===== verification/Stream_Output.thy ===== *)
theory Stream_Output
  imports Stream_Loops Messages
begin

text \<open>
  The sending side of the stream: a queued frame is its wire format, the transport receives the
  queued bytes in order, flushing ends, and what is queued respects the closing handshake.
\<close>

subsection \<open>A queued frame is its encoding\<close>

lemma splice_replicate:
  "n = length xs \<Longrightarrow> splice (xs @ replicate k c) n ys = xs @ ys @ replicate (k - length ys) c"
  by (simp add: splice_def)

lemma encode_shape:
  fixes fr :: wsframe
  defines "n \<equiv> length (f_payload fr)"
  shows "encode fr (replicate 14 0) =
    ([push_bit 7 (of_bool (f_is_final fr)) OR opcode_to_u8 (f_opcode fr), of_nat (len7 n)] @ ext_len n
       @ replicate (12 - length (ext_len n)) 0, 2 + length (ext_len n))"
proof -
  have zeros: "replicate 14 0 = (0 :: byte) # 0 # replicate 12 0" by (simp add: numeral_eq_Suc)
  have splice: "splice (a # b # replicate 12 0) 2 ys = a # b # ys @ replicate (12 - length ys) 0"
    if "length ys \<le> 12" for a b :: byte and ys
    using that by (simp add: splice_def)
  consider "n \<le> 125" | "125 < n" "n < 2 ^ 16" | "2 ^ 16 \<le> n" by linarith
  then show ?thesis
    unfolding encode_def Let_def zeros n_def [symmetric]
    by cases (simp_all add: len7_def ext_len_def splice)
qed

lemma header_len_wire:
  assumes "header ef = wire_head fi op m n @ rest"
  shows "header_len ef = length (wire_head fi op m n) + (if m then 4 else 0)" and "is_masked ef = m"
proof -
  have second: "header ef ! 1 = push_bit 7 (of_bool m) OR of_nat (len7 n)"
    using assms by (simp add: wire_head_def)
  show masked: "is_masked ef = m" unfolding is_masked_def second by (rule second_byte(2))
  have "unat (header ef ! 1 AND 127) = len7 n" unfolding second by (rule second_byte(1))
  then have "header ef ! 1 AND 127 = 127 \<longleftrightarrow> len7 n = 127" "header ef ! 1 AND 127 = 126 \<longleftrightarrow> len7 n = 126"
    by (simp_all add: word_unat_eq_iff)
  then show "header_len ef = length (wire_head fi op m n) + (if m then 4 else 0)"
    by (simp add: header_len_def masked wire_head_def length_ext_len len7_def Let_def)
qed

text \<open>The key a stream masks its next frame with; the empty one for a server.\<close>

definition next_key :: "('io, 'f) env \<Rightarrow> ('io, 'f) websocket_stream \<Rightarrow> bytes" where
  "next_key E s = (if role (decoder (inner s)) = Client then masks E (masks_drawn s) else [])"

lemma mask_frame_for_sending_wire:
  assumes keys: "\<And>i. length (masks E i) = 4"
  shows "\<exists>ef. mask_frame_for_sending E s fr = (ef, if role (decoder (inner s)) = Client then masks_drawn s + 1 else masks_drawn s)
    \<and> length (header ef) = 14 \<and> frame_bytes ef = wire_frame (next_key E s) fr"
proof -
  let ?n = "length (f_payload fr)" let ?e = "ext_len ?n"
  let ?b0 = "push_bit 7 (of_bool (f_is_final fr)) OR opcode_to_u8 (f_opcode fr)" let ?b1 = "of_nat (len7 ?n) :: byte"
  have e: "length ?e \<le> 8" by (simp add: length_ext_len)
  show ?thesis
  proof (cases "role (decoder (inner s))")
    case Client
    let ?key = "masks E (masks_drawn s)"
    let ?ef = "\<lparr>header = [?b0, ?b1 OR push_bit 7 1] @ ?e @ ?key @ replicate (8 - length ?e) 0,
      payload = mask_bytes ?key (f_payload fr)\<rparr>"
    have "12 - length ?e - 4 = 8 - length ?e" by simp
    then have "splice ([?b0, ?b1] @ ?e @ replicate (12 - length ?e) 0) (2 + length ?e) ?key
        = [?b0, ?b1] @ ?e @ ?key @ replicate (8 - length ?e) 0"
      using splice_replicate [of "2 + length ?e" "[?b0, ?b1] @ ?e" "12 - length ?e" 0 ?key] keys by simp
    then have eq: "mask_frame_for_sending E s fr = (?ef, masks_drawn s + 1)"
      using Client keys by (simp add: mask_frame_for_sending_def Let_def encode_shape mask.masker_eq)
    have h: "header ?ef = wire_head (f_is_final fr) (f_opcode fr) True ?n @ ?key @ replicate (8 - length ?e) 0"
      by (simp add: wire_head_def or.commute)
    have "?key \<noteq> []" using keys by (metis list.size(3) zero_neq_numeral)
    then have "frame_bytes ?ef = wire_frame (next_key E s) fr"
      using Client keys unfolding frame_bytes_def header_len_wire(1) [OF h] h
      by (simp add: wire_frame_def next_key_def mask_if_def)
    then show ?thesis using eq Client keys e by simp
  next
    case Server
    let ?ef = "\<lparr>header = [?b0, ?b1] @ ?e @ replicate (12 - length ?e) 0, payload = f_payload fr\<rparr>"
    have eq: "mask_frame_for_sending E s fr = (?ef, masks_drawn s)"
      using Server by (simp add: mask_frame_for_sending_def encode_shape)
    have h: "header ?ef = wire_head (f_is_final fr) (f_opcode fr) False ?n @ replicate (12 - length ?e) 0"
      by (simp add: wire_head_def)
    have "frame_bytes ?ef = wire_frame (next_key E s) fr"
      using Server unfolding frame_bytes_def header_len_wire(1) [OF h] h
      by (simp add: wire_frame_def next_key_def mask_if_def)
    then show ?thesis using eq Server e by simp
  qed
qed

subsection \<open>What the stream relies on\<close>

text \<open>
  \<open>read_result\<close>: what \<open>FramedRead\<close> documents of \<open>poll_next\<close>. It appends what it reads to the
  buffer and calls the decoder until it answers; without an answer it is pending, at the end of
  the input it ends, and an I/O error is passed on.
\<close>

definition read_result ::
  "simdutf8 \<Rightarrow> platform \<Rightarrow> ('io, 'f) framed_read \<Rightarrow> (error + wsframe) option poll \<Rightarrow> ('io, 'f) framed_read \<Rightarrow> bool" where
  "read_result U pf fr r fr' \<longleftrightarrow> (\<exists>cs d.
     decode_reads U pf (decoder fr) (buffer fr) cs = Some (d, decoder fr', buffer fr') \<and>
     (case r of
        Pending \<Rightarrow> d = Inr None
      | Ready None \<Rightarrow> d = Inr None
      | Ready (Some (Inr f)) \<Rightarrow> d = Inr (Some f)
      | Ready (Some (Inl e)) \<Rightarrow> d = Inl e \<or> (d = Inr None \<and> (\<exists>x. e = Io x))))"

text \<open>
  The documented behaviour of the functions in \<open>env\<close>, for the bytes \<open>written\<close> that the transport
  has accepted: \<open>poll_write_buf\<close> writes a prefix of what the buffer holds and advances the buffer
  by it, or leaves both alone; nothing else writes; a mask has four bytes; and \<open>read_result\<close>.
\<close>

locale transport = simdutf8_lib U for U :: simdutf8 +
  fixes E :: "('io, 'f) env" and written :: "'io \<Rightarrow> bytes"
  assumes key_length: "length (masks E k) = 4"
    and write_ready: "fq_inv fq \<Longrightarrow> poll_write_buf E w i fq = (Ready (Inr n), i', fq') \<Longrightarrow>
      n \<le> remaining fq \<and> advance fq n = Some fq' \<and> written i' = written i @ take n (contents fq)"
    and write_other: "fq_inv fq \<Longrightarrow> poll_write_buf E w i fq = (r, i', fq') \<Longrightarrow> r = Pending \<or> (\<exists>e. r = Ready (Inl e))
      \<Longrightarrow> fq' = fq \<and> written i' = written i"
    and flush_written: "written (snd (io_poll_flush E w i)) = written i"
    and shutdown_written: "written (snd (io_poll_shutdown E w i)) = written i"
    and read: "codec_inv (decoder fr) (buffer fr) \<Longrightarrow> framed_poll_next E w fr = (rd, fr') \<Longrightarrow>
      read_result U (cpu E) fr rd fr' \<and> written (io fr') = written (io fr)"

subsection \<open>Flushing\<close>

text \<open>Everything that was or will be written: what the transport has accepted, and the queue.\<close>

definition outgoing :: "('io \<Rightarrow> bytes) \<Rightarrow> ('io, 'f) websocket_stream \<Rightarrow> bytes" where
  "outgoing written s = written (io (inner s)) @ contents (frame_queue s)"

text \<open>The parts of the stream that flushing does not touch.\<close>

definition same_besides_io :: "('io, 'f) websocket_stream \<Rightarrow> ('io, 'f) websocket_stream \<Rightarrow> bool" where
  "same_besides_io s s' \<longleftrightarrow> decoder (inner s') = decoder (inner s) \<and> buffer (inner s') = buffer (inner s)
     \<and> reader_state (inner s') = reader_state (inner s) \<and> config s' = config s
     \<and> partial_payload s' = partial_payload s \<and> masks_drawn s' = masks_drawn s"

definition flush_post ::
  "('io \<Rightarrow> bytes) \<Rightarrow> waker \<Rightarrow> ('io, 'f) websocket_stream \<Rightarrow> (error + unit) poll \<Rightarrow> ('io, 'f) websocket_stream \<Rightarrow> bool" where
  "flush_post written w s r s' \<longleftrightarrow> fq_inv (frame_queue s') \<and> outgoing written s' = outgoing written s
     \<and> same_besides_io s s'
     \<and> (case r of
          Ready (Inr _) \<Rightarrow> contents (frame_queue s') = [] \<and> state s' = state s \<and> flushing_waker s' = None
        | Ready (Inl e) \<Rightarrow> state s' = CloseAcknowledged \<and> flushing_waker s' = None \<and> (\<exists>x. e = Io x)
        | Pending \<Rightarrow> state s' = state s \<and> flushing_waker s' = Some w)"

lemma set_flushing_waker_eq: "set_flushing_waker s w = s\<lparr>flushing_waker := Some w\<rparr>"
  by (auto simp: set_flushing_waker_def split: option.splits)

lemma has_remaining_iff: "fq_inv fq \<Longrightarrow> has_remaining fq \<longleftrightarrow> contents fq \<noteq> []"
  by (simp add: has_remaining_def fq.rem_eq)

context transport
begin

lemma flush_io_post:
  assumes "fq_inv (frame_queue s)" and "contents (frame_queue s) = []"
  shows "flush_post written w s (fst (flush_io E w s)) (snd (flush_io E w s))"
proof -
  obtain r i where ri: "io_poll_flush E w (io (inner s)) = (r, i)" by fastforce
  then have w: "written i = written (io (inner s))" using flush_written [of w "io (inner s)"] by simp
  note defs = flush_io_def Let_def flush_post_def outgoing_def same_besides_io_def set_io_def flush_failed_def
    set_flushing_waker_eq
  show ?thesis
  proof (cases r)
    case (Ready x)
    then show ?thesis using assms ri w by (cases x) (simp_all add: defs)
  qed (use assms ri w in \<open>simp add: defs\<close>)
qed

theorem poll_flush_total:
  assumes "fq_inv (frame_queue s)"
  shows "\<exists>r s'. poll_flush E w s = Some (r, s') \<and> flush_post written w s r s'"
  using assms
proof (induction "length (contents (frame_queue s))" arbitrary: s rule: less_induct)
  case less
  note inv = less.prems
  show ?case
  proof (cases "contents (frame_queue s) = []")
    case True
    then show ?thesis using flush_io_post [OF inv True, of w] has_remaining_iff [OF inv]
      by (subst poll_flush.simps) (simp add: prod_eq_iff)
  next
    case False
    obtain r i fq where w: "poll_write_buf E w (io (inner s)) (frame_queue s) = (r, i, fq)"
      by (cases "poll_write_buf E w (io (inner s)) (frame_queue s)")
    let ?s1 = "(set_io s i)\<lparr>frame_queue := fq\<rparr>"
    have step: "poll_flush E w s = (case r of
        Ready (Inl e) \<Rightarrow> Some (Ready (Inl (Io e)), flush_failed ?s1)
      | Pending \<Rightarrow> Some (Pending, set_flushing_waker ?s1 w)
      | Ready (Inr n) \<Rightarrow> if n = 0 then Some (Ready (Inl (Io WriteZero)), flush_failed ?s1) else poll_flush E w ?s1)"
      using False has_remaining_iff [OF inv] w by (subst poll_flush.simps) (simp add: Let_def)
    have stuck: ?thesis if "r = Pending \<or> (\<exists>e. r = Ready (Inl e))"
      using write_other [OF inv w that] that inv unfolding step
      by (auto simp: flush_post_def outgoing_def same_besides_io_def set_io_def flush_failed_def set_flushing_waker_eq)
    show ?thesis
    proof (cases "\<exists>n. r = Ready (Inr n)")
      case True
      then obtain n where r: "r = Ready (Inr n)" by blast
      from write_ready [OF inv w [unfolded r]] have n: "n \<le> length (contents (frame_queue s))"
        "advance (frame_queue s) n = Some fq" "written i = written (io (inner s)) @ take n (contents (frame_queue s))"
        using fq.rem_eq [OF inv] by simp_all
      from fq.adv_drop [OF inv n(1)] n(2) have fq: "fq_inv fq" "contents fq = drop n (contents (frame_queue s))" by auto
      have out: "outgoing written ?s1 = outgoing written s" using n(3) fq(2) by (simp add: outgoing_def set_io_def)
      show ?thesis
      proof (cases "n = 0")
        case True
        then show ?thesis using fq(1) out unfolding step r
          by (simp add: flush_post_def outgoing_def same_besides_io_def set_io_def flush_failed_def)
      next
        case n0: False
        have "length (contents (frame_queue ?s1)) < length (contents (frame_queue s))"
          using fq(2) n0 False n(1) by simp
        from less.hyps [OF this] fq(1) obtain r' s' where
          "poll_flush E w ?s1 = Some (r', s')" "flush_post written w ?s1 r' s'" by auto
        then show ?thesis using out n0 unfolding step r
          by (auto simp: flush_post_def same_besides_io_def set_io_def split: poll.splits sum.splits)
      qed
    next
      case not_ready: False
      then have "r = Pending \<or> (\<exists>e. r = Ready (Inl e))" by (cases r) (metis old.sum.exhaust, simp)
      then show ?thesis by (rule stuck)
    qed
  qed
qed

end

subsection \<open>What the decoder can do to the stream\<close>

lemma decode_head_error:
  assumes "decode_head p src = Inl e"
  shows "(\<exists>q. e = Protocol q) \<or> (\<exists>l. e = PayloadTooLong l (max_payload_len (limits p)))"
proof -
  have first: "decode_first p x y = Inl e \<Longrightarrow> \<exists>q. e = Protocol q" for x y
    by (auto simp: decode_first_def Let_def split: if_splits sum.splits)
  have len: "decode_length op y src = Inl e \<Longrightarrow> \<exists>q. e = Protocol q" for op y
    by (auto simp: decode_length_def Let_def split: if_splits option.splits)
  show ?thesis using assms
    by (auto simp: decode_head_def Let_def split: option.splits sum.splits prod.splits if_splits dest: first len)
qed

lemma decode_unmasked_error:
  assumes "decode_unmasked U p src h avail pay = Some (Inl e, p', src')"
  shows "\<exists>q. e = Protocol q"
proof -
  have close: "check_close U h src = Some (Inl e) \<Longrightarrow> \<exists>q. e = Protocol q"
    by (auto simp: check_close_def split: option.splits sum.splits if_splits)
  have finish: "decode_finish q src h \<noteq> Some (Inl e, p', src')" for q
    by (simp add: decode_finish_def split: option.split)
  show ?thesis using assms close finish unfolding decode_unmasked_def Let_def
    by (auto split: option.splits sum.splits if_splits prod.splits)
qed

lemma decode_error:
  assumes "decode U pf p src = Some (Inl e, p', src')"
  shows "(\<exists>q. e = Protocol q) \<or> (\<exists>l. e = PayloadTooLong l (max_payload_len (limits p)))"
proof (cases "decode_head p src")
  case (Inl e')
  then show ?thesis using assms decode_head_error [OF Inl] by (simp add: decode_def)
next
  case (Inr ho)
  have finish: "decode_finish p src h \<noteq> Some (Inl e, p', src')" for h
    by (simp add: decode_finish_def split: option.split)
  show ?thesis using assms Inr finish decode_unmasked_error
    by (auto simp: decode_def decode_payload_def Let_def split: option.splits if_splits prod.splits)
qed

lemma decode_frame_opcode:
  assumes "decode U pf p src = Some (Inr (Some f), p', src')"
  shows "\<exists>h. decode_head p src = Inr (Some h) \<and> f_opcode f = opcode h"
proof -
  have finish: "f_opcode f = opcode h" if "decode_finish q src1 h = Some (Inr (Some f), p', src')" for q src1 h
    using that by (auto simp: decode_finish_def split: option.splits)
  have "f_opcode f = opcode h" if "decode_unmasked U p src1 h avail pay = Some (Inr (Some f), p', src')" for src1 h avail pay
    using that by (auto simp: decode_unmasked_def Let_def intro: finish split: option.splits sum.splits prod.splits if_splits)
  then show ?thesis using assms finish
    by (auto simp: decode_def decode_payload_def Let_def split: sum.splits option.splits if_splits)
qed

text \<open>A control frame that any peer accepts.\<close>

definition legal_control :: "wsframe \<Rightarrow> bool" where
  "legal_control f \<longleftrightarrow> is_control (f_opcode f) \<and> f_is_final f \<and> length (f_payload f) \<le> 125
     \<and> (f_opcode f = Close \<longrightarrow> legal_close (f_payload f))"

lemma legal_close_length: "legal_close body \<Longrightarrow> length body \<noteq> 1"
  by (auto simp: legal_close_def)

context simdutf8_lib
begin

lemma decode_control:
  assumes inv: "codec_inv p src" and dec: "decode U pf p src = Some (Inr (Some f), p', src')"
    and ctl: "is_control (f_opcode f)"
  shows "legal_control f"
proof -
  from decode_frame_opcode [OF dec] obtain h where h: "decode_head p src = Inr (Some h)" "f_opcode f = opcode h" by blast
  have "payload_processed p = 0" using inv h ctl by (auto simp: codec_inv_def is_text_def)
  from decode_wire_only [OF inv this dec] ctl show ?thesis
    by (auto simp: legal_control_def legal_head_def legal_payload_def)
qed

lemma decode_reads_control:
  assumes inv: "codec_inv p src" and dec: "decode_reads U pf p src cs = Some (Inr (Some f), p', src')"
    and ctl: "is_control (f_opcode f)"
  shows "legal_control f"
proof -
  from decode_reads_sim [OF inv, of pf cs] dec obtain p1 src1 where
    "decode U pf p (src @ concat cs) = Some (Inr (Some f), p1, src1)" by (auto elim: result_sim.cases)
  then show ?thesis using codec_inv_append [OF inv] ctl by (blast intro: decode_control)
qed

text \<open>One or more calls of the decoder with reads between them.\<close>

lemma decode_reads_post:
  assumes "codec_inv p src" and "decode_reads U pf p src cs = Some (d, p', src')"
  shows "role p' = role p" and "limits p' = limits p" and "\<not> isl d \<Longrightarrow> codec_inv p' src'"
    and "d = Inl e \<Longrightarrow> (\<exists>q. e = Protocol q) \<or> (\<exists>l. e = PayloadTooLong l (max_payload_len (limits p)))"
    and "d = Inr (Some f) \<Longrightarrow> payload_processed p' = 0"
  using assms
proof (atomize (full), induction cs arbitrary: p src)
  case Nil
  from decode_total [OF Nil(1), of pf] Nil(2) have post: "validator_inv (validator p')" "role p' = role p"
    "limits p' = limits p" "d = Inr None \<Longrightarrow> codec_inv p' src'" "\<And>f. d = Inr (Some f) \<Longrightarrow> payload_processed p' = 0"
    by (auto simp: decode_post_def)
  have "codec_inv p' src'" if "\<not> isl d"
    using that post by (cases d; cases "projr d") (auto intro: codec_inv_fresh)
  moreover have "(\<exists>q. e = Protocol q) \<or> (\<exists>l. e = PayloadTooLong l (max_payload_len (limits p)))" if "d = Inl e"
    using Nil(2) that by (intro decode_error) simp
  ultimately show ?case using post(2,3) post(5) [of f] by (intro conjI impI) simp_all
next
  case (Cons c cs)
  from decode_total [OF Cons.prems(1), of pf] obtain r p1 src1 where
    r: "decode U pf p src = Some (r, p1, src1)" and post: "validator_inv (validator p1)" "role p1 = role p"
    "limits p1 = limits p" "r = Inr None \<Longrightarrow> codec_inv p1 src1" "\<And>f. r = Inr (Some f) \<Longrightarrow> payload_processed p1 = 0"
    by (auto simp: decode_post_def)
  show ?case
  proof (cases "r = Inr None")
    case True
    have "codec_inv p1 (src1 @ c)" using post(4) [OF True] by (rule codec_inv_append)
    moreover have "decode_reads U pf p1 (src1 @ c) cs = Some (d, p', src')" using Cons.prems(2) r True by simp
    ultimately show ?thesis using Cons.IH post(2,3) by metis
  next
    case False
    have "decode_reads U pf p src (c # cs) = Some (r, p1, src1 @ concat (c # cs))"
      using r False by (cases r; cases "projr r") auto
    then have eqs: "d = r" "p' = p1" "src' = src1 @ concat (c # cs)" using Cons.prems(2) by simp_all
    have "codec_inv p' src'" if "\<not> isl d"
      using that post False eqs by (cases r; cases "projr r") (auto intro: codec_inv_fresh)
    moreover have "(\<exists>q. e = Protocol q) \<or> (\<exists>l. e = PayloadTooLong l (max_payload_len (limits p)))" if "d = Inl e"
      using r that eqs by (intro decode_error) simp
    ultimately show ?thesis using post(2,3) post(5) [of f] eqs(1,2) by (intro conjI impI) simp_all
  qed
qed

end

subsection \<open>The close frame that answers an error\<close>

lemma length_show_nat: "n < 10 ^ k \<Longrightarrow> 0 < k \<Longrightarrow> length (show_nat n) \<le> k"
proof (induction n arbitrary: k rule: show_nat.induct)
  case (1 n)
  show ?case
  proof (cases "n < 10")
    case True
    then show ?thesis using 1(3) by (subst show_nat.simps) simp
  next
    case False
    obtain j where k: "k = Suc j" using 1(3) by (cases k) auto
    have "0 < j" using False 1(2) k by (cases j) auto
    moreover have "n div 10 < 10 ^ j" using 1(2) k by (simp add: less_mult_imp_div_less mult.commute)
    ultimately have "length (show_nat (n div 10)) \<le> j" using 1(1) False by blast
    then show ?thesis using False k by (subst show_nat.simps) simp
  qed
qed

lemma length_show_usize: "n \<le> usize_MAX \<Longrightarrow> length (show_nat n) \<le> 20"
  by (rule length_show_nat) simp_all

lemma valid_utf8_ascii_bytes: "\<forall>b \<in> set bs. b \<le> 0x7F \<Longrightarrow> valid_utf8 bs"
  by (induction bs) (auto simp: valid_utf8_def)

lemma show_nat_digits: "set (show_nat n) \<subseteq> (\<lambda>k. char_of (48 + k)) ` {..< 10 :: nat}"
proof (induction n rule: show_nat.induct)
  case (1 n)
  then show ?case by (subst show_nat.simps) auto
qed

lemma ascii_show_nat: "b \<in> set (ascii (show_nat n)) \<Longrightarrow> b \<le> 0x7F"
proof -
  have "(of_char (char_of (48 + k :: nat) :: char) :: byte) \<le> 0x7F" if "k < 10" for k :: nat
  proof -
    have "k \<in> {0, 1, 2, 3, 4, 5, 6, 7, 8, 9}" using that by auto
    then show ?thesis by (elim insertE) (simp_all add: char_of_def)
  qed
  then show "b \<in> set (ascii (show_nat n)) \<Longrightarrow> b \<le> 0x7F" using show_nat_digits [of n] by (auto simp: ascii_def)
qed

lemma legal_close_message:
  assumes "message_close (Some c) reason = Some m" and "try_from_u16 (close_code_get c) = Some c" and "valid_utf8 reason"
  shows "legal_control (frame_from_message m)" and "f_opcode (frame_from_message m) = Close"
  using assms
  by (auto simp: legal_control_def frame_from_message_def message_close_def payload_from_bytes_def legal_close_def
      split: if_splits)

lemma protocol_error_frame:
  "\<exists>fr. frame_from_protocol_error e = Some fr \<and> f_opcode fr = Close \<and> legal_control fr"
proof -
  have utf8: "valid_utf8 (ascii (as_str e))" "valid_utf8 (ascii ''invalid utf8'')"
    by (cases e) (simp_all add: ascii_def valid_utf8_def)
  have codes: "try_from_u16 1007 = Some INVALID_FRAME_PAYLOAD_DATA" "try_from_u16 1002 = Some PROTOCOL_ERROR"
    by (simp_all add: try_from_u16_def)
  obtain m where "message_close (Some PROTOCOL_ERROR) (ascii (as_str e)) = Some m"
    using as_str_short [of e] by (simp add: message_close_def is_reserved_def)
  moreover obtain m' where "message_close (Some INVALID_FRAME_PAYLOAD_DATA) (ascii ''invalid utf8'') = Some m'"
    by (simp add: message_close_def is_reserved_def)
  ultimately show ?thesis using legal_close_message [OF _ _ utf8(1)] legal_close_message [OF _ _ utf8(2)] codes
    by (auto simp: frame_from_protocol_error_def)
qed

lemma close_for_error_Some:
  assumes "m \<le> usize_MAX" and "(\<exists>q. e = Protocol q) \<or> (\<exists>l. e = PayloadTooLong l m)"
  shows "\<exists>fr. close_for_error e = Some (Some fr) \<and> f_opcode fr = Close \<and> legal_control fr"
  using assms(2)
proof
  assume "\<exists>q. e = Protocol q"
  then show ?thesis using protocol_error_frame by (auto simp: close_for_error_def)
next
  assume e: "\<exists>l. e = PayloadTooLong l m"
  let ?r = "ascii (''max length: '' @ show_nat m)"
  have "\<forall>b \<in> set ?r. b \<le> 0x7F" using ascii_show_nat [of _ m] by (auto simp: ascii_def)
  then have utf8: "valid_utf8 ?r" by (rule valid_utf8_ascii_bytes)
  have code: "try_from_u16 1009 = Some MESSAGE_TOO_BIG" by (simp add: try_from_u16_def)
  obtain msg where msg: "message_close (Some MESSAGE_TOO_BIG) ?r = Some msg"
    using length_show_usize [OF assms(1)] by (simp add: message_close_def is_reserved_def)
  then show ?thesis using legal_close_message [OF msg _ utf8] code e by (auto simp: close_for_error_def)
qed

subsection \<open>The order of the connection states\<close>

text \<open>A connection goes from \<open>Active\<close> to \<open>CloseAcknowledged\<close>, possibly by one of the states between.\<close>

instantiation stream_state :: order
begin

definition less_eq_stream_state :: "stream_state \<Rightarrow> stream_state \<Rightarrow> bool" where
  "less_eq_stream_state a b \<longleftrightarrow> a = b \<or> a = Active \<or> b = CloseAcknowledged"

definition less_stream_state :: "stream_state \<Rightarrow> stream_state \<Rightarrow> bool" where
  "less_stream_state a b \<longleftrightarrow> a \<noteq> b \<and> (a = Active \<or> b = CloseAcknowledged)"

instance
  by standard (auto simp: less_eq_stream_state_def less_stream_state_def)

end

lemma stream_state_le_simps [simp]:
  "Active \<le> a" "a \<le> CloseAcknowledged" "CloseAcknowledged \<le> a \<longleftrightarrow> a = CloseAcknowledged"
  "a \<le> Active \<longleftrightarrow> a = Active"
  by (auto simp: less_eq_stream_state_def)

subsection \<open>Frames sent by an operation\<close>

fun wire_frames :: "(nat \<Rightarrow> bytes) \<Rightarrow> role \<Rightarrow> nat \<Rightarrow> wsframe list \<Rightarrow> bytes" where
  "wire_frames keys r k [] = []"
| "wire_frames keys r k (fr # frs) =
     wire_frame (if r = Client then keys k else []) fr @ wire_frames keys r (if r = Client then k + 1 else k) frs"

lemma wire_frames_append:
  "wire_frames keys r k (frs @ grs) =
     wire_frames keys r k frs @ wire_frames keys r (if r = Client then k + length frs else k) grs"
  by (induction frs arbitrary: k) simp_all

text \<open>
  \<open>sends s frs s'\<close>: the operation appends the encodings of \<open>frs\<close> to the outgoing bytes, keeps
  the role and the configuration, moves the state forwards only, sends nothing unless the
  connection was active, and after a close frame nothing more.
\<close>

definition closes :: "wsframe list \<Rightarrow> bool" where
  "closes frs \<longleftrightarrow> (\<exists>fr \<in> set frs. f_opcode fr = Close)"

definition sends ::
  "('io, 'f) env \<Rightarrow> ('io \<Rightarrow> bytes) \<Rightarrow> ('io, 'f) websocket_stream \<Rightarrow> wsframe list \<Rightarrow> ('io, 'f) websocket_stream \<Rightarrow> bool" where
  "sends E written s frs s' \<longleftrightarrow>
     outgoing written s' = outgoing written s @ wire_frames (masks E) (role (decoder (inner s))) (masks_drawn s) frs
     \<and> masks_drawn s' = (if role (decoder (inner s)) = Client then masks_drawn s + length frs else masks_drawn s)
     \<and> role (decoder (inner s')) = role (decoder (inner s)) \<and> config s' = config s
     \<and> state s \<le> state s' \<and> (state s \<noteq> Active \<longrightarrow> frs = [])
     \<and> \<not> closes (butlast frs) \<and> (closes frs \<longrightarrow> state s' \<noteq> Active)"

lemma closes_simps [simp]: "\<not> closes []" "closes (fr # frs) \<longleftrightarrow> f_opcode fr = Close \<or> closes frs"
  "closes (frs @ grs) \<longleftrightarrow> closes frs \<or> closes grs"
  by (auto simp: closes_def)

lemma sends_refl: "sends E written s [] s"
  by (simp add: sends_def)

lemma sends_trans:
  assumes "sends E written s frs s1" and "sends E written s1 grs s2"
  shows "sends E written s (frs @ grs) s2"
proof -
  have "state s1 \<noteq> Active \<Longrightarrow> grs = []" "state s \<le> state s1" "state s1 \<le> state s2" "closes frs \<Longrightarrow> state s1 \<noteq> Active"
    using assms by (simp_all add: sends_def)
  moreover have "state s \<noteq> Active \<Longrightarrow> state s1 \<noteq> Active" using calculation(2) by auto
  moreover have "\<not> closes (butlast (frs @ grs))"
    using assms by (auto simp: sends_def butlast_append)
  moreover have "state s \<le> state s2" using calculation(2,3) by (rule order_trans)
  moreover have "closes (frs @ grs) \<Longrightarrow> state s2 \<noteq> Active"
    using assms calculation(3) by (auto simp: sends_def)
  ultimately show ?thesis
    using assms by (auto simp: sends_def wire_frames_append)
qed

text \<open>The frames the stream sends of its own accord: pongs and close frames.\<close>

definition is_reply :: "wsframe \<Rightarrow> bool" where
  "is_reply fr \<longleftrightarrow> legal_control fr \<and> f_opcode fr \<noteq> Ping"

lemma is_reply_close:
  assumes "legal_control f" and "f_opcode f = Close"
  shows "is_reply (f\<lparr>f_payload := take 2 (f_payload f)\<rparr>)"
proof -
  have "legal_close (take 2 (f_payload f))"
  proof (cases "2 \<le> length (f_payload f)")
    case True
    then show ?thesis using assms legal_close_iff [OF True] legal_close_iff [of "take 2 (f_payload f)"]
      by (auto simp: legal_control_def valid_utf8_def)
  next
    case False
    then show ?thesis using assms by (simp add: legal_control_def)
  qed
  then show ?thesis using assms by (auto simp: is_reply_def legal_control_def)
qed

lemma is_reply_default_close: "is_reply DEFAULT_CLOSE"
proof -
  have "try_from_u16 1000 = Some NORMAL_CLOSURE" by (simp add: try_from_u16_def)
  then have "legal_close (to_be_bytes 2 (1000 :: u16))"
    by (auto simp: legal_close_def is_reserved_def valid_utf8_def intro!: exI [of _ "1000 :: u16"])
  then show ?thesis by (simp add: is_reply_def legal_control_def DEFAULT_CLOSE_def)
qed

text \<open>What holds between two operations.\<close>

definition ws_inv :: "('io, 'f) websocket_stream \<Rightarrow> bool" where
  "ws_inv s \<longleftrightarrow> fq_inv (frame_queue s) \<and> max_payload_len (limits (decoder (inner s))) \<le> usize_MAX
     \<and> (state s \<in> {Active, ClosedByUs} \<longrightarrow> codec_inv (decoder (inner s)) (buffer (inner s)))"

lemma ws_inv_new:
  "max_payload_len l \<le> usize_MAX \<Longrightarrow> ws_inv (from_raw_stream i f r c l)"
  "max_payload_len l \<le> usize_MAX \<Longrightarrow> ws_inv (from_framed fr r c l)"
  by (simp_all add: ws_inv_def from_raw_stream_def from_framed_def protocol_new_def codec_inv_fresh)

context transport
begin

lemma queue_frame_eq:
  "\<exists>ef. queue_frame E s fr = s\<lparr>state := (if f_opcode fr = Close \<and> state s \<noteq> ClosedByPeer then ClosedByUs else state s),
      frame_queue := push (frame_queue s) ef,
      masks_drawn := (if role (decoder (inner s)) = Client then masks_drawn s + 1 else masks_drawn s)\<rparr>
    \<and> length (header ef) = 14 \<and> frame_bytes ef = wire_frame (next_key E s) fr"
proof -
  let ?s1 = "if f_opcode fr = Close \<and> state s \<noteq> ClosedByPeer then s\<lparr>state := ClosedByUs\<rparr> else s"
  from mask_frame_for_sending_wire [OF key_length, of ?s1 fr] obtain ef where
    "mask_frame_for_sending E ?s1 fr = (ef, if role (decoder (inner s)) = Client then masks_drawn s + 1 else masks_drawn s)"
    "length (header ef) = 14" "frame_bytes ef = wire_frame (next_key E s) fr"
    by (auto simp: next_key_def)
  then show ?thesis by (intro exI [of _ ef]) (simp add: queue_frame_def Let_def)
qed

lemma queue_frame_sends:
  assumes "ws_inv s" and "state s = Active"
  shows "sends E written s [fr] (queue_frame E s fr)" and "ws_inv (queue_frame E s fr)"
  using queue_frame_eq [of s fr] assms
  by (auto simp: sends_def ws_inv_def outgoing_def next_key_def)

text \<open>Setting the state to \<open>ClosedByPeer\<close> and queueing a close frame.\<close>

lemma answer_close_sends:
  assumes "ws_inv s" and "state s = Active" and "f_opcode fr = Close"
  shows "sends E written s [fr] (queue_frame E (s\<lparr>state := ClosedByPeer\<rparr>) fr)"
    and "ws_inv (queue_frame E (s\<lparr>state := ClosedByPeer\<rparr>) fr)"
  using queue_frame_eq [of "s\<lparr>state := ClosedByPeer\<rparr>" fr] assms
  by (auto simp: sends_def ws_inv_def outgoing_def next_key_def)

lemma sends_besides_io:
  assumes "outgoing written s' = outgoing written s" and "same_besides_io s s'" and "state s \<le> state s'"
  shows "sends E written s [] s'"
  using assms by (simp add: sends_def same_besides_io_def)

lemma flush_sends:
  assumes "ws_inv s" and "flush_post written w s r s'"
  shows "sends E written s [] s'" and "ws_inv s'"
proof -
  have post: "fq_inv (frame_queue s')" "outgoing written s' = outgoing written s" "same_besides_io s s'"
    "state s \<le> state s'" "state s' = state s \<or> state s' = CloseAcknowledged"
    using assms(2) by (auto simp: flush_post_def split: poll.splits sum.splits)
  show "sends E written s [] s'" using post(2-4) by (rule sends_besides_io)
  show "ws_inv s'" using post assms(1) by (auto simp: ws_inv_def same_besides_io_def)
qed

lemma queue_frame_keeps:
  "flushing_waker (queue_frame E s fr) = flushing_waker s" "partial_payload (queue_frame E s fr) = partial_payload s"
  "inner (queue_frame E s fr) = inner s"
  using queue_frame_eq [of s fr] by auto

lemma on_frame_keeps:
  "flushing_waker (on_frame E s f) = flushing_waker s" "partial_payload (on_frame E s f) = partial_payload s"
  "inner (on_frame E s f) = inner s"
  by (simp_all add: on_frame_def queue_frame_keeps split: stream_state.split)

lemma on_frame_sends:
  assumes inv: "ws_inv s" and st: "state s \<in> {Active, ClosedByUs}" and ctl: "is_control (f_opcode f) \<Longrightarrow> legal_control f"
  shows "\<exists>frs. sends E written s frs (on_frame E s f) \<and> ws_inv (on_frame E s f) \<and> (\<forall>fr \<in> set frs. is_reply fr)"
proof -
  have ack: "sends E written s [] (s\<lparr>state := CloseAcknowledged\<rparr>)" "ws_inv (s\<lparr>state := CloseAcknowledged\<rparr>)"
    using inv by (simp_all add: sends_def outgoing_def ws_inv_def)
  consider "f_opcode f = Close" "state s = Active" | "f_opcode f = Close" "state s = ClosedByUs"
    | "f_opcode f = Ping" "state s = Active" | "f_opcode f \<noteq> Close" "\<not> (f_opcode f = Ping \<and> state s = Active)"
    using st by auto
  then show ?thesis
  proof cases
    case 1
    have "is_reply (f\<lparr>f_payload := take 2 (f_payload f)\<rparr>)" using ctl 1(1) by (simp add: is_reply_close)
    then show ?thesis using answer_close_sends [OF inv 1(2), of "f\<lparr>f_payload := take 2 (f_payload f)\<rparr>"] 1
      by (auto simp: on_frame_def)
  next
    case 2
    then show ?thesis using ack by (auto simp: on_frame_def)
  next
    case 3
    have "is_reply (f\<lparr>f_opcode := Pong\<rparr>)" using ctl 3(1) by (simp add: is_reply_def legal_control_def)
    then show ?thesis using queue_frame_sends [OF inv 3(2), of "f\<lparr>f_opcode := Pong\<rparr>"] 3
      by (auto simp: on_frame_def intro!: exI [of _ "[f\<lparr>f_opcode := Pong\<rparr>]"])
  next
    case 4
    then have "on_frame E s f = s" by (auto simp: on_frame_def)
    then show ?thesis using inv sends_refl [of E written s] by (intro exI [of _ "[]"]) simp
  qed
qed

lemma on_read_error_sends:
  assumes "fq_inv (frame_queue s)" and m: "max_payload_len (limits (decoder (inner s))) \<le> usize_MAX"
    and st: "state s \<in> {Active, ClosedByUs}"
    and e: "(\<exists>q. e = Protocol q) \<or> (\<exists>l. e = PayloadTooLong l (max_payload_len (limits (decoder (inner s))))) \<or> (\<exists>x. e = Io x)"
  shows "\<exists>s' frs. on_read_error E s e = Some (Ready (Some (Inl e)), s') \<and> sends E written s frs s' \<and> ws_inv s'
    \<and> flushing_waker s' = flushing_waker s \<and> partial_payload s' = partial_payload s \<and> (\<forall>fr \<in> set frs. is_reply fr)"
proof (cases "(\<exists>x. e = Io x) \<or> state s = ClosedByUs")
  case True
  then have "on_read_error E s e = Some (Ready (Some (Inl e)), s\<lparr>state := CloseAcknowledged\<rparr>)"
    by (auto simp: on_read_error_def)
  then show ?thesis using assms by (auto simp: sends_def outgoing_def ws_inv_def intro!: exI [of _ "[]"])
next
  case False
  then have "state s = Active" using st by simp
  from False e have "(\<exists>q. e = Protocol q) \<or> (\<exists>l. e = PayloadTooLong l (max_payload_len (limits (decoder (inner s)))))"
    by blast
  from close_for_error_Some [OF m this] obtain fr where fr: "close_for_error e = Some (Some fr)" "f_opcode fr = Close" "legal_control fr"
    by blast
  have eq: "on_read_error E s e = Some (Ready (Some (Inl e)), queue_frame E (s\<lparr>state := ClosedByPeer\<rparr>) fr)"
    using False fr(1) by (cases e) (auto simp: on_read_error_def)
  show ?thesis
    using queue_frame_eq [of "s\<lparr>state := ClosedByPeer\<rparr>" fr] assms(1) m fr(2,3) \<open>state s = Active\<close> unfolding eq
    by (auto simp: sends_def ws_inv_def outgoing_def next_key_def is_reply_def intro!: exI [of _ "[fr]"])
qed

text \<open>What one call of \<open>poll_next_frame\<close> leaves of the flushing waker and of the message so far.\<close>

definition keeps_flusher :: "('io, 'f) websocket_stream \<Rightarrow> ('io, 'f) websocket_stream \<Rightarrow> bool" where
  "keeps_flusher s s' \<longleftrightarrow> flushing_waker s' \<in> {flushing_waker s, None} \<and> partial_payload s' = partial_payload s"

lemma read_frame_sends:
  assumes inv: "ws_inv s" and st: "state s \<in> {Active, ClosedByUs}"
  shows "\<exists>r s' frs. read_frame E w s = Some (r, s') \<and> sends E written s frs s' \<and> ws_inv s'
    \<and> flushing_waker s' = flushing_waker s \<and> partial_payload s' = partial_payload s
    \<and> ((\<exists>f. r = Ready (Some (Inr f))) \<longrightarrow> payload_processed (decoder (inner s')) = 0) \<and> (\<forall>fr \<in> set frs. is_reply fr)"
proof -
  have cinv: "codec_inv (decoder (inner s)) (buffer (inner s))" using inv st unfolding ws_inv_def by blast
  obtain rd fr where rd: "framed_poll_next E w (inner s) = (rd, fr)" by (cases "framed_poll_next E w (inner s)")
  from read [OF cinv rd] have res: "read_result U (cpu E) (inner s) rd fr" and wr: "written (io fr) = written (io (inner s))"
    by simp_all
  from res obtain cs d where d: "decode_reads U (cpu E) (decoder (inner s)) (buffer (inner s)) cs = Some (d, decoder fr, buffer fr)"
    and rd_d: "case rd of Pending \<Rightarrow> d = Inr None | Ready None \<Rightarrow> d = Inr None | Ready (Some (Inr f)) \<Rightarrow> d = Inr (Some f)
      | Ready (Some (Inl e)) \<Rightarrow> d = Inl e \<or> (d = Inr None \<and> (\<exists>x. e = Io x))"
    unfolding read_result_def by blast
  note post = decode_reads_post [OF cinv d]
  let ?s1 = "s\<lparr>inner := fr\<rparr>"
  have s1: "sends E written s [] ?s1" "fq_inv (frame_queue ?s1)" "max_payload_len (limits (decoder (inner ?s1))) \<le> usize_MAX"
    using wr post(1,2) inv by (simp_all add: sends_def outgoing_def ws_inv_def)
  have inv1: "ws_inv ?s1" if "\<not> isl d" using s1(2,3) post(3) [OF that] by (simp add: ws_inv_def)
  show ?thesis
  proof (cases rd)
    case Pending
    then show ?thesis using rd s1(1) inv1 rd_d by (auto simp: read_frame_def)
  next
    case (Ready ro)
    show ?thesis
    proof (cases ro)
      case None
      then show ?thesis using Ready rd s1(1) inv1 rd_d by (auto simp: read_frame_def)
    next
      case (Some ef)
      show ?thesis
      proof (cases ef)
        case (Inr f)
        then have "ws_inv ?s1" using rd_d Ready Some inv1 by simp
        moreover have "read_frame E w s = Some (Ready (Some (Inr f)), on_frame E ?s1 f)"
          using rd Ready Some Inr by (simp add: read_frame_def)
        moreover have "is_control (f_opcode f) \<Longrightarrow> legal_control f"
          using decode_reads_control [OF cinv, of "cpu E" cs f] d rd_d Ready Some Inr by simp
        then have "\<exists>frs. sends E written ?s1 frs (on_frame E ?s1 f) \<and> ws_inv (on_frame E ?s1 f) \<and> (\<forall>fr \<in> set frs. is_reply fr)"
          using on_frame_sends [OF \<open>ws_inv ?s1\<close>] st by simp
        moreover have "payload_processed (decoder fr) = 0" using rd_d Ready Some Inr by (intro post(5)) simp
        ultimately show ?thesis using sends_trans [OF s1(1)] on_frame_keeps [of ?s1 f] by fastforce
      next
        case (Inl e)
        have eq: "read_frame E w s = on_read_error E ?s1 e" using rd Ready Some Inl by (simp add: read_frame_def)
        have e: "(\<exists>q. e = Protocol q) \<or> (\<exists>l. e = PayloadTooLong l (max_payload_len (limits (decoder (inner ?s1))))) \<or> (\<exists>x. e = Io x)"
          using rd_d Ready Some Inl post(2,4) by auto
        from on_read_error_sends [OF s1(2,3) _ e] st obtain s' frs where
          "on_read_error E ?s1 e = Some (Ready (Some (Inl e)), s')" "sends E written ?s1 frs s'" "ws_inv s'"
          "flushing_waker s' = flushing_waker ?s1" "partial_payload s' = partial_payload ?s1"
          "\<forall>fr \<in> set frs. is_reply fr" by auto
        then show ?thesis using sends_trans [OF s1(1)] unfolding eq by fastforce
      qed
    qed
  qed
qed

lemma on_read_error_inner: "on_read_error E s e = Some (r, s') \<Longrightarrow> inner s' = inner s"
  by (auto simp: on_read_error_def Let_def queue_frame_keeps split: if_splits option.splits)

lemma read_frame_inner:
  assumes "read_frame E w s = Some (r, s')"
  shows "inner s' = snd (framed_poll_next E w (inner s))"
proof -
  obtain rd fr where rd: "framed_poll_next E w (inner s) = (rd, fr)" by (cases "framed_poll_next E w (inner s)")
  show ?thesis
    using assms rd by (auto simp: read_frame_def Let_def on_frame_keeps dest!: on_read_error_inner
        split: poll.splits option.splits sum.splits)
qed

lemma read_frame_written:
  assumes "ws_inv s" and "state s \<in> {Active, ClosedByUs}" and "read_frame E w s = Some (r, s')"
  shows "written (io (inner s')) = written (io (inner s))"
proof -
  have "codec_inv (decoder (inner s)) (buffer (inner s))" using assms(1,2) unfolding ws_inv_def by blast
  from read [OF this surjective_pairing] show ?thesis using read_frame_inner [OF assms(3)] by simp
qed

text \<open>
  One call of \<open>poll_next_frame\<close>: in the states in which frames are read, a flushing waker that
  another task has registered stays, unless the flush got done.
\<close>

lemma poll_next_frame_sends:
  assumes inv: "ws_inv s"
  shows "\<exists>r s' frs. poll_next_frame E w s = Some (r, s') \<and> sends E written s frs s' \<and> ws_inv s'
    \<and> partial_payload s' = partial_payload s
    \<and> (state s \<noteq> ClosedByPeer \<longrightarrow> flushing_waker s = Some v \<longrightarrow> flushing_waker s' \<in> {Some v, None})
    \<and> ((\<exists>f. r = Ready (Some (Inr f))) \<longrightarrow> payload_processed (decoder (inner s')) = 0) \<and> (\<forall>fr \<in> set frs. is_reply fr)"
proof -
  have fq: "fq_inv (frame_queue s)" using inv by (simp add: ws_inv_def)
  consider (ack) "state s = CloseAcknowledged" | (peer) "state s = ClosedByPeer"
    | (read) "state s \<in> {Active, ClosedByUs}" by (cases "state s") auto
  then show ?thesis
  proof cases
    case ack
    then show ?thesis using inv sends_refl [of E written s] by (auto simp: poll_next_frame_def intro!: exI [of _ "[]"])
  next
    case peer
    from poll_flush_total [OF fq, of w] obtain r s1 where
      r: "poll_flush E w s = Some (r, s1)" and post: "flush_post written w s r s1" by blast
    note fs = flush_sends [OF inv post]
    have pp: "partial_payload s1 = partial_payload s" using post by (simp add: flush_post_def same_besides_io_def)
    have ack: "sends E written s [] (s1\<lparr>state := CloseAcknowledged\<rparr>)" "ws_inv (s1\<lparr>state := CloseAcknowledged\<rparr>)"
      using fs by (auto simp: sends_def outgoing_def ws_inv_def)
    have "\<exists>r' s'. poll_next_frame E w s = Some (r', s') \<and> (\<nexists>f. r' = Ready (Some (Inr f))) \<and> (s' = s1 \<or> s' = s1\<lparr>state := CloseAcknowledged\<rparr>)"
      using peer r by (cases r) (auto simp: poll_next_frame_def split: sum.split)
    then obtain r' s' where r': "poll_next_frame E w s = Some (r', s')" "s' = s1 \<or> s' = s1\<lparr>state := CloseAcknowledged\<rparr>"
      "\<nexists>f. r' = Ready (Some (Inr f))"
      by blast
    then have "sends E written s [] s' \<and> ws_inv s' \<and> partial_payload s' = partial_payload s"
      using fs ack pp by auto
    then show ?thesis using r'(1,3) peer by (intro exI [of _ r'] exI [of _ s'] exI [of _ "[]"]) simp
  next
    case read
    show ?thesis
    proof (cases "has_remaining (frame_queue s)")
      case False
      then have "poll_next_frame E w s = read_frame E w s" using read by (auto simp: poll_next_frame_def)
      then show ?thesis using read_frame_sends [OF inv read, of w] by fastforce
    next
      case True
      let ?w = "case flushing_waker s of None \<Rightarrow> w | Some v \<Rightarrow> v"
      from poll_flush_total [OF fq, of ?w] obtain r s1 where
        r: "poll_flush E ?w s = Some (r, s1)" and post: "flush_post written ?w s r s1" by blast
      note fs = flush_sends [OF inv post]
      have pp: "partial_payload s1 = partial_payload s" using post by (simp add: flush_post_def same_besides_io_def)
      have wk: "flushing_waker s = Some v \<longrightarrow> flushing_waker s1 \<in> {Some v, None}"
        using post by (auto simp: flush_post_def split: poll.splits sum.splits)
      show ?thesis
      proof (cases "\<exists>e. r = Ready (Inl e)")
        case True
        then obtain e where "poll_next_frame E w s = Some (Ready (Some (Inl e)), s1)"
          using read r \<open>has_remaining (frame_queue s)\<close> by (auto simp: poll_next_frame_def)
        then show ?thesis using fs pp wk by (intro exI [of _ "Ready (Some (Inl e))"] exI [of _ s1] exI [of _ "[]"]) simp
      next
        case ok: False
        then have eq: "poll_next_frame E w s = read_frame E w s1"
          using read r \<open>has_remaining (frame_queue s)\<close>
          by (cases r) (auto simp: poll_next_frame_def split: sum.splits)
        have st1: "state s1 = state s" using post ok by (auto simp: flush_post_def split: poll.splits sum.splits)
        then have "state s1 \<in> {Active, ClosedByUs}" using read by simp
        from read_frame_sends [OF fs(2) this, of w] obtain r' s' frs where
          "read_frame E w s1 = Some (r', s')" "sends E written s1 frs s'" "ws_inv s'"
          "flushing_waker s' = flushing_waker s1" "partial_payload s' = partial_payload s1"
          "(\<exists>f. r' = Ready (Some (Inr f))) \<longrightarrow> payload_processed (decoder (inner s')) = 0" "\<forall>fr \<in> set frs. is_reply fr"
          by blast
        then show ?thesis using sends_trans [OF fs(1)] pp wk unfolding eq by (metis append_Nil)
      qed
    qed
  qed
qed

subsection \<open>Every operation\<close>

lemma assemble_sends:
  assumes "ws_inv s" and "payload_processed (decoder (inner s)) = 0"
  shows "case assemble m s f of
      Inl (_, s1) \<Rightarrow> sends E written s [] s1 \<and> ws_inv s1 | Inr s1 \<Rightarrow> sends E written s [] s1 \<and> ws_inv s1"
  using assms
  by (auto simp: assemble_def Let_def sends_def outgoing_def ws_inv_def take_message_opcode_def codec_inv_def)

lemma start_send_sends:
  assumes inv: "ws_inv s" and c: "frame_size (config s) \<noteq> 0"
  shows "\<exists>r s' frs. start_send E s m = Some (r, s') \<and> sends E written s frs s' \<and> ws_inv s'
    \<and> (if state s = Active
       then r = Inr () \<and> (is_control (m_opcode m) \<longrightarrow> frs = [frame_from_message m])
         \<and> (\<not> is_control (m_opcode m) \<longrightarrow> frs = frames_of (frame_size (config s)) (m_opcode m) (data (m_payload m)))
       else r = Inl AlreadyClosed \<and> s' = s)"
proof (cases "state s = Active")
  case False
  then show ?thesis using inv sends_refl by (auto simp: start_send_def)
next
  case active: True
  show ?thesis
  proof (cases "is_control (m_opcode m) \<or> length (data (m_payload m)) \<le> frame_size (config s)")
    case True
    then have "start_send E s m = Some (Inr (), queue_frame E s (frame_from_message m))"
      using active by (auto simp: start_send_def)
    then show ?thesis using queue_frame_sends [OF inv active, of "frame_from_message m"] active True
      by (auto simp: frame_from_message_def frames_of.simps [of "frame_size (config s)" "m_opcode m"]
          intro!: exI [of _ "[frame_from_message m]"])
  next
    case False
    let ?frs = "frames_of (frame_size (config s)) (m_opcode m) (data (m_payload m))"
    have "0 < frame_size (config s)" using c by simp
    note shape = frames_of_shape [OF this]
    have nc: "f_opcode fr \<noteq> Close" if "fr \<in> set ?frs" for fr
    proof -
      have "f_opcode fr \<in> set (map f_opcode ?frs)" using that by simp
      then have "f_opcode fr = m_opcode m \<or> f_opcode fr = Continuation"
        unfolding shape(2) by auto
      then show ?thesis using False by auto
    qed
    have many: "\<lbrakk>ws_inv t; state t = Active; \<forall>fr \<in> set frs. f_opcode fr \<noteq> Close\<rbrakk> \<Longrightarrow>
        sends E written t frs (foldl (queue_frame E) t frs) \<and> ws_inv (foldl (queue_frame E) t frs)" for frs t
    proof (induction frs arbitrary: t)
      case (Cons fr frs)
      have st: "state (queue_frame E t fr) = Active" using queue_frame_eq [of t fr] Cons.prems by auto
      from Cons.IH [OF queue_frame_sends(2) [OF Cons.prems(1,2)] st] Cons.prems(3)
      have "sends E written (queue_frame E t fr) frs (foldl (queue_frame E) (queue_frame E t fr) frs)"
        "ws_inv (foldl (queue_frame E) (queue_frame E t fr) frs)" by auto
      then show ?case using sends_trans [OF queue_frame_sends(1) [OF Cons.prems(1,2), of fr]] by simp
    qed (simp add: sends_refl)
    have "start_send E s m = Some (Inr (), foldl (queue_frame E) s ?frs)"
      using False active \<open>0 < frame_size (config s)\<close> by (simp add: start_send_def into_frames_def frames_fold_eq)
    then show ?thesis using many [OF inv active, of ?frs] nc active False by auto
  qed
qed

lemma poll_next_loop_sends:
  assumes "poll_next_loop E w m s = Some (r, s')" and "ws_inv s"
  shows "\<exists>frs. sends E written s frs s' \<and> ws_inv s' \<and> (\<forall>fr \<in> set frs. is_reply fr)"
proof -
  let ?J = "\<lambda>t. \<exists>frs. sends E written s frs t \<and> ws_inv t \<and> (\<forall>fr \<in> set frs. is_reply fr)"
  have frame: "?J t1 \<and> ((\<exists>f. x = Ready (Some (Inr f))) \<longrightarrow> payload_processed (decoder (inner t1)) = 0)"
    if "?J t" "poll_next_frame E w t = Some (x, t1)" for t x t1
  proof -
    from that(1) obtain frs where frs: "sends E written s frs t" "ws_inv t" "\<forall>fr \<in> set frs. is_reply fr" by blast
    from poll_next_frame_sends [where w = w and v = w, OF frs(2)] that(2) obtain grs where
      "sends E written t grs t1" "ws_inv t1" "\<forall>fr \<in> set grs. is_reply fr"
      "(\<exists>f. x = Ready (Some (Inr f))) \<longrightarrow> payload_processed (decoder (inner t1)) = 0" by auto
    then show ?thesis using sends_trans [OF frs(1)] frs(3) by (intro conjI exI [of _ "frs @ grs"]) auto
  qed
  have asm: "case assemble m t1 f of Inl (_, t2) \<Rightarrow> ?J t2 | Inr t2 \<Rightarrow> ?J t2"
    if "?J t" "poll_next_frame E w t = Some (Ready (Some (Inr f)), t1)" for t f t1
  proof -
    from frame [OF that] obtain frs where frs: "sends E written s frs t1" "ws_inv t1" "\<forall>fr \<in> set frs. is_reply fr"
      and p0: "payload_processed (decoder (inner t1)) = 0" by blast
    from assemble_sends [OF frs(2) p0, of m f] show ?thesis
      using sends_trans [OF frs(1), of "[]"] frs(3) by (fastforce split: sum.split prod.split)
  qed
  have start: "?J s" using sends_refl assms(2) by (intro exI [of _ "[]"]) simp
  show ?thesis
  proof (rule poll_next_loop_rounds [where J = ?J and Q = "\<lambda>_. ?J", OF assms(1) start])
    show "?J t2" if "?J t" "poll_next_frame E w t = Some (Ready (Some (Inr f)), t1)" "assemble m t1 f = Inl (x, t2)" for t f t1 x t2
      using asm [OF that(1,2)] that(3) by simp
    show "?J t2" if "?J t" "poll_next_frame E w t = Some (Ready (Some (Inr f)), t1)" "assemble m t1 f = Inr t2" for t f t1 t2
      using asm [OF that(1,2)] that(3) by simp
  qed (use frame in blast)
qed

lemma close_drain_sends:
  assumes "close_drain E w s = Some (r, s')" and "ws_inv s"
  shows "\<exists>frs. sends E written s frs s' \<and> ws_inv s' \<and> (\<forall>fr \<in> set frs. is_reply fr)"
proof -
  let ?J = "\<lambda>t. \<exists>frs. sends E written s frs t \<and> ws_inv t \<and> (\<forall>fr \<in> set frs. is_reply fr)"
  have next_msg: "?J t1" if "?J t" "poll_next E w t = Some (x, t1)" for t x t1
  proof -
    from that(1) obtain frs where frs: "sends E written s frs t" "ws_inv t" "\<forall>fr \<in> set frs. is_reply fr" by blast
    from poll_next_loop_sends [OF that(2) [unfolded poll_next_def] frs(2)] obtain grs where
      "sends E written t grs t1" "ws_inv t1" "\<forall>fr \<in> set grs. is_reply fr" by blast
    then show ?thesis using sends_trans [OF frs(1)] frs(3) by (intro exI [of _ "frs @ grs"]) auto
  qed
  have start: "?J s" using sends_refl assms(2) by (intro exI [of _ "[]"]) simp
  show ?thesis
    by (rule close_drain_rounds [where J = ?J and Q = "\<lambda>_. ?J", OF assms(1) start]) (use next_msg in blast)+
qed

lemma poll_close_sends:
  assumes "poll_close E w s = Some y" and inv: "ws_inv s"
  shows "\<exists>frs. sends E written s frs (snd y) \<and> ws_inv (snd y) \<and> (\<forall>fr \<in> set frs. is_reply fr)"
proof -
  let ?s0 = "if state s = Active then queue_frame E s DEFAULT_CLOSE else s"
  have "\<exists>frs0. sends E written s frs0 ?s0 \<and> ws_inv ?s0 \<and> (\<forall>fr \<in> set frs0. is_reply fr)"
    using queue_frame_sends [OF inv, of DEFAULT_CLOSE] sends_refl [of E written s] inv is_reply_default_close
    by (cases "state s = Active") (auto intro: exI [of _ "[DEFAULT_CLOSE]"] exI [of _ "[]"])
  then obtain frs0 where s0: "sends E written s frs0 ?s0" "ws_inv ?s0" "\<forall>fr \<in> set frs0. is_reply fr" by blast
  from assms(1) obtain d s1 where d: "close_drain E w ?s0 = Some (d, s1)"
    by (auto simp: poll_close_def split: option.splits)
  from close_drain_sends [OF d s0(2)] obtain frs1 where s1: "sends E written s (frs0 @ frs1) s1" "ws_inv s1"
    and replies: "\<forall>fr \<in> set (frs0 @ frs1). is_reply fr"
    using sends_trans [OF s0(1)] s0(3) by fastforce
  show ?thesis
  proof (cases d)
    case Pending
    then show ?thesis using assms(1) d s1 replies by (intro exI [of _ "frs0 @ frs1"]) (auto simp: poll_close_def)
  next
    case (Ready u)
    from poll_flush_total [of s1 w] s1(2) obtain r s2 where r: "poll_flush E w s1 = Some (r, s2)"
      and post: "flush_post written w s1 r s2" by (auto simp: ws_inv_def)
    note s2 = flush_sends [OF s1(2) post]
    have s2': "sends E written s (frs0 @ frs1) s2" using sends_trans [OF s1(1) s2(1)] by simp
    obtain rs i where sd: "io_poll_shutdown E w (io (inner s2)) = (rs, i)" by fastforce
    then have "written i = written (io (inner s2))" using shutdown_written [of w "io (inner s2)"] by simp
    then have s3: "sends E written s (frs0 @ frs1) (set_io s2 i)" "ws_inv (set_io s2 i)"
      using s2' s2(2) by (auto simp: sends_def outgoing_def set_io_def ws_inv_def)
    have "snd y = s2 \<or> snd y = set_io s2 i"
      using assms(1) d Ready r sd by (auto simp: poll_close_def Let_def split: poll.splits sum.splits)
    then show ?thesis using s2' s2(2) s3 replies by (intro exI [of _ "frs0 @ frs1"]) auto
  qed
qed

end

end
