(* ===== verification/Duplex.thy ===== *)
theory Duplex
  imports Stream_Output
begin

text \<open>
  An in-memory transport that behaves as the locale \<open>transport\<close> asks: chunks of bytes to be read,
  a limit on what each write accepts, and the bytes accepted so far. It shows that the
  assumptions on the code outside the repository hold together, and concrete runs of the stream
  use it.
\<close>

record duplex =
  incoming :: "bytes list"
  eof :: bool
  room :: "nat list"
  sent :: bytes

text \<open>Reading: decode, and append the next chunk while the decoder asks for more.\<close>

fun duplex_read ::
  "simdutf8 \<Rightarrow> platform \<Rightarrow> bool \<Rightarrow> bytes list \<Rightarrow> websocket_protocol \<Rightarrow> bytes
     \<Rightarrow> (error + wsframe) option poll \<times> bytes list \<times> websocket_protocol \<times> bytes" where
  "duplex_read U pf at_end [] p b0 =
     (case decode U pf p b0 of
        Some (Inr (Some f), p', b') \<Rightarrow> (Ready (Some (Inr f)), [], p', b')
      | Some (Inl e, p', b') \<Rightarrow> (Ready (Some (Inl e)), [], p', b')
      | Some (Inr None, p', b') \<Rightarrow>
          (if \<not> at_end then Pending else if b' = [] then Ready None else Ready (Some (Inl (Io UnexpectedEof))),
           [], p', b')
      | None \<Rightarrow> (Pending, [], p, b0))"
| "duplex_read U pf at_end (c # cs) p b0 =
     (case decode U pf p b0 of
        Some (Inr (Some f), p', b') \<Rightarrow> (Ready (Some (Inr f)), c # cs, p', b')
      | Some (Inl e, p', b') \<Rightarrow> (Ready (Some (Inl e)), c # cs, p', b')
      | Some (Inr None, p', b') \<Rightarrow> duplex_read U pf at_end cs p' (b' @ c)
      | None \<Rightarrow> (Pending, c # cs, p, b0))"

definition duplex_poll_next ::
  "simdutf8 \<Rightarrow> platform \<Rightarrow> waker \<Rightarrow> (duplex, unit) framed_read
     \<Rightarrow> (error + wsframe) option poll \<times> (duplex, unit) framed_read" where
  "duplex_poll_next U pf w fr =
     (let (r, cs, p, b) = duplex_read U pf (eof (io fr)) (incoming (io fr)) (decoder fr) (buffer fr)
      in (r, fr\<lparr>io := (io fr)\<lparr>incoming := cs\<rparr>, decoder := p, buffer := b\<rparr>))"

text \<open>Writing: one vectored write of at most 64 slices, of as many bytes as there is room for.\<close>

definition duplex_write ::
  "waker \<Rightarrow> duplex \<Rightarrow> frame_queue \<Rightarrow> (io_error + usize) poll \<times> duplex \<times> frame_queue" where
  "duplex_write w d fq =
     (case room d of
        [] \<Rightarrow> (Pending, d, fq)
      | n # ns \<Rightarrow>
          (case chunks_vectored fq 64 of
             None \<Rightarrow> (Pending, d, fq)
           | Some cs \<Rightarrow>
               let k = min n (length (concat cs))
               in case advance fq k of
                    None \<Rightarrow> (Pending, d, fq)
                  | Some fq' \<Rightarrow> (Ready (Inr k), d\<lparr>room := ns, sent := sent d @ take k (concat cs)\<rparr>, fq')))"

definition duplex_env :: "simdutf8 \<Rightarrow> platform \<Rightarrow> (nat \<Rightarrow> bytes) \<Rightarrow> (duplex, unit) env" where
  "duplex_env U pf keys =
     \<lparr>cpu = pf, masks = keys, framed_poll_next = duplex_poll_next U pf, poll_write_buf = duplex_write,
      io_poll_flush = (\<lambda>w d. (Ready (Inr ()), d)), io_poll_shutdown = (\<lambda>w d. (Ready (Inr ()), d))\<rparr>"

abbreviation "std_env \<equiv> duplex_env std_utf8 scalar_platform (\<lambda>_. [0x37, 0xFA, 0x21, 0x3D])"

lemma duplex_read_result:
  assumes "simdutf8_lib U" and "codec_inv p b0" and "duplex_read U pf at_end cs p b0 = (r, cs', p', b')"
  shows "\<exists>cs1 d. decode_reads U pf p b0 cs1 = Some (d, p', b') \<and>
    (case r of
        Pending \<Rightarrow> d = Inr None
      | Ready None \<Rightarrow> d = Inr None
      | Ready (Some (Inr f)) \<Rightarrow> d = Inr (Some f)
      | Ready (Some (Inl e)) \<Rightarrow> d = Inl e \<or> (d = Inr None \<and> (\<exists>x. e = Io x)))"
  using assms(2,3)
proof (induction cs arbitrary: p b0)
  case Nil
  from simdutf8_lib.decode_total [OF assms(1) Nil(1), of pf] obtain d p1 b1 where
    d: "decode U pf p b0 = Some (d, p1, b1)" by (auto simp: decode_post_def)
  with Nil(2) show ?case
    by (intro exI [of _ "[]"] exI [of _ d]) (auto split: sum.splits option.splits if_splits)
next
  case (Cons c cs)
  from simdutf8_lib.decode_total [OF assms(1) Cons.prems(1), of pf] obtain d p1 b1 where
    d: "decode U pf p b0 = Some (d, p1, b1)" and inv: "d = Inr None \<Longrightarrow> codec_inv p1 b1" by (auto simp: decode_post_def)
  show ?case
  proof (cases "d = Inr None")
    case True
    have "duplex_read U pf at_end cs p1 (b1 @ c) = (r, cs', p', b')" using Cons.prems(2) d True by simp
    from Cons.IH [OF codec_inv_append [OF inv [OF True]] this] obtain cs1 d' where
      "decode_reads U pf p1 (b1 @ c) cs1 = Some (d', p', b')" and
      "case r of Pending \<Rightarrow> d' = Inr None | Ready None \<Rightarrow> d' = Inr None | Ready (Some (Inr f)) \<Rightarrow> d' = Inr (Some f)
        | Ready (Some (Inl e)) \<Rightarrow> d' = Inl e \<or> (d' = Inr None \<and> (\<exists>x. e = Io x))" by blast
    then show ?thesis using d True by (intro exI [of _ "c # cs1"] exI [of _ d']) simp
  next
    case False
    with Cons.prems(2) d show ?thesis
      by (intro exI [of _ "[]"] exI [of _ d]) (auto split: sum.splits option.splits)
  qed
qed

lemma duplex_transport:
  assumes "simdutf8_lib U" and keys: "\<And>k. length (keys k) = 4"
  shows "transport U (duplex_env U pf keys) sent"
proof (rule transport.intro [OF assms(1) transport_axioms.intro])
  note E = duplex_env_def
  show "length (masks (duplex_env U pf keys) k) = 4" for k using keys by (simp add: E)
  fix w d d' fq fq'
  assume inv: "fq_inv fq"
  from fq.vec_prefix [OF inv, of 64] obtain cs where cs: "chunks_vectored fq 64 = Some cs"
    "prefix (concat cs) (contents fq)" by blast
  then have take: "take k (concat cs) = take k (contents fq)" if "k \<le> length (concat cs)" for k
    using that by (auto elim!: prefixE)
  have le: "min n (length (concat cs)) \<le> length (contents fq)" for n
    using prefix_length_le [OF cs(2)] by simp
  have adv: "\<exists>fq'. advance fq (min n (length (concat cs))) = Some fq'" for n
    using fq.adv_drop [OF inv le] by blast
  show "n \<le> remaining fq \<and> advance fq n = Some fq' \<and> sent d' = sent d @ take n (contents fq)"
    if "poll_write_buf (duplex_env U pf keys) w d fq = (Ready (Inr n), d', fq')" for n
  proof (cases "room d")
    case Nil
    then show ?thesis using that by (simp add: E duplex_write_def)
  next
    case (Cons m ms)
    from adv [of m] obtain fq1 where fq1: "advance fq (min m (length (concat cs))) = Some fq1" by blast
    then have "n = min m (length (concat cs))" "fq' = fq1" "sent d' = sent d @ take n (concat cs)"
      using that Cons cs(1) by (auto simp: E duplex_write_def Let_def)
    then show ?thesis using fq1 take [of n] le [of m] fq.rem_eq [OF inv] by simp
  qed
  show "fq' = fq \<and> sent d' = sent d"
    if "poll_write_buf (duplex_env U pf keys) w d fq = (r, d', fq')" "r = Pending \<or> (\<exists>e. r = Ready (Inl e))" for r
    using that cs(1) adv by (auto simp: E duplex_write_def Let_def split: list.splits option.splits)
next
  show "sent (snd (io_poll_flush (duplex_env U pf keys) w d)) = sent d"
    "sent (snd (io_poll_shutdown (duplex_env U pf keys) w d)) = sent d" for w d
    by (simp_all add: duplex_env_def)
next
  fix fr fr' :: "(duplex, unit) framed_read" and w rd
  assume inv: "codec_inv (decoder fr) (buffer fr)" and rd: "framed_poll_next (duplex_env U pf keys) w fr = (rd, fr')"
  obtain r cs p b where dr: "duplex_read U pf (eof (io fr)) (incoming (io fr)) (decoder fr) (buffer fr) = (r, cs, p, b)"
    by (cases "duplex_read U pf (eof (io fr)) (incoming (io fr)) (decoder fr) (buffer fr)")
  then have fr': "rd = r" "fr' = fr\<lparr>io := (io fr)\<lparr>incoming := cs\<rparr>, decoder := p, buffer := b\<rparr>"
    using rd by (simp_all add: duplex_env_def duplex_poll_next_def)
  from duplex_read_result [OF assms(1) inv dr]
  show "read_result U (cpu (duplex_env U pf keys)) fr rd fr' \<and> sent (io fr') = sent (io fr)"
    by (simp add: fr' read_result_def duplex_env_def)
qed

interpretation std_duplex: transport std_utf8 std_env sent
  by (rule duplex_transport [OF std.simdutf8_lib_axioms]) simp

end
