(* ===== verification/Stream_Closing.thy ===== *)
theory Stream_Closing
  imports Duplex
begin

text \<open>
  Properties of the stream's sending side and of the closing handshake, for any sequence of
  operations on a connection.
\<close>

subsection \<open>Operations as steps\<close>

inductive op_step :: "('io, 'f) env \<Rightarrow> ('io, 'f) websocket_stream \<Rightarrow> ('io, 'f) websocket_stream \<Rightarrow> bool"
  for E :: "('io, 'f) env" where
  op_poll_next: "poll_next E w s = Some (r, s') \<Longrightarrow> op_step E s s'"
| op_poll_ready: "poll_ready E w s = Some (r, s') \<Longrightarrow> op_step E s s'"
| op_start_send: "start_send E s m = Some (r, s') \<Longrightarrow> op_step E s s'"
| op_poll_flush: "poll_flush E w s = Some (r, s') \<Longrightarrow> op_step E s s'"
| op_poll_close: "poll_close E w s = Some (r, s') \<Longrightarrow> op_step E s s'"

inductive_cases op_step_elim: "op_step E s s'"

inductive reaches :: "('io, 'f) env \<Rightarrow> ('io, 'f) websocket_stream \<Rightarrow> ('io, 'f) websocket_stream \<Rightarrow> bool"
  for E :: "('io, 'f) env" where
  reaches_refl: "reaches E s s"
| reaches_step: "reaches E s s1 \<Longrightarrow> op_step E s1 s2 \<Longrightarrow> reaches E s s2"

context transport
begin

lemma op_step_sends:
  assumes "op_step E s s'" and inv: "ws_inv s" and c: "frame_size (config s) \<noteq> 0"
  shows "\<exists>frs. sends E written s frs s' \<and> ws_inv s'"
  using assms(1)
proof (rule op_step_elim)
  have fq: "fq_inv (frame_queue s)" using inv by (simp add: ws_inv_def)
  have flush: "\<exists>frs. sends E written s frs s' \<and> ws_inv s'" if "poll_flush E w s = Some (r, s')" for w r
    using poll_flush_total [OF fq, of w] flush_sends [OF inv] that by fastforce
  show "\<exists>frs. sends E written s frs s' \<and> ws_inv s'" if "poll_flush E w s = Some (r, s')" for w r
    using flush that .
  show "\<exists>frs. sends E written s frs s' \<and> ws_inv s'" if "poll_ready E w s = Some (r, s')" for w r
    using flush that sends_refl inv by (auto simp: poll_ready_def split: if_splits)
  show "\<exists>frs. sends E written s frs s' \<and> ws_inv s'" if "poll_next E w s = Some (r, s')" for w r
    using poll_next_loop_sends [OF _ inv] that by (fastforce simp: poll_next_def)
  show "\<exists>frs. sends E written s frs s' \<and> ws_inv s'" if "poll_close E w s = Some (r, s')" for w r
    using poll_close_sends [OF that inv] by auto
  show "\<exists>frs. sends E written s frs s' \<and> ws_inv s'" if "start_send E s m = Some (r, s')" for m r
    using start_send_sends [OF inv c, of m] that by auto
qed

lemma reaches_sends:
  "reaches E s s' \<Longrightarrow> ws_inv s \<Longrightarrow> frame_size (config s) \<noteq> 0 \<Longrightarrow> \<exists>frs. sends E written s frs s' \<and> ws_inv s'"
proof (induction rule: reaches.induct)
  case (reaches_refl s)
  then show ?case using sends_refl by blast
next
  case (reaches_step s s1 s2)
  then obtain frs where s1: "sends E written s frs s1" "ws_inv s1" by blast
  then have "frame_size (config s1) \<noteq> 0" using reaches_step.prems(2) by (simp add: sends_def)
  from op_step_sends [OF reaches_step.hyps(2) s1(2) this] show ?case using sends_trans [OF s1(1)] by blast
qed

end

subsection \<open>Properties\<close>

text \<open>
  C17: Whatever operations are called in whatever order and whatever the peer sends, the bytes given
  to the transport followed by those still queued are the encodings of complete frames one after
  the other, masked with the keys drawn for them if this side is the client: no byte is lost, sent
  twice or reordered by partial writes. At most one of the frames is a close frame, it is the last
  one, and once it is queued the connection is not active any more.
\<close>

theorem connection_sends_whole_frames:
  assumes "transport U E written" and "reaches E (from_raw_stream i f r c l) s"
    and "frame_size c \<noteq> 0" and "max_payload_len l \<le> usize_MAX"
  shows "\<exists>frs. written (io (inner s)) @ contents (frame_queue s)
      = written i @ wire_frames (masks E) r 0 frs
    \<and> \<not> closes (butlast frs) \<and> (closes frs \<longrightarrow> state s \<noteq> Active)"
proof -
  let ?s0 = "from_raw_stream i f r c l"
  have "ws_inv ?s0" "frame_size (config ?s0) \<noteq> 0"
    using ws_inv_new(1) [OF assms(4)] assms(3) by (simp_all add: from_raw_stream_def)
  from transport.reaches_sends [OF assms(1,2) this] obtain frs where "sends E written ?s0 frs s" by blast
  then show ?thesis
    by (auto simp: sends_def outgoing_def from_raw_stream_def protocol_new_def)
qed

theorem connection_sends_whole_frames_witness:
  "\<exists>s frs. reaches std_env (from_raw_stream \<lparr>incoming = [], eof = False, room = [3], sent = []\<rparr> () Server
        config_default limits_default) s
    \<and> sent (io (inner s)) @ contents (frame_queue s) = wire_frames (masks std_env) Server 0 frs
    \<and> \<not> closes (butlast frs)"
proof -
  let ?s0 = "from_raw_stream \<lparr>incoming = [], eof = False, room = [3], sent = []\<rparr> () Server config_default limits_default
    :: (duplex, unit) websocket_stream"
  have "ws_inv ?s0" by (rule ws_inv_new) (simp add: limits_default_def)
  then have fq: "fq_inv (frame_queue ?s0)" by (simp add: ws_inv_def)
  from std_duplex.poll_flush_total [OF fq, of 0] obtain r s where "poll_flush std_env 0 ?s0 = Some (r, s)" by blast
  then have "reaches std_env ?s0 s" by (intro reaches_step [OF reaches_refl] op_poll_flush)
  with connection_sends_whole_frames [OF std_duplex.transport_axioms this] show ?thesis
    by (auto simp: config_default_def limits_default_def)
qed

text \<open>
  C18: Between any two moments of a connection its state only moves forwards, from active over one of
  the two half-closed states to acknowledged, and never back.
\<close>

theorem connection_state_only_forwards:
  assumes "transport U E written" and "reaches E (from_raw_stream i f r c l) s" and "reaches E s s'"
    and "frame_size c \<noteq> 0" and "max_payload_len l \<le> usize_MAX"
  shows "state s = state s' \<or> state s = Active \<or> state s' = CloseAcknowledged"
proof -
  let ?s0 = "from_raw_stream i f r c l"
  have "ws_inv ?s0" "frame_size (config ?s0) \<noteq> 0"
    using ws_inv_new(1) [OF assms(5)] assms(4) by (simp_all add: from_raw_stream_def)
  from transport.reaches_sends [OF assms(1,2) this] have "ws_inv s" "frame_size (config s) \<noteq> 0"
    using assms(4) by (auto simp: sends_def from_raw_stream_def)
  from transport.reaches_sends [OF assms(1,3) this] show ?thesis
    by (auto simp: sends_def less_eq_stream_state_def)
qed

theorem connection_state_only_forwards_witness:
  "\<exists>s s'. start_send std_env (from_raw_stream \<lparr>incoming = [], eof = False, room = [1, 7], sent = []\<rparr> () Client
        config_default limits_default) \<lparr>m_opcode = Close, m_payload = payload_from_bytes []\<rparr> = Some (Inr (), s)
    \<and> reaches std_env s s' \<and> state s = ClosedByUs \<and> (state s' = ClosedByUs \<or> state s' = CloseAcknowledged)"
proof -
  let ?s0 = "from_raw_stream \<lparr>incoming = [], eof = False, room = [1, 7], sent = []\<rparr> () Client
    config_default limits_default :: (duplex, unit) websocket_stream"
  let ?m = "\<lparr>m_opcode = Close, m_payload = payload_from_bytes []\<rparr>"
  let ?t = "queue_frame std_env ?s0 (frame_from_message ?m)"
  have send: "start_send std_env ?s0 ?m = Some (Inr (), ?t)" by (simp add: start_send_def from_raw_stream_def)
  have st: "state ?t = ClosedByUs"
    using std_duplex.queue_frame_eq [of ?s0 "frame_from_message ?m"]
    by (auto simp: frame_from_message_def from_raw_stream_def)
  have "ws_inv ?s0" "state ?s0 = Active"
    by (simp_all add: ws_inv_new limits_default_def) (simp add: from_raw_stream_def)
  from std_duplex.queue_frame_sends(2) [OF this] have "fq_inv (frame_queue ?t)" by (simp add: ws_inv_def)
  from std_duplex.poll_flush_total [OF this, of 0] obtain r s' where "poll_flush std_env 0 ?t = Some (r, s')" by blast
  then have reach: "reaches std_env ?t s'" by (intro reaches_step [OF reaches_refl] op_poll_flush)
  have "reaches std_env ?s0 ?t" using reaches_step [OF reaches_refl op_start_send [OF send]] .
  from connection_state_only_forwards [OF std_duplex.transport_axioms this reach] send st reach show ?thesis
    by (auto simp: config_default_def limits_default_def)
qed

text \<open>
  C19: Flushing always comes to an end, whatever parts the transport accepts. If it succeeds,
  everything queued has been written, in order and exactly once; if it has to wait, the task that
  polled is the one that will be woken; if it fails, the connection is finished. Nothing that was
  queued is lost or repeated in any of the cases.
\<close>

theorem flush_ends_and_writes_in_order:
  assumes "transport U E written" and "fq_inv (frame_queue s)"
  shows "\<exists>r s'. poll_flush E w s = Some (r, s') \<and> fq_inv (frame_queue s')
    \<and> written (io (inner s')) @ contents (frame_queue s') = written (io (inner s)) @ contents (frame_queue s)
    \<and> (r = Ready (Inr ()) \<longrightarrow> written (io (inner s')) = written (io (inner s)) @ contents (frame_queue s)
          \<and> state s' = state s \<and> flushing_waker s' = None)
    \<and> (r = Pending \<longrightarrow> state s' = state s \<and> flushing_waker s' = Some w)
    \<and> (\<forall>e. r = Ready (Inl e) \<longrightarrow> state s' = CloseAcknowledged \<and> flushing_waker s' = None)"
proof -
  from transport.poll_flush_total [OF assms, of w] obtain r s' where
    r: "poll_flush E w s = Some (r, s')" and post: "flush_post written w s r s'" by blast
  show ?thesis
  proof (intro exI conjI)
    show "poll_flush E w s = Some (r, s')" by (rule r)
  qed (use post in \<open>auto simp: flush_post_def outgoing_def\<close>)
qed

theorem flush_ends_and_writes_in_order_witness:
  "\<exists>r s'. poll_flush std_env 7 (from_raw_stream \<lparr>incoming = [], eof = False, room = [], sent = []\<rparr> () Server
        config_default limits_default) = Some (r, s') \<and> fq_inv (frame_queue s')"
proof -
  have "fq_inv (frame_queue (from_raw_stream \<lparr>incoming = [], eof = False, room = [], sent = []\<rparr> () Server
      config_default limits_default))" by (simp add: from_raw_stream_def)
  from flush_ends_and_writes_in_order [OF std_duplex.transport_axioms this, of 7] show ?thesis by blast
qed

text \<open>
  A finished connection stays finished: it reads as ended, nothing is sent any more, and a send
  on any connection that is not active fails without an effect.
\<close>

lemma finished_connection:
  "(state s = CloseAcknowledged \<longrightarrow> is_terminated s \<and> size_hint s = (0, Some 0)
      \<and> poll_next E w s = Some (Ready None, s))
    \<and> (state s \<noteq> Active \<longrightarrow> start_send E s m = Some (Inl AlreadyClosed, s))"
  by (auto simp: is_terminated_def size_hint_def start_send_def poll_next_def poll_next_frame_def
      poll_next_loop.simps [of E w _ s])

end
