(* ===== verification/Stream_Reading.thy ===== *)
theory Stream_Reading
  imports Stream_Closing
begin

text \<open>
  The receiving side of the stream: which task is woken when a flush can go on, and messages from
  end to end, sent by one stream and assembled by the other from reads of any size.
\<close>

subsection \<open>The task that is flushing\<close>

text \<open>
  C30: A task that reads does not take the wakeup from a task that waits in a flush, while the
  connection is active or closed by us: after it has polled for a frame, the flushing task is still
  the one that is registered, or its flush is over, because all that was queued before has been
  written or the connection has failed.
\<close>

theorem reader_keeps_flushing_waker:
  assumes "transport U E written" and "ws_inv s" and "state s \<in> {Active, ClosedByUs}"
    and "flushing_waker s = Some v"
  shows "\<exists>r s'. poll_next_frame E w s = Some (r, s') \<and>
    (flushing_waker s' = Some v
     \<or> flushing_waker s' = None \<and> (state s' = CloseAcknowledged
          \<or> written (io (inner s')) = written (io (inner s)) @ contents (frame_queue s)))"
proof (cases "has_remaining (frame_queue s)")
  case False
  then have eq: "poll_next_frame E w s = read_frame E w s" using assms(3) by (auto simp: poll_next_frame_def)
  from transport.read_frame_sends [OF assms(1-3), of w] assms(4) show ?thesis unfolding eq by auto
next
  case True
  have fq: "fq_inv (frame_queue s)" using assms(2) by (simp add: ws_inv_def)
  from transport.poll_flush_total [OF assms(1) fq, of v] obtain r s1 where
    r: "poll_flush E v s = Some (r, s1)" and post: "flush_post written v s r s1" by blast
  note fs = transport.flush_sends [OF assms(1,2) post]
  show ?thesis
  proof (cases "\<exists>e. r = Ready (Inl e)")
    case failed: True
    then obtain e where "poll_next_frame E w s = Some (Ready (Some (Inl e)), s1)"
      using assms(3,4) r True by (auto simp: poll_next_frame_def)
    then show ?thesis using post failed by (auto simp: flush_post_def)
  next
    case False
    then have eq: "poll_next_frame E w s = read_frame E w s1"
      using assms(3,4) r True by (cases r) (auto simp: poll_next_frame_def split: sum.splits)
    have "state s1 \<in> {Active, ClosedByUs}"
      using post False assms(3) by (auto simp: flush_post_def split: poll.splits sum.splits)
    from transport.read_frame_sends [OF assms(1) fs(2) this, of w] obtain r' s' where
      r': "read_frame E w s1 = Some (r', s')" "flushing_waker s' = flushing_waker s1" by blast
    moreover have "written (io (inner s')) = written (io (inner s1))"
      using transport.read_frame_written [OF assms(1) fs(2) \<open>state s1 \<in> {Active, ClosedByUs}\<close> r'(1)] .
    ultimately show ?thesis unfolding eq using post False
      by (auto simp: flush_post_def outgoing_def split: poll.splits sum.splits)
  qed
qed

theorem reader_keeps_flushing_waker_witness:
  "\<exists>r s'. poll_next_frame std_env 2 ((from_raw_stream \<lparr>incoming = [], eof = False, room = [], sent = []\<rparr> () Server
        config_default limits_default)\<lparr>flushing_waker := Some 1\<rparr>) = Some (r, s')
    \<and> (flushing_waker s' = Some 1 \<or> flushing_waker s' = None)"
proof -
  let ?s = "(from_raw_stream \<lparr>incoming = [], eof = False, room = [], sent = []\<rparr> () Server
    config_default limits_default)\<lparr>flushing_waker := Some 1\<rparr> :: (duplex, unit) websocket_stream"
  have "ws_inv ?s" "state ?s \<in> {Active, ClosedByUs}" "flushing_waker ?s = Some 1"
    by (simp_all add: ws_inv_def from_raw_stream_def protocol_new_def limits_default_def codec_inv_fresh)
  from reader_keeps_flushing_waker [OF std_duplex.transport_axioms this, of 2] show ?thesis by blast
qed

text \<open>
  C31: Once the peer has closed, this care is not taken: a reading task that polls while a flush has
  to wait registers itself in the place of the task that was flushing, which is then not woken by
  the transport any more.
\<close>

theorem reader_takes_flushing_waker_after_close:
  assumes "transport U E written" and "fq_inv (frame_queue s)" and "state s = ClosedByPeer"
    and "flushing_waker s = Some v" and "poll_flush E w s = Some (Pending, s')" and "w \<noteq> v"
  shows "poll_next E w s = Some (Pending, s') \<and> flushing_waker s' = Some w \<and> flushing_waker s' \<noteq> Some v"
proof -
  have "flushing_waker s' = Some w"
    using transport.poll_flush_total [OF assms(1,2), of w] assms(5) by (auto simp: flush_post_def)
  moreover have "poll_next_frame E w s = Some (Pending, s')" using assms(3,5) by (simp add: poll_next_frame_def)
  then have "poll_next E w s = Some (Pending, s')" unfolding poll_next_def by (subst poll_next_loop.simps) simp
  ultimately show ?thesis using assms(6) by simp
qed

theorem reader_takes_flushing_waker_after_close_witness:
  "\<exists>s s'. state s = ClosedByPeer \<and> flushing_waker s = Some 1
    \<and> poll_next std_env 2 s = Some (Pending, s') \<and> flushing_waker s' = Some 2"
proof -
  let ?s0 = "from_raw_stream \<lparr>incoming = [], eof = False, room = [], sent = []\<rparr> () Server
    config_default limits_default :: (duplex, unit) websocket_stream"
  let ?t = "(queue_frame std_env ?s0 DEFAULT_CLOSE)\<lparr>state := ClosedByPeer, flushing_waker := Some 1\<rparr>"
  have "ws_inv ?s0" "state ?s0 = Active"
    by (simp_all add: ws_inv_new limits_default_def) (simp add: from_raw_stream_def)
  from std_duplex.queue_frame_sends(2) [OF this] have fq: "fq_inv (frame_queue ?t)" by (simp add: ws_inv_def)
  have "contents (frame_queue ?t) \<noteq> []"
    using std_duplex.queue_frame_eq [of ?s0 DEFAULT_CLOSE]
    by (auto simp: from_raw_stream_def wire_frame_def wire_head_def)
  then have rem: "has_remaining (frame_queue ?t)" using has_remaining_iff [OF fq] by simp
  have "room (io (inner ?t)) = []" by (simp add: std_duplex.queue_frame_keeps) (simp add: from_raw_stream_def)
  then have "\<exists>s'. poll_flush std_env 2 ?t = Some (Pending, s')"
    using rem by (subst poll_flush.simps) (simp add: duplex_env_def duplex_write_def)
  then obtain s' where "poll_flush std_env 2 ?t = Some (Pending, s')" by blast
  from reader_takes_flushing_waker_after_close [OF std_duplex.transport_axioms fq _ _ this, of 1] show ?thesis
    by (intro exI [of _ ?t] exI [of _ s']) simp
qed

subsection \<open>Reading what the other end has sent\<close>

text \<open>The bytes an in-memory reader has not decoded yet.\<close>

definition unread :: "(duplex, unit) framed_read \<Rightarrow> bytes" where
  "unread fr = buffer fr @ concat (incoming (io fr))"

lemma duplex_read_frame:
  assumes "simdutf8_lib U" and "codec_inv p b0"
    and "decode U pf p (b0 @ concat cs) = Some (Inr (Some f), q, rest)"
  shows "\<exists>cs' p' b'. duplex_read U pf e cs p b0 = (Ready (Some (Inr f)), cs', p', b')
    \<and> b' @ concat cs' = rest \<and> proto_sim p' q"
  using assms(2,3)
proof (induction cs arbitrary: p b0 q rest)
  case Nil
  from simdutf8_lib.decode_total [OF assms(1) Nil(1), of pf] Nil(2) have "validator_inv (validator q)"
    by (auto simp: decode_post_def)
  then show ?case using Nil(2) by (simp add: proto_sim_refl)
next
  case (Cons c cs)
  note resume = simdutf8_lib.decode_resume [OF assms(1) Cons.prems(1), of pf "concat (c # cs)",
      unfolded simdutf8_lib.resumes_def [OF assms(1)]]
  from simdutf8_lib.decode_total [OF assms(1) Cons.prems(1), of pf] obtain d p1 b1 where
    d: "decode U pf p b0 = Some (d, p1, b1)" "d = Inr None \<Longrightarrow> codec_inv p1 b1" "validator_inv (validator p1)"
    by (auto simp: decode_post_def)
  show ?case
  proof (cases d)
    case (Inl e)
    then show ?thesis using resume d(1) Cons.prems(2) by auto
  next
    case (Inr fo)
    show ?thesis
    proof (cases fo)
      case None
      have "result_sim (decode U pf p1 ((b1 @ c) @ concat cs)) (Some (Inr (Some f), q, rest))"
        using resume d(1) Inr None Cons.prems(2) by simp
      then obtain q1 where q1: "decode U pf p1 ((b1 @ c) @ concat cs) = Some (Inr (Some f), q1, rest)" "proto_sim q1 q"
        by (auto elim: result_sim.cases)
      have "codec_inv p1 (b1 @ c)" using d(2) Inr None by (simp add: codec_inv_append)
      from Cons.IH [OF this q1(1)] show ?thesis using d(1) Inr None q1(2) proto_sim_trans by fastforce
    next
      case (Some g)
      then show ?thesis using resume d Inr Cons.prems(2) by (auto intro: proto_sim_refl)
    qed
  qed
qed

text \<open>
  A decoder that waits for a frame of a message with opcode \<open>op\<close> (\<open>Continuation\<close>: for a first
  frame), and has validated the bytes \<open>acc\<close> of a text message.
\<close>

definition awaits :: "websocket_protocol \<Rightarrow> opcode \<Rightarrow> bytes \<Rightarrow> bool" where
  "awaits p op acc \<longleftrightarrow> validator_inv (validator p) \<and> payload_processed p = 0
     \<and> fragmented_message_opcode p = op \<and> utf8_run Boundary (stored (validator p)) = utf8_run Boundary acc"

lemma awaits_took:
  assumes aw: "awaits p op acc" and took: "took_frame p fr q" and sim: "proto_sim p' q"
  shows "awaits p' (if \<not> f_is_final fr \<and> f_opcode fr \<noteq> Continuation then f_opcode fr else op)
      (acc @ (if text_frame p fr then f_payload fr else []))"
    and "role p' = role p" and "limits p' = limits p"
proof -
  let ?x = "if text_frame p fr then f_payload fr else []"
  have "utf8_run Boundary (stored (validator q)) = utf8_run Boundary (stored (validator p) @ ?x)"
    using took by (cases "f_payload fr = []") (simp_all add: took_frame_def)
  then have "utf8_run Boundary (stored (validator p')) = utf8_run Boundary (acc @ ?x)"
    using sim aw unfolding utf8_run_append [of Boundary "stored (validator p)"] utf8_run_append [of Boundary "acc"]
    by (simp add: proto_sim_def validator_sim_def awaits_def)
  then show "awaits p' (if \<not> f_is_final fr \<and> f_opcode fr \<noteq> Continuation then f_opcode fr else op) (acc @ ?x)"
    "role p' = role p" "limits p' = limits p"
    using sim took aw by (auto simp: proto_sim_def same_head_state_def validator_sim_def took_frame_def awaits_def)
qed

text \<open>A stream that is ready to read, perhaps while it closes, over a transport whose writes make progress.\<close>

definition listening :: "(duplex, unit) websocket_stream \<Rightarrow> opcode \<Rightarrow> bytes \<Rightarrow> bool" where
  "listening t op acc \<longleftrightarrow> state t \<in> {Active, ClosedByUs} \<and> fq_inv (frame_queue t) \<and> 0 \<notin> set (room (io (inner t)))
     \<and> awaits (decoder (inner t)) op acc"

text \<open>Nothing is added to what goes out, and for every write of the transport at least a byte has left the queue.\<close>

definition eases :: "(duplex, unit) websocket_stream \<Rightarrow> (duplex, unit) websocket_stream \<Rightarrow> bool" where
  "eases t t1 \<longleftrightarrow> outgoing sent t1 = outgoing sent t \<and> length (contents (frame_queue t1)) + length (room (io (inner t)))
     \<le> length (contents (frame_queue t)) + length (room (io (inner t1)))"

lemma eases_refl [simp]: "eases t t"
  by (simp add: eases_def)

lemma eases_trans: "eases t t1 \<Longrightarrow> eases t1 t2 \<Longrightarrow> eases t t2"
  by (simp add: eases_def)

text \<open>What a call does to a stream while it writes from its queue, and no more.\<close>

definition only_writes :: "(duplex, unit) websocket_stream \<Rightarrow> (duplex, unit) websocket_stream \<Rightarrow> bool" where
  "only_writes t t1 \<longleftrightarrow> fq_inv (frame_queue t1) \<and> set (room (io (inner t1))) \<subseteq> set (room (io (inner t)))
     \<and> incoming (io (inner t1)) = incoming (io (inner t)) \<and> eof (io (inner t1)) = eof (io (inner t))
     \<and> decoder (inner t1) = decoder (inner t) \<and> buffer (inner t1) = buffer (inner t)
     \<and> state t1 = state t \<and> partial_payload t1 = partial_payload t \<and> eases t t1"

lemma duplex_flush:
  assumes "fq_inv (frame_queue t)" and "0 \<notin> set (room (io (inner t)))"
  shows "\<exists>r t1. poll_flush (duplex_env U pf keys) w t = Some (r, t1) \<and> (\<forall>e. r \<noteq> Ready (Inl e)) \<and> only_writes t t1
    \<and> (length (contents (frame_queue t)) \<le> length (room (io (inner t))) \<longrightarrow> r = Ready (Inr ()) \<and> contents (frame_queue t1) = [])"
  using assms
proof (induction "length (contents (frame_queue t))" arbitrary: t rule: less_induct)
  case less
  let ?E = "duplex_env U pf keys" let ?fq = "frame_queue t" let ?d = "io (inner t)"
  note inv = less.prems(1)
  show ?case
  proof (cases "contents ?fq = []")
    case True
    then have "\<not> has_remaining ?fq" using has_remaining_iff [OF inv] by simp
    then show ?thesis using inv True
      by (subst poll_flush.simps) (simp add: flush_io_def duplex_env_def set_io_def Let_def only_writes_def eases_def outgoing_def)
  next
    case False
    then have rem: "has_remaining ?fq" using has_remaining_iff [OF inv] by simp
    show ?thesis
    proof (cases "room ?d")
      case Nil
      then show ?thesis using rem inv False
        by (subst poll_flush.simps)
          (simp add: duplex_env_def duplex_write_def set_io_def Let_def set_flushing_waker_eq only_writes_def eases_def outgoing_def)
    next
      case (Cons n ns)
      from fq.vec_prefix [OF inv, of 64] False obtain cs where
        cs: "chunks_vectored ?fq 64 = Some cs" "prefix (concat cs) (contents ?fq)" "concat cs \<noteq> []" by auto
      define k where "k = min n (length (concat cs))"
      have k: "0 < k" "k \<le> length (contents ?fq)"
        using less.prems(2) Cons cs(3) prefix_length_le [OF cs(2)] by (auto simp: k_def)
      from fq.adv_drop [OF inv k(2)] obtain fq' where
        fq': "advance ?fq k = Some fq'" "fq_inv fq'" "contents fq' = drop k (contents ?fq)" by blast
      let ?t1 = "(set_io t (?d\<lparr>room := ns, sent := sent ?d @ take k (concat cs)\<rparr>))\<lparr>frame_queue := fq'\<rparr>"
      have step: "poll_flush ?E w t = poll_flush ?E w ?t1"
        using rem Cons cs(1) fq'(1) k(1)
        by (subst poll_flush.simps) (simp add: duplex_env_def duplex_write_def Let_def k_def [symmetric])
      have t1: "length (contents (frame_queue ?t1)) < length (contents ?fq)" "fq_inv (frame_queue ?t1)"
        "0 \<notin> set (room (io (inner ?t1)))"
        using fq' k False less.prems(2) Cons by (simp_all add: set_io_def)
      from less.hyps [OF t1] obtain r t2 where
        r: "poll_flush ?E w ?t1 = Some (r, t2)" "\<forall>e. r \<noteq> Ready (Inl e)" "only_writes ?t1 t2"
        and room: "length (contents (frame_queue ?t1)) \<le> length (room (io (inner ?t1)))
            \<longrightarrow> r = Ready (Inr ()) \<and> contents (frame_queue t2) = []" by blast
      have "length (contents ?fq) = k + length (contents fq')" using fq'(3) k(2) by simp
      then have less: "length (contents (frame_queue ?t1)) + length (room ?d) \<le> length (contents ?fq) + length (room (io (inner ?t1)))"
        using k(1) Cons by (simp add: set_io_def)
      moreover have "outgoing sent ?t1 = outgoing sent t"
      proof -
        have "take k (concat cs) = take k (contents ?fq)" using cs(2) by (auto simp: k_def prefix_def)
        then show ?thesis using fq'(3) by (simp add: outgoing_def set_io_def)
      qed
      ultimately have "only_writes t t2" using r(3) Cons by (auto simp: only_writes_def eases_def set_io_def)
      moreover have "length (contents ?fq) \<le> length (room ?d) \<longrightarrow> r = Ready (Inr ()) \<and> contents (frame_queue t2) = []"
        using room less by auto
      ultimately show ?thesis unfolding step using r(1,2) by blast
    qed
  qed
qed

text \<open>Such a stream writes what it can, and reads.\<close>

lemma poll_next_frame_reads:
  assumes t: "listening t op acc"
  shows "\<exists>u. poll_next_frame (duplex_env U pf keys) w t = read_frame (duplex_env U pf keys) w u \<and> only_writes t u
    \<and> (\<not> has_remaining (frame_queue t) \<longrightarrow> frame_queue u = frame_queue t)
    \<and> (length (contents (frame_queue t)) \<le> length (room (io (inner t))) \<longrightarrow> contents (frame_queue u) = [])"
proof -
  let ?E = "duplex_env U pf keys"
  have st: "state t \<in> {Active, ClosedByUs}" "fq_inv (frame_queue t)" "0 \<notin> set (room (io (inner t)))"
    using t by (simp_all add: listening_def)
  show ?thesis
  proof (cases "has_remaining (frame_queue t)")
    case False
    then have "poll_next_frame ?E w t = read_frame ?E w t" using st(1) by (auto simp: poll_next_frame_def)
    moreover have "only_writes t t" using st(2) by (simp add: only_writes_def)
    moreover have "contents (frame_queue t) = []" using False has_remaining_iff [OF st(2)] by simp
    ultimately show ?thesis by auto
  next
    case True
    from duplex_flush [OF st(2,3), of U pf keys "case flushing_waker t of None \<Rightarrow> w | Some v \<Rightarrow> v"] obtain r u where
      r: "poll_flush ?E (case flushing_waker t of None \<Rightarrow> w | Some v \<Rightarrow> v) t = Some (r, u)" "\<forall>e. r \<noteq> Ready (Inl e)"
      and ow: "only_writes t u" "length (contents (frame_queue t)) \<le> length (room (io (inner t))) \<longrightarrow> contents (frame_queue u) = []" by blast
    have "poll_next_frame ?E w t = read_frame ?E w u"
      using True st(1) r by (cases r) (auto simp: poll_next_frame_def split: sum.splits)
    then show ?thesis using ow True by blast
  qed
qed

text \<open>A frame that the other end has sent is what the next call of \<open>poll_next_frame\<close> reads.\<close>

lemma read_sent_frame:
  assumes U: "simdutf8_lib U" and t: "listening t op acc"
    and bytes: "unread (inner t) = wire_frame key fr @ rest" and key: "key_for (role (decoder (inner t))) key"
    and legal: "legal_head (decoder (inner t)) (f_is_final fr) (f_opcode fr) (length (f_payload fr))"
      "legal_payload (decoder (inner t)) fr"
  shows "\<exists>t1. poll_next_frame (duplex_env U pf keys) w t = Some (Ready (Some (Inr fr)), on_frame (duplex_env U pf keys) t1 fr)
    \<and> unread (inner t1) = rest \<and> role (decoder (inner t1)) = role (decoder (inner t))
    \<and> limits (decoder (inner t1)) = limits (decoder (inner t)) \<and> partial_payload t1 = partial_payload t
    \<and> listening t1 (if \<not> f_is_final fr \<and> f_opcode fr \<noteq> Continuation then f_opcode fr else op)
        (acc @ (if text_frame (decoder (inner t)) fr then f_payload fr else []))
    \<and> (\<not> has_remaining (frame_queue t) \<longrightarrow> frame_queue t1 = frame_queue t) \<and> state t1 = state t \<and> eases t t1"
proof -
  let ?E = "duplex_env U pf keys" let ?p = "decoder (inner t)"
  have p: "validator_inv (validator ?p)" "payload_processed ?p = 0" "fragmented_message_opcode ?p = op"
    "utf8_run Boundary (stored (validator ?p)) = utf8_run Boundary acc"
    and st: "state t \<in> {Active, ClosedByUs}" "fq_inv (frame_queue t)" "0 \<notin> set (room (io (inner t)))"
    using t by (simp_all add: listening_def awaits_def)
  obtain u where u: "poll_next_frame ?E w t = read_frame ?E w u" "only_writes t u"
    "\<not> has_remaining (frame_queue t) \<Longrightarrow> frame_queue u = frame_queue t"
    using poll_next_frame_reads [OF t, of U pf keys w] by blast
  have ow: "state u = state t" "fq_inv (frame_queue u)" "0 \<notin> set (room (io (inner u)))" "decoder (inner u) = ?p"
    "buffer (inner u) = buffer (inner t)" "incoming (io (inner u)) = incoming (io (inner t))"
    "partial_payload u = partial_payload t" "eases t u"
    using u(2) st by (auto simp: only_writes_def)
  from simdutf8_lib.decode_wire [OF U p(1,2) key legal] obtain q where
    q: "decode U pf ?p (buffer (inner t) @ concat (incoming (io (inner t)))) = Some (Inr (Some fr), q, rest)"
    and took: "took_frame ?p fr q" using bytes unfolding unread_def by metis
  from duplex_read_frame [OF U codec_inv_fresh [OF p(1,2)] q] obtain cs p' b where
    rd: "duplex_read U pf (eof (io (inner u))) (incoming (io (inner t))) ?p (buffer (inner t)) = (Ready (Some (Inr fr)), cs, p', b)"
    and rest: "b @ concat cs = rest" and sim: "proto_sim p' q" by blast
  let ?t1 = "u\<lparr>inner := (inner u)\<lparr>io := (io (inner u))\<lparr>incoming := cs\<rparr>, decoder := p', buffer := b\<rparr>\<rparr>"
  have next_frame: "poll_next_frame ?E w t = Some (Ready (Some (Inr fr)), on_frame ?E ?t1 fr)"
    unfolding u(1) using rd ow(4-6) by (simp add: read_frame_def duplex_env_def duplex_poll_next_def)
  note p' = awaits_took [OF _ took sim, of op acc]
  show ?thesis
    using next_frame rest p' t ow u(3)
    by (intro exI [of _ ?t1]) (simp add: unread_def listening_def eases_def outgoing_def)
qed

lemma listening_new: "0 \<notin> set (room i) \<Longrightarrow> listening (from_raw_stream i f r c l) Continuation []"
  by (simp add: listening_def awaits_def from_raw_stream_def protocol_new_def)

lemma listening_valid: "listening t op acc \<Longrightarrow> valid_utf8 acc \<Longrightarrow> listening t op []"
  by (simp add: listening_def awaits_def valid_utf8_def)

lemma on_frame_data: "\<not> is_control (f_opcode fr) \<Longrightarrow> on_frame E t fr = t"
  by (auto simp: on_frame_def)

lemma read_sent_data:
  assumes "simdutf8_lib U" and "listening t op acc" and "unread (inner t) = wire_frame key fr @ rest"
    and "key_for (role (decoder (inner t))) key"
    and "legal_head (decoder (inner t)) (f_is_final fr) (f_opcode fr) (length (f_payload fr))"
      "legal_payload (decoder (inner t)) fr" and "\<not> is_control (f_opcode fr)"
  shows "\<exists>t1. poll_next_frame (duplex_env U pf keys) w t = Some (Ready (Some (Inr fr)), t1)
    \<and> unread (inner t1) = rest \<and> role (decoder (inner t1)) = role (decoder (inner t))
    \<and> limits (decoder (inner t1)) = limits (decoder (inner t)) \<and> partial_payload t1 = partial_payload t
    \<and> listening t1 (if \<not> f_is_final fr \<and> f_opcode fr \<noteq> Continuation then f_opcode fr else op)
        (acc @ (if text_frame (decoder (inner t)) fr then f_payload fr else []))
    \<and> (\<not> has_remaining (frame_queue t) \<longrightarrow> frame_queue t1 = frame_queue t) \<and> state t1 = state t \<and> eases t t1"
  using read_sent_frame [OF assms(1-6), of pf keys w] unfolding on_frame_data [OF assms(7)] .

lemma legal_data_frame:
  assumes "awaits p op' acc" and "f_opcode fr = (if op' = Continuation then op else Continuation)"
    and "op \<in> {Text, Binary}" and "op' \<in> {Continuation, op}"
    and "length (f_payload fr) \<le> max_payload_len (limits p)" and "length (f_payload fr) < 2 ^ 64"
    and "op = Text \<Longrightarrow> if f_is_final fr then valid_utf8 (acc @ f_payload fr)
      else utf8_run Boundary (acc @ f_payload fr) \<noteq> None"
  shows "legal_head p (f_is_final fr) (f_opcode fr) (length (f_payload fr))" and "legal_payload p fr"
    and "text_frame p fr \<longleftrightarrow> op = Text" and "\<not> is_control (f_opcode fr)"
proof -
  have run: "utf8_run Boundary (stored (validator p) @ x) = utf8_run Boundary (acc @ x)" for x
    using assms(1) unfolding utf8_run_append by (simp add: awaits_def)
  have frag: "fragmented_message_opcode p = op'" using assms(1) by (simp add: awaits_def)
  show "legal_head p (f_is_final fr) (f_opcode fr) (length (f_payload fr))"
    using assms frag by (auto simp: legal_head_def)
  show istext: "text_frame p fr \<longleftrightarrow> op = Text" using assms frag by (auto simp: text_frame_def split: if_splits)
  show "legal_payload p fr"
    using assms istext unfolding legal_payload_def valid_utf8_def run by (auto simp: valid_utf8_def)
  show "\<not> is_control (f_opcode fr)" using assms by auto
qed

text \<open>
  The frames of a message read back by the loop of \<open>poll_next\<close>: \<open>op'\<close> is \<open>Continuation\<close> before the
  first frame and the opcode of the message after it.
\<close>

lemma valid_prefix: "valid_utf8 (xs @ ys) \<Longrightarrow> utf8_run Boundary xs \<noteq> None"
  using utf8_run_prefix [of Boundary xs ys] by (simp add: valid_utf8_def)

lemma wire_frames_cons:
  "wire_frames keys r k (fr # frs) = wire_frame (if r = Client then keys k else []) fr
     @ wire_frames keys r (if r = Client then k + 1 else k) frs" by simp

lemma poll_next_loop_frames:
  assumes U: "simdutf8_lib U" and keys: "\<And>i. length (ks i) = 4" and "0 < n" and op: "op \<in> {Text, Binary}"
    and "listening t op' (if op = Text then acc else [])" and "op' \<in> {Continuation, op}"
    and "op' = Continuation \<Longrightarrow> acc = []" and "op' \<noteq> Continuation \<Longrightarrow> partial_payload t = acc \<and> bs \<noteq> []"
    and "unread (inner t) = wire_frames ks r k (frames_of n (if op' = Continuation then op else Continuation) bs) @ rest"
    and "r \<noteq> role (decoder (inner t))" and "op = Text \<Longrightarrow> valid_utf8 (acc @ bs)"
    and "length (acc @ bs) \<le> max_len" and "max_len \<le> max_payload_len (limits (decoder (inner t)))" and "length (acc @ bs) < 2 ^ 64"
  shows "\<exists>t'. poll_next_loop (duplex_env U pf keys) w max_len t = Some (Ready (Some (Inr (message_new op (acc @ bs)))), t')
    \<and> unread (inner t') = rest \<and> listening t' Continuation [] \<and> limits (decoder (inner t')) = limits (decoder (inner t))
    \<and> role (decoder (inner t')) = role (decoder (inner t)) \<and> state t' = state t \<and> eases t t'"
  using assms(3,5-)
proof (induction "length bs" arbitrary: t op' acc k bs rule: less_induct)
  case less
  let ?E = "duplex_env U pf keys" let ?p = "decoder (inner t)" let ?o = "if op' = Continuation then op else Continuation"
  let ?d = "if op = Text then acc else []"
  let ?fr = "\<lparr>f_is_final = (length bs \<le> n), f_opcode = ?o, f_payload = take n bs\<rparr>"
  let ?tail = "if length bs \<le> n then [] else frames_of n Continuation (drop n bs)"
  let ?key = "if r = Client then ks k else []" let ?k = "if r = Client then k + 1 else k"
  have n: "0 < n" by (rule less.prems(1))
  have frames: "frames_of n ?o bs = ?fr # ?tail" using n by (subst frames_of.simps) simp
  have aw: "awaits ?p op' ?d" using less.prems(2) by (simp add: listening_def)
  have key: "key_for (role ?p) ?key" using keys less.prems(7) by (cases "role ?p"; cases r) (auto simp: key_for_def)
  have bytes: "unread (inner t) = wire_frame ?key ?fr @ wire_frames ks r ?k ?tail @ rest"
    using less.prems(6) unfolding frames wire_frames_cons by simp
  have "op = Text \<Longrightarrow> if f_is_final ?fr then valid_utf8 (?d @ f_payload ?fr) else utf8_run Boundary (?d @ f_payload ?fr) \<noteq> None"
    using less.prems(8) valid_prefix [of "acc @ take n bs" "drop n bs"] by simp
  note legal = legal_data_frame [OF aw, of ?fr op, OF _ op less.prems(3) _ _ this]
  have small: "length (f_payload ?fr) \<le> max_payload_len (limits ?p)" "length (f_payload ?fr) < 2 ^ 64"
    using less.prems(9-11) by auto
  have lg: "legal_head ?p (f_is_final ?fr) (f_opcode ?fr) (length (f_payload ?fr))" "legal_payload ?p ?fr"
    "\<not> is_control (f_opcode ?fr)" "text_frame ?p ?fr \<longleftrightarrow> op = Text" using legal small by simp_all
  from read_sent_data [OF U less.prems(2) bytes key lg(1-3), of pf keys w] obtain t1 where
    nf: "poll_next_frame ?E w t = Some (Ready (Some (Inr ?fr)), t1)"
    and t1: "unread (inner t1) = wire_frames ks r ?k ?tail @ rest" "role (decoder (inner t1)) = role ?p"
      "limits (decoder (inner t1)) = limits ?p" "partial_payload t1 = partial_payload t"
      "listening t1 (if \<not> f_is_final ?fr \<and> f_opcode ?fr \<noteq> Continuation then f_opcode ?fr else op')
        (?d @ (if text_frame ?p ?fr then f_payload ?fr else []))"
      "state t1 = state t" "eases t t1"
    by blast
  have li: "listening t1 (if length bs \<le> n then op' else op) (if op = Text then acc @ take n bs else [])"
    using t1(5) lg(4) less.prems(3) op by (auto split: if_splits)
  have fit: "\<not> max_len < length acc + length (take n bs)" using less.prems(9) by simp
  have loop: "poll_next_loop ?E w max_len t = (case assemble max_len t1 ?fr of
      Inl (m, s2) \<Rightarrow> Some (Ready (Some m), s2) | Inr s2 \<Rightarrow> poll_next_loop ?E w max_len s2)"
    by (subst poll_next_loop.simps) (simp add: nf)
  show ?case
  proof (cases "length bs \<le> n")
    case True
    have li0: "listening t1 op' []"
      using li True less.prems(8) listening_valid [of t1 op' "acc @ bs"] by (cases "op = Text") simp_all
    show ?thesis
    proof (cases "op' = Continuation")
      case first: True
      then have "assemble max_len t1 ?fr = Inl (Inr (message_new op bs), t1)"
        using True op by (auto simp: assemble_def)
      then show ?thesis using t1(1-3,6,7) li0 True first less.prems(4) unfolding loop by simp
    next
      case False
      then have op': "op' = op" using less.prems(3) by simp
      let ?t2 = "t1\<lparr>inner := (inner t1)\<lparr>decoder := (decoder (inner t1))\<lparr>fragmented_message_opcode := Continuation\<rparr>\<rparr>,
        partial_payload := []\<rparr>"
      have "fragmented_message_opcode (decoder (inner t1)) = op" using li0 op' by (simp add: listening_def awaits_def)
      then have "assemble max_len t1 ?fr = Inl (Inr (message_new op (acc @ bs)), ?t2)"
        using True False op' fit less.prems(5) t1(4) by (simp add: assemble_def take_message_opcode_def)
      moreover have "listening ?t2 Continuation []" using li0 by (simp add: listening_def awaits_def)
      moreover have "eases t ?t2" using t1(7) by (simp add: eases_def outgoing_def)
      ultimately show ?thesis using t1(1-3,6) True unfolding loop by (simp add: unread_def)
    qed
  next
    case False
    let ?t2 = "t1\<lparr>partial_payload := acc @ take n bs\<rparr>"
    have as: "assemble max_len t1 ?fr = Inr ?t2"
      using False fit op less.prems(4,5) t1(4) by (cases "op' = Continuation") (auto simp: assemble_def)
    have "listening ?t2 op (if op = Text then acc @ take n bs else [])"
      using li False by (simp add: listening_def)
    moreover have "unread (inner ?t2) = wire_frames ks r ?k (frames_of n (if op = Continuation then op else Continuation) (drop n bs)) @ rest"
      using t1(1) False op by auto
    moreover have "length (drop n bs) < length bs" using False n by simp
    ultimately have "\<exists>t'. poll_next_loop ?E w max_len ?t2
        = Some (Ready (Some (Inr (message_new op ((acc @ take n bs) @ drop n bs)))), t')
      \<and> unread (inner t') = rest \<and> listening t' Continuation [] \<and> limits (decoder (inner t')) = limits (decoder (inner ?t2))
      \<and> role (decoder (inner t')) = role (decoder (inner ?t2)) \<and> state t' = state ?t2 \<and> eases ?t2 t'"
      using less.prems(7-11) False n op t1(2,3) by (intro less.hyps [of "drop n bs" ?t2 op "acc @ take n bs" ?k]) auto
    then obtain t' where t': "poll_next_loop ?E w max_len ?t2
        = Some (Ready (Some (Inr (message_new op ((acc @ take n bs) @ drop n bs)))), t')" "unread (inner t') = rest"
      "listening t' Continuation []" "limits (decoder (inner t')) = limits (decoder (inner ?t2))"
      "role (decoder (inner t')) = role (decoder (inner ?t2))" "state t' = state ?t2" "eases ?t2 t'" by blast
    moreover have "eases t t'" using eases_trans [OF t1(7), of t'] t'(7) by (simp add: eases_def outgoing_def)
    ultimately show ?thesis using as t1(2,3,6) unfolding loop by simp
  qed
qed

lemma start_send_frames:
  assumes "transport V E written" and "ws_inv s" and "state s = Active" and "frame_size (config s) \<noteq> 0"
    and "\<not> is_control (m_opcode m)"
  shows "\<exists>s'. start_send E s m = Some (Inr (), s') \<and> outgoing written s' = outgoing written s
    @ wire_frames (masks E) (role (decoder (inner s))) (masks_drawn s)
        (frames_of (frame_size (config s)) (m_opcode m) (data (m_payload m)))"
  using transport.start_send_sends [OF assms(1,2,4), of m] assms(3,5) by (auto simp: sends_def)

text \<open>
  Messages go from end to end unchanged: what one end sends as a text message (in UTF-8) or a
  binary message within the limit of the receiver, split into frames of any size, masked with any
  keys and read in pieces of any size, the other end returns as this message from one call of
  \<open>poll_next\<close>, with exactly the bytes behind it left over, ready for the next message.
\<close>

lemma message_roundtrip:
  assumes "transport V E written" and "ws_inv s" and "state s = Active" and "frame_size (config s) \<noteq> 0"
    and "simdutf8_lib U" and "listening t Continuation []"
    and "role (decoder (inner t)) \<noteq> role (decoder (inner s))"
    and "m_opcode m \<in> {Text, Binary}" and "m_opcode m = Text \<Longrightarrow> valid_utf8 (data (m_payload m))"
    and "length (data (m_payload m)) \<le> max_payload_len (limits (decoder (inner t)))"
    and "length (data (m_payload m)) < 2 ^ 64"
  shows "\<exists>s' bs. start_send E s m = Some (Inr (), s') \<and> outgoing written s' = outgoing written s @ bs
    \<and> (unread (inner t) = bs @ rest \<longrightarrow>
        (\<exists>t'. poll_next (duplex_env U pf keys) w t
            = Some (Ready (Some (Inr (message_new (m_opcode m) (data (m_payload m))))), t')
          \<and> unread (inner t') = rest \<and> listening t' Continuation []))"
proof -
  let ?frs = "frames_of (frame_size (config s)) (m_opcode m) (data (m_payload m))"
  let ?bs = "wire_frames (masks E) (role (decoder (inner s))) (masks_drawn s) ?frs"
  from start_send_frames [OF assms(1-4), of m] assms(8) obtain s' where
    s': "start_send E s m = Some (Inr (), s')" "outgoing written s' = outgoing written s @ ?bs" by auto
  have "\<exists>t'. poll_next (duplex_env U pf keys) w t
      = Some (Ready (Some (Inr (message_new (m_opcode m) (data (m_payload m))))), t')
    \<and> unread (inner t') = rest \<and> listening t' Continuation []" if "unread (inner t) = ?bs @ rest"
    using poll_next_loop_frames [where ks = "masks E" and n = "frame_size (config s)"
        and op = "m_opcode m" and op' = Continuation and acc = "[]" and t = t and bs = "data (m_payload m)"
        and r = "role (decoder (inner s))" and k = "masks_drawn s" and rest = rest
        and max_len = "max_payload_len (limits (decoder (inner t)))" and pf = pf and keys = keys and w = w,
        OF assms(5) transport.key_length [OF assms(1)]]
      that assms by (auto simp: poll_next_def)
  then show ?thesis using s' by blast
qed

text \<open>
  C32: A fragmented message that outgrows the limit is reported as too long, but the connection goes
  on: it stays active, nothing is sent to the peer, and the frame that broke the limit is dropped
  from the middle of the message. If the last frame is short enough, the next call returns the
  message with this hole in it.
\<close>

theorem too_long_fragment_leaves_hole:
  assumes U: "simdutf8_lib U" and t: "listening t Continuation []" and "\<not> has_remaining (frame_queue t) \<and> state t = Active"
    and "role (decoder (inner t)) = Client" and m: "m = max_payload_len (limits (decoder (inner t)))"
    and unread: "unread (inner t) =
      wire_frame [] \<lparr>f_is_final = False, f_opcode = Binary, f_payload = xs\<rparr>
      @ wire_frame [] \<lparr>f_is_final = False, f_opcode = Continuation, f_payload = ys\<rparr>
      @ wire_frame [] \<lparr>f_is_final = True, f_opcode = Continuation, f_payload = zs\<rparr> @ rest"
    and "length ys \<le> m" and "m < length xs + length ys" and "length xs + length zs \<le> m" and "m < 2 ^ 64"
  shows "\<exists>t1 t2. poll_next (duplex_env U pf keys) w t
      = Some (Ready (Some (Inl (PayloadTooLong (length xs + length ys) m))), t1)
    \<and> state t1 = Active \<and> frame_queue t1 = frame_queue t
    \<and> poll_next (duplex_env U pf keys) w t1 = Some (Ready (Some (Inr (message_new Binary (xs @ zs)))), t2)"
proof -
  let ?E = "duplex_env U pf keys"
  let ?f1 = "\<lparr>f_is_final = False, f_opcode = Binary, f_payload = xs\<rparr>"
  let ?f2 = "\<lparr>f_is_final = False, f_opcode = Continuation, f_payload = ys\<rparr>"
  let ?f3 = "\<lparr>f_is_final = True, f_opcode = Continuation, f_payload = zs\<rparr>"
  have step: "\<exists>u1. poll_next_frame ?E w u = Some (Ready (Some (Inr f)), u1) \<and> unread (inner u1) = rest'
      \<and> listening u1 Binary [] \<and> role (decoder (inner u1)) = Client \<and> limits (decoder (inner u1)) = limits (decoder (inner u))
      \<and> partial_payload u1 = partial_payload u \<and> frame_queue u1 = frame_queue t \<and> state u1 = state u"
    if u: "listening u op' []" "role (decoder (inner u)) = Client" "max_payload_len (limits (decoder (inner u))) = m"
      "unread (inner u) = wire_frame [] f @ rest'" "frame_queue u = frame_queue t"
      and f: "f_opcode f = (if op' = Continuation then Binary else Continuation)"
      "op' \<in> {Continuation, Binary}" "op' = Continuation \<Longrightarrow> \<not> f_is_final f" "length (f_payload f) \<le> m" for u f op' rest'
  proof -
    have aw: "awaits (decoder (inner u)) op' []" using u(1) by (simp add: listening_def)
    have key: "key_for (role (decoder (inner u))) []" using u(2) by (simp add: key_for_def)
    have "length (f_payload f) < 2 ^ 64" using f(4) assms(10) by linarith
    then have legal: "legal_head (decoder (inner u)) (f_is_final f) (f_opcode f) (length (f_payload f))"
      "legal_payload (decoder (inner u)) f" "\<not> text_frame (decoder (inner u)) f" "\<not> is_control (f_opcode f)"
      using legal_data_frame [OF aw f(1), OF _ f(2)] f(4) u(3) by simp_all
    from read_sent_data [OF U u(1) u(4) key legal(1,2,4), of pf keys w] show ?thesis
      using u f assms(3) legal(3) by (auto split: if_splits)
  qed
  have lens: "length xs \<le> m" "length zs \<le> m" using assms(9) by simp_all
  from step [OF t assms(4) m [symmetric] unread refl] lens obtain r1 where
    r1: "poll_next_frame ?E w t = Some (Ready (Some (Inr ?f1)), r1)"
      "unread (inner r1) = wire_frame [] ?f2 @ wire_frame [] ?f3 @ rest" "listening r1 Binary []"
      "role (decoder (inner r1)) = Client" "limits (decoder (inner r1)) = limits (decoder (inner t))"
      "frame_queue r1 = frame_queue t" "state r1 = Active" using assms(3) by auto
  let ?t1 = "r1\<lparr>partial_payload := xs\<rparr>"
  have "listening ?t1 Binary []" using r1(3) by (simp add: listening_def)
  from step [of ?t1, OF this, of ?f2 "wire_frame [] ?f3 @ rest"] r1(2,4-6) m assms(7) obtain r2 where
    r2: "poll_next_frame ?E w ?t1 = Some (Ready (Some (Inr ?f2)), r2)"
      "unread (inner r2) = wire_frame [] ?f3 @ rest" "listening r2 Binary []"
      "role (decoder (inner r2)) = Client" "limits (decoder (inner r2)) = limits (decoder (inner t))"
      "partial_payload r2 = xs" "frame_queue r2 = frame_queue t" "state r2 = Active" using r1(7) by auto
  from step [of r2, OF r2(3,4), of ?f3 rest] r2(2,5,7) m lens obtain r3 where
    r3: "poll_next_frame ?E w r2 = Some (Ready (Some (Inr ?f3)), r3)" "listening r3 Binary []" "partial_payload r3 = xs"
    using r2(6) by auto
  have a1: "assemble m r1 ?f1 = Inr ?t1" by (simp add: assemble_def)
  have a2: "assemble m r2 ?f2 = Inl (Inl (PayloadTooLong (length xs + length ys) m), r2)"
    using assms(8) r2(6) by (simp add: assemble_def)
  have frag: "fragmented_message_opcode (decoder (inner r3)) = Binary" using r3(2) by (simp add: listening_def awaits_def)
  have a3: "\<exists>t3. assemble m r3 ?f3 = Inl (Inr (message_new Binary (xs @ zs)), t3)"
    using assms(9) frag r3(3) by (simp add: assemble_def take_message_opcode_def Let_def)
  have "poll_next_loop ?E w m t = Some (Ready (Some (Inl (PayloadTooLong (length xs + length ys) m))), r2)"
    using r1(1) a1 r2(1) a2 by (subst poll_next_loop.simps, simp, subst poll_next_loop.simps, simp)
  moreover have "\<exists>t3. poll_next_loop ?E w m r2 = Some (Ready (Some (Inr (message_new Binary (xs @ zs)))), t3)"
    using r3(1) a3 by (subst poll_next_loop.simps) auto
  ultimately show ?thesis using m r2(5,7,8) by (auto simp: poll_next_def)
qed

theorem too_long_fragment_leaves_hole_witness:
  "\<exists>t1 t2. poll_next std_env 0 (from_raw_stream \<lparr>incoming = [[0x02, 2, 1, 2, 0x00, 2, 3, 4, 0x80, 1, 5]], eof = False, room = [], sent = []\<rparr> ()
        Client config_default \<lparr>max_payload_len = 3\<rparr>) = Some (Ready (Some (Inl (PayloadTooLong 4 3))), t1)
    \<and> poll_next std_env 0 t1 = Some (Ready (Some (Inr (message_new Binary [1, 2, 5]))), t2)"
proof -
  let ?t = "from_raw_stream \<lparr>incoming = [[0x02, 2, 1, 2, 0x00, 2, 3, 4, 0x80, 1, 5]], eof = False, room = [], sent = []\<rparr> ()
    Client config_default \<lparr>max_payload_len = 3\<rparr> :: (duplex, unit) websocket_stream"
  have t: "listening ?t Continuation []" "\<not> has_remaining (frame_queue ?t) \<and> state ?t = Active" "role (decoder (inner ?t)) = Client"
    "3 = max_payload_len (limits (decoder (inner ?t)))"
    by (simp_all add: listening_new) (simp_all add: from_raw_stream_def protocol_new_def has_remaining_iff)
  have "unread (inner ?t) =
      wire_frame [] \<lparr>f_is_final = False, f_opcode = Binary, f_payload = [1, 2]\<rparr>
      @ wire_frame [] \<lparr>f_is_final = False, f_opcode = Continuation, f_payload = [3, 4]\<rparr>
      @ wire_frame [] \<lparr>f_is_final = True, f_opcode = Continuation, f_payload = [5]\<rparr> @ []"
    by (simp add: unread_def from_raw_stream_def wire_frame_def wire_head_def len7_def ext_len_def mask_if_def)
  from too_long_fragment_leaves_hole [OF std.simdutf8_lib_axioms t this, of scalar_platform
      "\<lambda>_. [0x37, 0xFA, 0x21, 0x3D]" 0] show ?thesis by auto
qed

end
