(* ===== verification/Stream_Messages.thy ===== *)
theory Stream_Messages
  imports Stream_Closing
begin

text \<open>
  What a reader can count on, whatever the peer sends: the shape of the messages that \<open>poll_next\<close>
  returns, the validity of their text, and that the reading loops end.
\<close>

subsection \<open>The frames of the decoder\<close>

lemma decode_frame_legal:
  assumes "decode U pf p src = Some (Inr (Some f), p', src')"
  shows "legal_head p (f_is_final f) (f_opcode f) (length (f_payload f))"
    and "fragmented_message_opcode p' =
      (if \<not> f_is_final f \<and> f_opcode f \<noteq> Continuation then f_opcode f else fragmented_message_opcode p)"
proof -
  from assms obtain h where head: "decode_head p src = Inr (Some h)"
    by (auto simp: decode_def split: sum.splits option.splits)
  have finish: "f_is_final f = fin h \<and> f_opcode f = opcode h \<and> length (f_payload f) = payload_length h \<and>
      fragmented_message_opcode p' = (if \<not> fin h \<and> opcode h \<noteq> Continuation then opcode h else fragmented_message_opcode q)"
    if "decode_finish q src1 h = Some (Inr (Some f), p', src')" for q src1
    using that by (auto simp: decode_finish_def slice_eq_Some_iff split: option.splits)
  have unmasked: "f_is_final f = fin h \<and> f_opcode f = opcode h \<and> length (f_payload f) = payload_length h \<and>
      fragmented_message_opcode p' = (if \<not> fin h \<and> opcode h \<noteq> Continuation then opcode h else fragmented_message_opcode p)"
    if "decode_unmasked U p src1 h avail pay = Some (Inr (Some f), p', src')" for src1 avail pay
  proof -
    from that obtain q where "decode_finish q src1 h = Some (Inr (Some f), p', src')"
      "fragmented_message_opcode q = fragmented_message_opcode p"
      by (auto simp: decode_unmasked_def Let_def split: option.splits sum.splits prod.splits if_splits)
    then show ?thesis using finish by metis
  qed
  have eqs: "f_is_final f = fin h \<and> f_opcode f = opcode h \<and> length (f_payload f) = payload_length h \<and>
      fragmented_message_opcode p' = (if \<not> fin h \<and> opcode h \<noteq> Continuation then opcode h else fragmented_message_opcode p)"
  proof (cases "payload_length h = 0")
    case True
    then show ?thesis using assms head finish by (simp add: decode_def)
  next
    case False
    then show ?thesis using assms head unmasked
      by (auto simp: decode_def decode_payload_def Let_def split: option.splits prod.splits)
  qed
  then show "legal_head p (f_is_final f) (f_opcode f) (length (f_payload f))"
    using decode_head_sound(1) [OF head] by simp
  show "fragmented_message_opcode p' =
      (if \<not> f_is_final f \<and> f_opcode f \<noteq> Continuation then f_opcode f else fragmented_message_opcode p)"
    using eqs by simp
qed

lemma legal_head_cong: "same_head_state p q \<Longrightarrow> legal_head p = legal_head q"
  by (intro ext) (simp add: legal_head_def same_head_state_def)

context simdutf8_lib
begin

lemma decode_close_legal:
  assumes dec: "decode U pf p src = Some (Inr (Some f), p', src')" and op: "f_opcode f = Close"
  shows "legal_close (f_payload f)"
proof -
  from dec obtain h where head: "decode_head p src = Inr (Some h)"
    by (auto simp: decode_def split: sum.splits option.splits)
  have finish: "f_opcode f = opcode h \<and> slice src1 (offset h) (offset h + payload_length h) = Some (f_payload f)"
    if "decode_finish q src1 h = Some (Inr (Some f), p', src')" for q src1
    using that by (auto simp: decode_finish_def split: option.splits)
  have len: "length (f_payload f) \<noteq> 1" using decode_frame_legal(1) [OF dec] op by (simp add: legal_head_def)
  have checked: "legal_close (f_payload f)"
    if chk: "check_close U h src1 = Some (Inr ())" and pay: "slice src1 (offset h) (offset h + payload_length h) = Some (f_payload f)" for src1
  proof (cases "f_payload f = []")
    case False
    let ?o = "offset h" and ?n = "payload_length h"
    from pay have bounds: "?o + ?n \<le> length src1" and f: "f_payload f = take ?n (drop ?o src1)" by (auto simp: slice_eq_Some_iff drop_take)
    have "src1 = take ?o src1 @ f_payload f @ drop ?n (drop ?o src1)" by (simp only: f append_take_drop_id)
    moreover have "length (take ?o src1) = ?o" "length (f_payload f) = ?n" using bounds by (simp_all add: f)
    moreover have "2 \<le> length (f_payload f)" using False len by (cases "f_payload f"; cases "tl (f_payload f)") auto
    ultimately show ?thesis using check_close_layout(1) [of "take ?o src1" h "f_payload f" "drop ?n (drop ?o src1)"] chk by simp
  qed (simp add: legal_close_def)
  have unmasked: "legal_close (f_payload f)" if um: "decode_unmasked U p src1 h avail pay = Some (Inr (Some f), p', src')" for src1 avail pay
  proof -
    from um obtain q where q: "decode_finish q src1 h = Some (Inr (Some f), p', src')"
      and "opcode h = Close \<Longrightarrow> check_close U h src1 = Some (Inr ())"
      by (auto simp: decode_unmasked_def Let_def split: option.splits sum.splits prod.splits if_splits)
    then show ?thesis using finish [OF q] op checked by simp
  qed
  show ?thesis
  proof (cases "payload_length h = 0")
    case True
    then have "slice src (offset h) (offset h + 0) = Some (f_payload f)" using dec head finish by (auto simp: decode_def)
    then show ?thesis by (simp add: slice_eq_Some_iff legal_close_def)
  next
    case False
    then show ?thesis using dec head unmasked
      by (auto simp: decode_def decode_payload_def Let_def split: option.splits prod.splits)
  qed
qed

lemma decode_reads_frame:
  assumes "codec_inv p src" and "decode_reads U pf p src cs = Some (Inr fo, p', src')"
  shows "limits p' = limits p" and "role p' = role p"
    and "fo = None \<Longrightarrow> fragmented_message_opcode p' = fragmented_message_opcode p"
    and "fo = Some f \<Longrightarrow> legal_head p (f_is_final f) (f_opcode f) (length (f_payload f))"
    and "fo = Some f \<Longrightarrow> fragmented_message_opcode p' =
      (if \<not> f_is_final f \<and> f_opcode f \<noteq> Continuation then f_opcode f else fragmented_message_opcode p)"
    and "fo = Some f \<Longrightarrow> f_opcode f = Close \<Longrightarrow> legal_close (f_payload f)"
  using assms
proof (atomize (full), induction cs arbitrary: p src)
  case Nil
  then have d: "decode U pf p src = Some (Inr fo, p', src')" by simp
  from decode_total [OF Nil(1), of pf] d have "limits p' = limits p" "role p' = role p"
    "fo = None \<Longrightarrow> same_head_state p p'" by (auto simp: decode_post_def)
  then show ?case using decode_frame_legal [of U pf p src f p' src'] decode_close_legal [of pf p src f p' src'] d
    by (auto simp: same_head_state_def)
next
  case (Cons c cs)
  from decode_total [OF Cons.prems(1), of pf] obtain r p1 src1 where
    r: "decode U pf p src = Some (r, p1, src1)" and post: "role p1 = role p" "limits p1 = limits p"
    "r = Inr None \<Longrightarrow> codec_inv p1 src1 \<and> same_head_state p p1"
    by (auto simp: decode_post_def)
  show ?case
  proof (cases "r = Inr None")
    case True
    then have "codec_inv p1 (src1 @ c)" "same_head_state p p1" using post(3) codec_inv_append by auto
    moreover have "decode_reads U pf p1 (src1 @ c) cs = Some (Inr fo, p', src')" using Cons.prems(2) r True by simp
    ultimately show ?thesis
      using Cons.IH [of p1 "src1 @ c"] legal_head_cong [of p p1] by (auto simp: same_head_state_def)
  next
    case False
    have "decode_reads U pf p src (c # cs) = Some (r, p1, src1 @ concat (c # cs))"
      using r False by (cases r; cases "projr r") auto
    then have eqs: "Inr fo = r" "p' = p1" using Cons.prems(2) by simp_all
    then have "fo \<noteq> None" "decode U pf p src = Some (Inr fo, p', src1)" using False r by auto
    then show ?thesis using decode_frame_legal [of U pf p src f p' src1] decode_close_legal [of pf p src f p' src1] post(1,2) eqs
      by auto
  qed
qed

end

subsection \<open>One frame of the stream\<close>

text \<open>
  What a call that reads a frame does to the decoder and the read buffer: nothing, or what the
  decoder does to them over some reads.
\<close>

definition frame_read ::
  "simdutf8 \<Rightarrow> platform \<Rightarrow> ('io, 'f) websocket_stream \<Rightarrow> (error + wsframe) option poll \<Rightarrow> ('io, 'f) websocket_stream \<Rightarrow> bool" where
  "frame_read U pf s r s' \<longleftrightarrow>
     decoder (inner s') = decoder (inner s) \<and> buffer (inner s') = buffer (inner s) \<and> (\<forall>f. r \<noteq> Ready (Some (Inr f))) \<or>
     codec_inv (decoder (inner s)) (buffer (inner s)) \<and>
     (\<exists>cs d. decode_reads U pf (decoder (inner s)) (buffer (inner s)) cs = Some (d, decoder (inner s'), buffer (inner s')) \<and>
        (case r of Ready (Some (Inr f)) \<Rightarrow> d = Inr (Some f) | Ready (Some (Inl e)) \<Rightarrow> True | _ \<Rightarrow> d = Inr None))"

context transport
begin

lemma on_read_error_result: "on_read_error E s e = Some (r, s') \<Longrightarrow> r = Ready (Some (Inl e))"
  by (auto simp: on_read_error_def Let_def split: if_splits option.splits)

lemma read_frame_read:
  assumes inv: "ws_inv s" and st: "state s \<in> {Active, ClosedByUs}" and rf: "read_frame E w s = Some (r, s')"
  shows "frame_read U (cpu E) s r s'"
proof -
  have cinv: "codec_inv (decoder (inner s)) (buffer (inner s))" using inv st unfolding ws_inv_def by blast
  obtain rd fr where rd: "framed_poll_next E w (inner s) = (rd, fr)" by (cases "framed_poll_next E w (inner s)")
  from read [OF cinv rd] obtain cs d where
    d: "decode_reads U (cpu E) (decoder (inner s)) (buffer (inner s)) cs = Some (d, decoder fr, buffer fr)"
    and rd_d: "case rd of Pending \<Rightarrow> d = Inr None | Ready None \<Rightarrow> d = Inr None | Ready (Some (Inr f)) \<Rightarrow> d = Inr (Some f)
      | Ready (Some (Inl e)) \<Rightarrow> d = Inl e \<or> (d = Inr None \<and> (\<exists>x. e = Io x))"
    unfolding read_result_def by blast
  have inner: "inner s' = fr" using read_frame_inner [OF rf] rd by simp
  have "r = rd"
    using rf rd by (auto simp: read_frame_def Let_def dest!: on_read_error_result split: poll.splits option.splits sum.splits)
  then have "case r of Ready (Some (Inr f)) \<Rightarrow> d = Inr (Some f) | Ready (Some (Inl e)) \<Rightarrow> True | _ \<Rightarrow> d = Inr None"
    using rd_d by (auto split: poll.splits option.splits sum.splits)
  then show ?thesis using cinv d inner unfolding frame_read_def by blast
qed

lemma poll_next_frame_read:
  assumes inv: "ws_inv s" and pf: "poll_next_frame E w s = Some (r, s')"
  shows "frame_read U (cpu E) s r s'"
proof -
  have fq: "fq_inv (frame_queue s)" using inv by (simp add: ws_inv_def)
  consider (ack) "state s = CloseAcknowledged" | (peer) "state s = ClosedByPeer"
    | (read) "state s \<in> {Active, ClosedByUs}" by (cases "state s") auto
  then show ?thesis
  proof cases
    case ack
    then show ?thesis using pf by (auto simp: poll_next_frame_def frame_read_def)
  next
    case peer
    from poll_flush_total [OF fq, of w] obtain r1 s1 where
      r1: "poll_flush E w s = Some (r1, s1)" and post: "flush_post written w s r1 s1" by blast
    have "decoder (inner s1) = decoder (inner s) \<and> buffer (inner s1) = buffer (inner s)"
      using post by (simp add: flush_post_def same_besides_io_def)
    then show ?thesis using pf peer r1
      by (cases r1) (auto simp: poll_next_frame_def frame_read_def split: sum.splits)
  next
    case read
    show ?thesis
    proof (cases "has_remaining (frame_queue s)")
      case False
      then show ?thesis using pf read by (auto simp: poll_next_frame_def intro: read_frame_read [OF inv])
    next
      case True
      let ?w = "case flushing_waker s of None \<Rightarrow> w | Some v \<Rightarrow> v"
      from poll_flush_total [OF fq, of ?w] obtain r1 s1 where
        r1: "poll_flush E ?w s = Some (r1, s1)" and post: "flush_post written ?w s r1 s1" by blast
      note fs = flush_sends [OF inv post]
      have same: "decoder (inner s1) = decoder (inner s) \<and> buffer (inner s1) = buffer (inner s)"
        using post by (simp add: flush_post_def same_besides_io_def)
      show ?thesis
      proof (cases "\<exists>e. r1 = Ready (Inl e)")
        case err: True
        then show ?thesis using pf read r1 True same by (auto simp: poll_next_frame_def frame_read_def)
      next
        case ok: False
        then have eq: "poll_next_frame E w s = read_frame E w s1"
          using read r1 True by (cases r1) (auto simp: poll_next_frame_def split: sum.splits)
        have "state s1 \<in> {Active, ClosedByUs}"
          using post ok read by (auto simp: flush_post_def split: poll.splits sum.splits)
        from read_frame_read [OF fs(2) this] pf eq have "frame_read U (cpu E) s1 r s'" by simp
        then show ?thesis using same by (simp add: frame_read_def)
      qed
    qed
  qed
qed

end

subsection \<open>The shape of messages\<close>

text \<open>Between two operations the message being assembled is within the limit, and of a data type.\<close>

definition reading_inv :: "('io, 'f) websocket_stream \<Rightarrow> bool" where
  "reading_inv s \<longleftrightarrow> ws_inv s \<and> length (partial_payload s) \<le> max_payload_len (limits (decoder (inner s)))
     \<and> \<not> is_control (fragmented_message_opcode (decoder (inner s)))"

lemma reading_inv_new:
  "max_payload_len l \<le> usize_MAX \<Longrightarrow> reading_inv (from_raw_stream i f r c l)"
  "max_payload_len l \<le> usize_MAX \<Longrightarrow> reading_inv (from_framed fr r c l)"
  by (simp_all add: reading_inv_def ws_inv_new)
    (simp_all add: from_raw_stream_def from_framed_def protocol_new_def)

definition message_shape :: "usize \<Rightarrow> message \<Rightarrow> bool" where
  "message_shape max_len m \<longleftrightarrow> m_opcode m \<noteq> Continuation \<and> length (data (m_payload m)) \<le> max_len
     \<and> (is_control (m_opcode m) \<longrightarrow> length (data (m_payload m)) \<le> 125)
     \<and> (m_opcode m = Close \<longrightarrow> legal_close (data (m_payload m)))"

lemma close_shape_as_close:
  "message_shape max_len m \<Longrightarrow> m_opcode m = Close \<Longrightarrow>
     \<exists>c reason. as_close (message_new Close (data (m_payload m))) = Some (Some (c, reason))"
  using legal_close_as_close by (simp add: message_shape_def)

lemma assemble_shape:
  assumes "length (partial_payload s) \<le> max_len" and "length (f_payload f) \<le> max_len"
    and "is_control (f_opcode f) \<Longrightarrow> f_is_final f \<and> length (f_payload f) \<le> 125"
    and "f_opcode f = Close \<Longrightarrow> legal_close (f_payload f)"
    and frag: "f_opcode f = Continuation \<Longrightarrow> f_is_final f \<Longrightarrow>
      fragmented_message_opcode (decoder (inner s)) \<noteq> Continuation \<and> \<not> is_control (fragmented_message_opcode (decoder (inner s)))"
    and nc: "\<not> is_control (fragmented_message_opcode (decoder (inner s)))"
  shows "case assemble max_len s f of
      Inl (r, s') \<Rightarrow> length (partial_payload s') \<le> max_len \<and> \<not> is_control (fragmented_message_opcode (decoder (inner s'))) \<and>
        limits (decoder (inner s')) = limits (decoder (inner s)) \<and> (\<forall>m. r = Inr m \<longrightarrow> message_shape max_len m)
    | Inr s' \<Rightarrow> length (partial_payload s') \<le> max_len \<and> \<not> is_control (fragmented_message_opcode (decoder (inner s'))) \<and>
        limits (decoder (inner s')) = limits (decoder (inner s))"
  using assms
  by (auto simp: assemble_def Let_def message_new_def message_shape_def take_message_opcode_def)

context transport
begin

lemma round_shape:
  assumes inv: "reading_inv s" and max: "max_len = max_payload_len (limits (decoder (inner s)))"
    and pf: "poll_next_frame E w s = Some (r, s1)"
  shows "ws_inv s1" and "limits (decoder (inner s1)) = limits (decoder (inner s))"
    and "(\<forall>f. r \<noteq> Ready (Some (Inr f))) \<Longrightarrow> (\<forall>e. r \<noteq> Ready (Some (Inl e))) \<Longrightarrow> reading_inv s1"
    and "r = Ready (Some (Inr f)) \<Longrightarrow> payload_processed (decoder (inner s1)) = 0 \<and> (case assemble max_len s1 f of
      Inl (x, s') \<Rightarrow> length (partial_payload s') \<le> max_len \<and> \<not> is_control (fragmented_message_opcode (decoder (inner s'))) \<and>
        limits (decoder (inner s')) = limits (decoder (inner s1)) \<and> (\<forall>m. x = Inr m \<longrightarrow> message_shape max_len m)
    | Inr s' \<Rightarrow> length (partial_payload s') \<le> max_len \<and> \<not> is_control (fragmented_message_opcode (decoder (inner s'))) \<and>
        limits (decoder (inner s')) = limits (decoder (inner s1)))"
proof -
  have ws: "ws_inv s" and pp: "length (partial_payload s) \<le> max_len"
    and nc: "\<not> is_control (fragmented_message_opcode (decoder (inner s)))"
    using inv max by (simp_all add: reading_inv_def)
  from poll_next_frame_sends [OF ws, of w] pf have s1: "ws_inv s1" "partial_payload s1 = partial_payload s"
    "(\<exists>f. r = Ready (Some (Inr f))) \<Longrightarrow> payload_processed (decoder (inner s1)) = 0" by auto
  then show "ws_inv s1" by simp
  from poll_next_frame_read [OF ws pf] consider
    (same) "decoder (inner s1) = decoder (inner s)" "\<forall>f. r \<noteq> Ready (Some (Inr f))"
  | (dec) cs d where "codec_inv (decoder (inner s)) (buffer (inner s))"
      "decode_reads U (cpu E) (decoder (inner s)) (buffer (inner s)) cs = Some (d, decoder (inner s1), buffer (inner s1))"
      "case r of Ready (Some (Inr f)) \<Rightarrow> d = Inr (Some f) | Ready (Some (Inl e)) \<Rightarrow> True | _ \<Rightarrow> d = Inr None"
    unfolding frame_read_def by blast
  note cases = this
  show lim: "limits (decoder (inner s1)) = limits (decoder (inner s))"
    using cases by cases (auto dest: decode_reads_post(2))
  show "reading_inv s1" if "\<forall>f. r \<noteq> Ready (Some (Inr f))" "\<forall>e. r \<noteq> Ready (Some (Inl e))"
    using cases
  proof cases
    case same
    then show ?thesis using s1 pp nc lim max by (simp add: reading_inv_def)
  next
    case (dec cs d)
    then have "d = Inr None" using that by (auto split: poll.splits option.splits sum.splits)
    then show ?thesis using decode_reads_frame(3) [OF dec(1)] dec(2) s1 pp nc lim max by (auto simp: reading_inv_def)
  qed
  show "payload_processed (decoder (inner s1)) = 0 \<and> (case assemble max_len s1 f of
      Inl (x, s') \<Rightarrow> length (partial_payload s') \<le> max_len \<and> \<not> is_control (fragmented_message_opcode (decoder (inner s'))) \<and>
        limits (decoder (inner s')) = limits (decoder (inner s1)) \<and> (\<forall>m. x = Inr m \<longrightarrow> message_shape max_len m)
    | Inr s' \<Rightarrow> length (partial_payload s') \<le> max_len \<and> \<not> is_control (fragmented_message_opcode (decoder (inner s'))) \<and>
        limits (decoder (inner s')) = limits (decoder (inner s1)))"
    if r: "r = Ready (Some (Inr f))"
    using cases
  proof cases
    case (dec cs d)
    with r have d: "decode_reads U (cpu E) (decoder (inner s)) (buffer (inner s)) cs = Some (Inr (Some f), decoder (inner s1), buffer (inner s1))"
      by simp
    note fr = decode_reads_frame [OF dec(1) d]
    have legal: "legal_head (decoder (inner s)) (f_is_final f) (f_opcode f) (length (f_payload f))"
      and op: "fragmented_message_opcode (decoder (inner s1)) = (if \<not> f_is_final f \<and> f_opcode f \<noteq> Continuation then f_opcode f
        else fragmented_message_opcode (decoder (inner s)))" using fr(4,5) by auto
    have "case assemble max_len s1 f of
      Inl (x, s') \<Rightarrow> length (partial_payload s') \<le> max_len \<and> \<not> is_control (fragmented_message_opcode (decoder (inner s'))) \<and>
        limits (decoder (inner s')) = limits (decoder (inner s1)) \<and> (\<forall>m. x = Inr m \<longrightarrow> message_shape max_len m)
    | Inr s' \<Rightarrow> length (partial_payload s') \<le> max_len \<and> \<not> is_control (fragmented_message_opcode (decoder (inner s'))) \<and>
        limits (decoder (inner s')) = limits (decoder (inner s1))"
    proof (rule assemble_shape)
      show "length (partial_payload s1) \<le> max_len" using s1(2) pp by simp
      show "length (f_payload f) \<le> max_len" using legal max by (simp add: legal_head_def)
      show "is_control (f_opcode f) \<Longrightarrow> f_is_final f \<and> length (f_payload f) \<le> 125" using legal by (simp add: legal_head_def)
      show "f_opcode f = Close \<Longrightarrow> legal_close (f_payload f)" using fr(6) by simp
      show "\<not> is_control (fragmented_message_opcode (decoder (inner s1)))"
        using op nc legal by (auto simp: legal_head_def split: if_splits)
      show "fragmented_message_opcode (decoder (inner s1)) \<noteq> Continuation \<and> \<not> is_control (fragmented_message_opcode (decoder (inner s1)))"
        if "f_opcode f = Continuation" "f_is_final f"
        using legal op nc that by (simp add: legal_head_def)
    qed
    then show ?thesis using s1(3) r by blast
  qed (use r in simp)
qed

end

text \<open>
  C24: Whatever the peer sends, a message that \<open>poll_next\<close> returns is not a continuation, its
  payload is within the limit of the connection, and within 125 bytes for a control message. The payload of a close
  message is empty, or a code that may be sent on the wire and a reason in UTF-8, so that \<open>as_close\<close> reads it
  (\<open>close_shape_as_close\<close>). So is
  the message that is being assembled within the limit, and of a data type, between two calls that return no error; the limit stays.
\<close>

theorem delivered_message_shape:
  assumes "transport U E written" and "reading_inv s" and "poll_next E w s = Some (r, s')"
  shows "limits (decoder (inner s')) = limits (decoder (inner s)) \<and>
    (\<forall>m. r = Ready (Some (Inr m)) \<longrightarrow> message_shape (max_payload_len (limits (decoder (inner s)))) m) \<and>
    ((\<forall>e. r \<noteq> Ready (Some (Inl e))) \<longrightarrow> reading_inv s')"
proof -
  define max_len where "max_len = max_payload_len (limits (decoder (inner s)))"
  define L where "L = limits (decoder (inner s))"
  have max: "max_len = max_payload_len L" by (simp add: max_len_def L_def)
  note rnd = transport.round_shape [OF assms(1)]
  have loop: "poll_next_loop E w max_len s = Some (r, s')" using assms(3) by (simp add: poll_next_def max_len_def)
  have "limits (decoder (inner s')) = L \<and> (\<forall>m. r = Ready (Some (Inr m)) \<longrightarrow> message_shape max_len m) \<and>
    ((\<forall>e. r \<noteq> Ready (Some (Inl e))) \<longrightarrow> reading_inv s')"
  proof (rule poll_next_loop_rounds [where J = "\<lambda>s. reading_inv s \<and> limits (decoder (inner s)) = L" and
        Q = "\<lambda>r s'. limits (decoder (inner s')) = L \<and> (\<forall>m. r = Ready (Some (Inr m)) \<longrightarrow> message_shape max_len m) \<and>
          ((\<forall>e. r \<noteq> Ready (Some (Inl e))) \<longrightarrow> reading_inv s')", OF loop])
    show "reading_inv s \<and> limits (decoder (inner s)) = L" using assms(2) by (simp add: L_def)
  next
    fix t q t1
    assume "reading_inv t \<and> limits (decoder (inner t)) = L" and q: "poll_next_frame E w t = Some (q, t1)"
      and nf: "\<forall>f. q \<noteq> Ready (Some (Inr f))"
    then have t: "reading_inv t" "max_len = max_payload_len (limits (decoder (inner t)))" "limits (decoder (inner t)) = L"
      using max by simp_all
    show "limits (decoder (inner t1)) = L \<and>
      (\<forall>m. (case q of Pending \<Rightarrow> Pending | Ready None \<Rightarrow> Ready None | Ready (Some (Inl e)) \<Rightarrow> Ready (Some (Inl e))) =
        Ready (Some (Inr m)) \<longrightarrow> message_shape max_len m) \<and>
      ((\<forall>e. (case q of Pending \<Rightarrow> Pending | Ready None \<Rightarrow> Ready None | Ready (Some (Inl e)) \<Rightarrow> Ready (Some (Inl e))) \<noteq>
        Ready (Some (Inl e))) \<longrightarrow> reading_inv t1)"
      using rnd(2,3) [OF t(1,2) q] nf t(3) by (auto split: poll.splits option.splits sum.splits)
  next
    fix t f t1 x t2
    assume "reading_inv t \<and> limits (decoder (inner t)) = L" and q: "poll_next_frame E w t = Some (Ready (Some (Inr f)), t1)"
      and a: "assemble max_len t1 f = Inl (x, t2)"
    then have t: "reading_inv t" "max_len = max_payload_len (limits (decoder (inner t)))" "limits (decoder (inner t)) = L"
      using max by simp_all
    have p0: "payload_processed (decoder (inner t1)) = 0" using rnd(4) [OF t(1,2) q refl] by simp
    have "ws_inv t2" using transport.assemble_sends [OF assms(1) rnd(1) [OF t(1,2) q] p0, of max_len f] a by simp
    then show "limits (decoder (inner t2)) = L \<and> (\<forall>m. Ready (Some x) = Ready (Some (Inr m)) \<longrightarrow> message_shape max_len m) \<and>
      ((\<forall>e. Ready (Some x) \<noteq> Ready (Some (Inl e))) \<longrightarrow> reading_inv t2)"
      using rnd(2) [OF t(1,2) q] rnd(4) [OF t(1,2) q refl] a t(3) max by (simp add: reading_inv_def)
  next
    fix t f t1 t2
    assume "reading_inv t \<and> limits (decoder (inner t)) = L" and q: "poll_next_frame E w t = Some (Ready (Some (Inr f)), t1)"
      and a: "assemble max_len t1 f = Inr t2"
    then have t: "reading_inv t" "max_len = max_payload_len (limits (decoder (inner t)))" "limits (decoder (inner t)) = L"
      using max by simp_all
    have p0: "payload_processed (decoder (inner t1)) = 0" using rnd(4) [OF t(1,2) q refl] by simp
    have "ws_inv t2" using transport.assemble_sends [OF assms(1) rnd(1) [OF t(1,2) q] p0, of max_len f] a by simp
    then show "reading_inv t2 \<and> limits (decoder (inner t2)) = L"
      using rnd(2) [OF t(1,2) q] rnd(4) [OF t(1,2) q refl] a t(3) max by (simp add: reading_inv_def)
  qed
  then show ?thesis by (simp add: L_def max_len_def)
qed

end
