(* ===== verification/Upgrade.thy ===== *)
theory Upgrade
  imports Errors "HOL-Library.Sublist"
begin

text \<open>
  The HTTP upgrade handshake: \<open>src/sha.rs\<close>, \<open>src/upgrade/client_request.rs\<close> (the server's side)
  and \<open>src/upgrade/server_response.rs\<close> (the client's side). HTTP parsing (\<open>httparse\<close>), header maps
  and their parts (\<open>http\<close>), base64 and SHA-1 are other people's code and arguments of the model:
  the records \<open>http_lib\<close> and \<open>crypto\<close>. A header map is a value of an unknown type \<open>'h\<close>.
  \<open>None\<close> as the whole result is a panic.
\<close>

subsection \<open>Results\<close>

text \<open>The operator \<open>?\<close>.\<close>

fun and_then :: "'e + 'a \<Rightarrow> ('a \<Rightarrow> 'e + 'b) \<Rightarrow> 'e + 'b" where
  "and_then (Inl e) f = Inl e"
| "and_then (Inr x) f = f x"

fun ok_or :: "'a option \<Rightarrow> 'e \<Rightarrow> 'e + 'a" where
  "ok_or None e = Inl e"
| "ok_or (Some x) e = Inr x"

lemma and_then_eq_Inr: "and_then r f = Inr y \<longleftrightarrow> (\<exists>x. r = Inr x \<and> f x = Inr y)"
  by (cases r) simp_all

lemma ok_or_eq_Inr [simp]: "ok_or o' e = Inr x \<longleftrightarrow> o' = Some x"
  by (cases o') simp_all

subsection \<open>ASCII case\<close>

definition to_ascii_lowercase :: "byte \<Rightarrow> byte" where
  "to_ascii_lowercase b = (if 0x41 \<le> b \<and> b \<le> 0x5A then b + 32 else b)"

definition eq_ignore_ascii_case :: "bytes \<Rightarrow> bytes \<Rightarrow> bool" where
  "eq_ignore_ascii_case xs ys = (length xs = length ys \<and> map to_ascii_lowercase xs = map to_ascii_lowercase ys)"

fun contains_loop :: "bytes \<Rightarrow> bytes \<Rightarrow> bool" where
  "contains_loop [] needle = False"
| "contains_loop (h # haystack) needle =
     (if length needle \<le> length (h # haystack)
      then if eq_ignore_ascii_case (take (length needle) (h # haystack)) needle then True
           else contains_loop haystack needle
      else False)"

definition contains_ignore_ascii_case :: "bytes \<Rightarrow> bytes \<Rightarrow> bool" where
  "contains_ignore_ascii_case haystack needle = (if needle = [] then True else contains_loop haystack needle)"

subsection \<open>Libraries\<close>

text \<open>
  \<open>sha1\<close> is the digest of the bytes fed to the backend one after the other; \<open>base64_decode_slice\<close>
  is \<open>decode_slice_unchecked\<close> into a buffer of the given size: \<open>None\<close> if it panics, otherwise an
  error or the decoded bytes.
\<close>

record crypto =
  sha1 :: "bytes \<Rightarrow> bytes"
  base64_encode :: "bytes \<Rightarrow> bytes"
  base64_decode_slice :: "bytes \<Rightarrow> usize \<Rightarrow> (unit + bytes) option"

text \<open>A complete message head as \<open>httparse\<close> returns it, with its length in bytes.\<close>

record parsed_request =
  pq_method :: "bytes option"
  pq_path :: "bytes option"
  pq_version :: "nat option"
  pq_headers :: "(bytes \<times> bytes) list"
  pq_len :: usize

record parsed_response =
  pr_version :: "nat option"
  pr_code :: "u16 option"
  pr_headers :: "(bytes \<times> bytes) list"
  pr_len :: usize

text \<open>
  \<open>request_parse n\<close> and \<open>response_parse n\<close> parse with room for \<open>n\<close> headers; \<open>Inr None\<close> is an
  incomplete head. The header name and value constructors, \<open>Method::from_bytes\<close>,
  \<open>StatusCode::from_u16\<close> and the conversion to a URI give \<open>None\<close> where they fail.
\<close>

record 'h http_lib =
  request_parse :: "nat \<Rightarrow> bytes \<Rightarrow> httparse_error + parsed_request option"
  response_parse :: "nat \<Rightarrow> bytes \<Rightarrow> httparse_error + parsed_response option"
  method_from_bytes :: "bytes \<Rightarrow> bytes option"
  uri_from_str :: "bytes \<Rightarrow> bytes option"
  status_from_u16 :: "u16 \<Rightarrow> u16 option"
  header_name :: "bytes \<Rightarrow> bytes option"
  header_value :: "bytes \<Rightarrow> bytes option"
  to_str :: "bytes \<Rightarrow> bytes option"
  hm_new :: 'h
  hm_insert :: "'h \<Rightarrow> bytes \<Rightarrow> bytes \<Rightarrow> 'h"
  hm_get :: "'h \<Rightarrow> bytes \<Rightarrow> bytes option"
  hm_keys :: "'h \<Rightarrow> bytes list"
  hm_get_all :: "'h \<Rightarrow> bytes \<Rightarrow> bytes list"
  hm_iter :: "'h \<Rightarrow> (bytes \<times> bytes) list"

datatype http_version = HTTP_10 | HTTP_11

record 'h http_request =
  rq_method :: bytes
  rq_uri :: bytes
  rq_version :: http_version
  rq_headers :: 'h

record 'h http_response =
  rs_status :: u16
  rs_version :: http_version
  rs_headers :: 'h

subsection \<open>The digest of the key\<close>

definition GUID :: string where
  "GUID = ''258EAFA5-E914-47DA-95CA-C5AB0DC85B11''"

definition digest :: "crypto \<Rightarrow> bytes \<Rightarrow> bytes" where
  "digest K key = sha1 K (key @ ascii GUID)"

subsection \<open>The client's request, on the server\<close>

abbreviation crlf :: bytes where
  "crlf \<equiv> [13, 10]"

definition SWITCHING_PROTOCOLS_BODY :: bytes where
  "SWITCHING_PROTOCOLS_BODY = ascii ''HTTP/1.1 101 Switching Protocols'' @ crlf @ ascii ''Upgrade: websocket'' @ crlf
     @ ascii ''Connection: Upgrade'' @ crlf @ ascii ''Sec-WebSocket-Accept: ''"

definition find_header :: "(string \<Rightarrow> bytes option) \<Rightarrow> string \<Rightarrow> upgrade_error + bytes" where
  "find_header header name = ok_or (header name) (MissingHeader name)"

definition check_header ::
  "(string \<Rightarrow> bytes option) \<Rightarrow> string \<Rightarrow> bytes \<Rightarrow> upgrade_error \<Rightarrow> upgrade_error + unit" where
  "check_header header name expected err = and_then (find_header header name)
     (\<lambda>actual. if eq_ignore_ascii_case actual expected then Inr () else Inl err)"

definition check_header_contains ::
  "(string \<Rightarrow> bytes option) \<Rightarrow> string \<Rightarrow> bytes \<Rightarrow> upgrade_error \<Rightarrow> upgrade_error + unit" where
  "check_header_contains header name expected err = and_then (find_header header name)
     (\<lambda>actual. if contains_ignore_ascii_case actual expected then Inr () else Inl err)"

definition client_request_parse :: "crypto \<Rightarrow> (string \<Rightarrow> bytes option) \<Rightarrow> upgrade_error + bytes" where
  "client_request_parse K header =
     and_then (check_header header ''Upgrade'' (ascii ''websocket'') UpgradeNotWebSocket) (\<lambda>_.
     and_then (check_header_contains header ''Connection'' (ascii ''Upgrade'') ConnectionNotUpgrade) (\<lambda>_.
     and_then (check_header header ''Sec-WebSocket-Version'' (ascii ''13'') UnsupportedWebSocketVersion) (\<lambda>_.
     and_then (find_header header ''Sec-WebSocket-Key'') (\<lambda>key.
     Inr (digest K key)))))"

definition ws_accept :: "crypto \<Rightarrow> bytes \<Rightarrow> bytes" where
  "ws_accept K d = base64_encode K d"

definition http_version_of :: "nat option \<Rightarrow> upgrade_error + http_version" where
  "http_version_of v =
     (case v of
        Some n \<Rightarrow> if n = 0 then Inr HTTP_10 else if n = 1 then Inr HTTP_11 else Inl (Parsing Version)
      | None \<Rightarrow> Inl (Parsing Version))"

text \<open>The loop that fills the header map.\<close>

fun collect_headers :: "'h http_lib \<Rightarrow> 'h \<Rightarrow> (bytes \<times> bytes) list \<Rightarrow> upgrade_error + 'h" where
  "collect_headers H hm [] = Inr hm"
| "collect_headers H hm ((n, v) # rest) =
     and_then (ok_or (header_name H n) (Parsing HeaderName)) (\<lambda>name.
     and_then (ok_or (header_value H v) (Parsing HeaderValue)) (\<lambda>val.
     collect_headers H (hm_insert H hm name val) rest))"

fun join_values :: "bytes list \<Rightarrow> bytes" where
  "join_values [] = []"
| "join_values [v] = v"
| "join_values (v # w # ws) = v @ ascii '','' @ join_values (w # ws)"

definition response_header :: "'h http_lib \<Rightarrow> 'h \<Rightarrow> bytes \<Rightarrow> bytes" where
  "response_header H hs name =
     (if name = ascii ''set-cookie''
      then concat (map (\<lambda>v. name @ ascii '': '' @ v @ crlf) (hm_get_all H hs name))
      else name @ ascii '': '' @ join_values (hm_get_all H hs name) @ crlf)"

definition switching_protocols_response :: "'h http_lib \<Rightarrow> 'h \<Rightarrow> bytes \<Rightarrow> bytes" where
  "switching_protocols_response H hs accept =
     SWITCHING_PROTOCOLS_BODY @ accept @ crlf @ concat (map (response_header H hs) (hm_keys H hs)) @ crlf"

text \<open>
  The codec on a complete request: the outer \<open>option\<close> is \<open>None\<close> where one of the two \<open>expect\<close>s
  panics. The version and the headers are looked at before the second.
\<close>

definition request_head ::
  "'h http_lib \<Rightarrow> parsed_request \<Rightarrow> (upgrade_error + 'h http_request) option" where
  "request_head H pq =
     (case (case pq_method pq of None \<Rightarrow> Some (ascii ''GET'') | Some m \<Rightarrow> method_from_bytes H m) of
        None \<Rightarrow> None
      | Some method \<Rightarrow>
          (case http_version_of (pq_version pq) of
             Inl e \<Rightarrow> Some (Inl e)
           | Inr version \<Rightarrow>
               (case collect_headers H (hm_new H) (pq_headers pq) of
                  Inl e \<Rightarrow> Some (Inl e)
                | Inr hm \<Rightarrow>
                    map_option (\<lambda>uri. Inr \<lparr>rq_method = method, rq_uri = uri, rq_version = version, rq_headers = hm\<rparr>)
                      (case pq_path pq of None \<Rightarrow> Some (ascii ''/'') | Some p \<Rightarrow> uri_from_str H p))))"

definition request_decode ::
  "'h http_lib \<Rightarrow> crypto \<Rightarrow> 'h \<Rightarrow> bytes \<Rightarrow> ((error + ('h http_request \<times> bytes) option) \<times> bytes) option" where
  "request_decode H K hs src =
     (case request_parse H 64 src of
        Inl e \<Rightarrow> Some (Inl (Upgrade (Parsing e)), src)
      | Inr None \<Rightarrow> Some (Inr None, src)
      | Inr (Some pq) \<Rightarrow>
          (case request_head H pq of
             None \<Rightarrow> None
           | Some (Inl e) \<Rightarrow> Some (Inl (Upgrade e), src)
           | Some (Inr rq) \<Rightarrow>
               (case client_request_parse K (\<lambda>name. Option.bind (hm_get H (rq_headers rq) (ascii name)) (to_str H)) of
                  Inl e \<Rightarrow> Some (Inl (Upgrade e), src)
                | Inr d \<Rightarrow>
                    Some (Inr (Some (rq, switching_protocols_response H hs (ws_accept K d))), drop (pq_len pq) src))))"

subsection \<open>The server's response, on the client\<close>

definition response_header_value :: "(bytes \<times> bytes) list \<Rightarrow> string \<Rightarrow> upgrade_error + bytes" where
  "response_header_value hs name =
     and_then (ok_or (find (\<lambda>(n, _). eq_ignore_ascii_case n (ascii name)) hs) (MissingHeader name)) (\<lambda>(_, v). Inr v)"

text \<open>The comparison of the accept header with the digest the codec was made with.\<close>

definition check_accept :: "crypto \<Rightarrow> bytes \<Rightarrow> bytes \<Rightarrow> (upgrade_error + unit) option" where
  "check_accept K expected value =
     (case base64_decode_slice K value 20 of
        None \<Rightarrow> None
      | Some (Inl _) \<Rightarrow> Some (Inl WrongWebSocketAccept)
      | Some (Inr bs) \<Rightarrow>
          Some (if expected \<noteq> splice (replicate 20 0) 0 bs then Inl WrongWebSocketAccept else Inr ()))"

definition response_decode ::
  "'h http_lib \<Rightarrow> crypto \<Rightarrow> bytes \<Rightarrow> bytes \<Rightarrow> ((error + 'h http_response option) \<times> bytes) option" where
  "response_decode H K expected src =
     (case response_parse H 25 src of
        Inl e \<Rightarrow> Some (Inl (Upgrade (Parsing e)), src)
      | Inr None \<Rightarrow> Some (Inr None, src)
      | Inr (Some pr) \<Rightarrow>
          (case pr_code pr of
             None \<Rightarrow> None
           | Some code \<Rightarrow>
               if code \<noteq> 101 then Some (Inl (Upgrade (DidNotSwitchProtocols code)), src)
               else (case response_header_value (pr_headers pr) ''Sec-WebSocket-Accept'' of
                       Inl e \<Rightarrow> Some (Inl (Upgrade e), src)
                     | Inr value \<Rightarrow>
                         (case check_accept K expected value of
                            None \<Rightarrow> None
                          | Some (Inl e) \<Rightarrow> Some (Inl (Upgrade e), src)
                          | Some (Inr _) \<Rightarrow>
                              (case and_then (ok_or (status_from_u16 H code) (Parsing Status)) (\<lambda>status.
                                     and_then (http_version_of (pr_version pr)) (\<lambda>version.
                                     and_then (collect_headers H (hm_new H) (pr_headers pr)) (\<lambda>hm.
                                     Inr \<lparr>rs_status = status, rs_version = version, rs_headers = hm\<rparr>))) of
                                 Inl e \<Rightarrow> Some (Inl (Upgrade e), src)
                               | Inr rs \<Rightarrow> Some (Inr (Some rs), drop (pr_len pr) src))))))"

subsection \<open>The checks of the handshake\<close>

text \<open>
  \<open>contains_ignore_ascii_case\<close> answers whether some contiguous part of the first argument equals
  the second up to ASCII case.
\<close>

lemma contains_ignore_ascii_case_iff:
  "contains_ignore_ascii_case haystack needle \<longleftrightarrow> (\<exists>p m s. haystack = p @ m @ s \<and> eq_ignore_ascii_case m needle)"
proof -
  have loop: "contains_loop h needle \<longleftrightarrow> (\<exists>p m s. h = p @ m @ s \<and> eq_ignore_ascii_case m needle)"
    if ne: "needle \<noteq> []" for h
  proof (induction h)
    case Nil
    then show ?case using ne by (simp add: eq_ignore_ascii_case_def)
  next
    case (Cons b h)
    have split: "(\<exists>p m s. b # h = p @ m @ s \<and> eq_ignore_ascii_case m needle) \<longleftrightarrow>
      (\<exists>m s. b # h = m @ s \<and> eq_ignore_ascii_case m needle) \<or> (\<exists>p m s. h = p @ m @ s \<and> eq_ignore_ascii_case m needle)"
      by (metis append_Cons append_Nil append_eq_Cons_conv)
    have head: "(\<exists>m s. b # h = m @ s \<and> eq_ignore_ascii_case m needle) \<longleftrightarrow>
      length needle \<le> length (b # h) \<and> eq_ignore_ascii_case (take (length needle) (b # h)) needle"
      (is "?l \<longleftrightarrow> ?r")
    proof
      assume ?l
      then obtain m s where m: "b # h = m @ s" "eq_ignore_ascii_case m needle" by blast
      then have "length m = length needle" by (simp add: eq_ignore_ascii_case_def)
      with m show ?r by (metis append_eq_conv_conj length_append le_add1)
    next
      assume ?r
      then show ?l by (metis append_take_drop_id)
    qed
    have short: "\<not> (\<exists>p m s. h = p @ m @ s \<and> eq_ignore_ascii_case m needle)"
      if "\<not> length needle \<le> length (b # h)"
      using that by (auto simp: eq_ignore_ascii_case_def)
    show ?case using split head short Cons.IH by auto
  qed
  show ?thesis
  proof (cases "needle = []")
    case True
    then show ?thesis
      by (auto simp: contains_ignore_ascii_case_def eq_ignore_ascii_case_def intro: exI [of _ "[]"])
  next
    case False
    then show ?thesis using loop [OF False] by (simp add: contains_ignore_ascii_case_def)
  qed
qed

lemma request_decode_buffer:
  assumes "request_decode H K hs src = Some (r, src')"
  shows "src' = (case r of
      Inr (Some _) \<Rightarrow> (case request_parse H 64 src of Inr (Some pq) \<Rightarrow> drop (pq_len pq) src | _ \<Rightarrow> src)
    | _ \<Rightarrow> src)"
  using assms by (auto simp: request_decode_def split: option.splits sum.splits)

lemma check_accept_ok:
  "check_accept K expected v = Some (Inr u) \<longleftrightarrow>
     (\<exists>bs. base64_decode_slice K v 20 = Some (Inr bs) \<and> splice (replicate 20 0) 0 bs = expected)"
  by (auto simp: check_accept_def split: option.splits sum.splits)

end
