(* ===== verification/Tls.thy ===== *)
theory Tls
  imports Upgrade WebSocket_Stream
begin

text \<open>
  \<open>src/tls.rs\<close>: the connector that is chosen by the feature flags, the wrapping of a stream, and
  the stream that is plain or one of the two TLS libraries' own. The libraries, the certificate
  stores and their types are arguments of the model.
\<close>

subsection \<open>Connectors\<close>

datatype tls_feature =
    native_tls
  | rustls_webpki_roots
  | rustls_native_roots
  | rustls_platform_verifier
  | rustls_bring_your_own_connector

text \<open>Connectors are of an unknown type \<open>'c\<close>, the streams of the libraries of types \<open>'n\<close> and \<open>'r\<close>.\<close>

datatype 'c connector = Plain_Connector | NativeTls_Connector 'c | Rustls_Connector 'c

datatype ('s, 'n, 'r) maybe_tls_stream = Plain_Stream 's | NativeTls_Stream 'n | Rustls_Stream 'r

record ('c, 's, 'n, 'r, 'roots, 'cert) tls_lib =
  native_tls_new :: "error + 'c"
  with_platform_verifier :: "error + 'c"
  empty_roots :: 'roots
  load_native_certs :: "'cert list \<times> nat list"
  add_root :: "'roots \<Rightarrow> 'cert \<Rightarrow> error + 'roots"
  extend_webpki :: "'roots \<Rightarrow> 'roots"
  with_root_certificates :: "'roots \<Rightarrow> 'c"
  native_tls_connect :: "'c \<Rightarrow> bytes \<Rightarrow> 's \<Rightarrow> error + 'n"
  server_name :: "bytes \<Rightarrow> bytes option"
  rustls_connect :: "'c \<Rightarrow> bytes \<Rightarrow> 's \<Rightarrow> io_error + 'r"

fun add_roots :: "('roots \<Rightarrow> 'cert \<Rightarrow> error + 'roots) \<Rightarrow> 'roots \<Rightarrow> 'cert list \<Rightarrow> error + 'roots" where
  "add_roots add roots [] = Inr roots"
| "add_roots add roots (c # cs) = and_then (add roots c) (\<lambda>roots'. add_roots add roots' cs)"

text \<open>The root certificates of a \<open>rustls\<close> connector.\<close>

definition root_store ::
  "tls_feature set \<Rightarrow> ('c, 's, 'n, 'r, 'roots, 'cert) tls_lib \<Rightarrow> error + 'roots" where
  "root_store features T =
     and_then
       (if rustls_native_roots \<in> features
        then let (certs, errors) = load_native_certs T
             in if rustls_webpki_roots \<notin> features \<and> certs = [] then Inl (NoNativeRootCertificatesFound errors)
                else add_roots (add_root T) (empty_roots T) certs
        else Inr (empty_roots T))
       (\<lambda>roots. Inr (if rustls_webpki_roots \<in> features then extend_webpki T roots else roots))"

definition connector_new ::
  "tls_feature set \<Rightarrow> ('c, 's, 'n, 'r, 'roots, 'cert) tls_lib \<Rightarrow> error + 'c connector" where
  "connector_new features T =
     (let rustls = rustls_webpki_roots \<in> features \<or> rustls_native_roots \<in> features
                     \<or> rustls_platform_verifier \<in> features
      in if \<not> (native_tls \<in> features \<or> rustls) then Inr Plain_Connector
         else if native_tls \<in> features \<and> \<not> rustls then and_then (native_tls_new T) (\<lambda>c. Inr (NativeTls_Connector c))
         else and_then
                (if rustls_platform_verifier \<in> features then with_platform_verifier T
                 else and_then (root_store features T) (\<lambda>roots. Inr (with_root_certificates T roots)))
                (\<lambda>c. Inr (Rustls_Connector c)))"

fun wrap ::
  "('c, 's, 'n, 'r, 'roots, 'cert) tls_lib \<Rightarrow> 'c connector \<Rightarrow> bytes \<Rightarrow> 's
     \<Rightarrow> error + ('s, 'n, 'r) maybe_tls_stream" where
  "wrap T Plain_Connector domain stream = Inr (Plain_Stream stream)"
| "wrap T (NativeTls_Connector c) domain stream =
     and_then (native_tls_connect T c domain stream) (\<lambda>s. Inr (NativeTls_Stream s))"
| "wrap T (Rustls_Connector c) domain stream =
     and_then (ok_or (server_name T domain) InvalidDNSName) (\<lambda>name.
       case rustls_connect T c name stream of Inl e \<Rightarrow> Inl (Io e) | Inr s \<Rightarrow> Inr (Rustls_Stream s))"

text \<open>The root store ends with the same certificates whether they are added one by one or at once.\<close>

lemma add_roots_append:
  "add_roots add roots (cs @ ds) = and_then (add_roots add roots cs) (\<lambda>roots'. add_roots add roots' ds)"
proof (induction cs arbitrary: roots)
  case (Cons c cs)
  then show ?case by (cases "add roots c") simp_all
qed simp

subsection \<open>Streams\<close>

text \<open>\<open>AsyncRead\<close> and \<open>AsyncWrite\<close> of a stream; a read is given the room in its buffer.\<close>

record 'io async_io =
  aio_read :: "waker \<Rightarrow> nat \<Rightarrow> 'io \<Rightarrow> (io_error + bytes) poll \<times> 'io"
  aio_write :: "waker \<Rightarrow> bytes \<Rightarrow> 'io \<Rightarrow> (io_error + usize) poll \<times> 'io"
  aio_flush :: "waker \<Rightarrow> 'io \<Rightarrow> (io_error + unit) poll \<times> 'io"
  aio_shutdown :: "waker \<Rightarrow> 'io \<Rightarrow> (io_error + unit) poll \<times> 'io"
  aio_write_vectored :: "waker \<Rightarrow> bytes list \<Rightarrow> 'io \<Rightarrow> (io_error + usize) poll \<times> 'io"
  aio_is_write_vectored :: "'io \<Rightarrow> bool"

fun tls_poll_read :: "'s async_io \<Rightarrow> 'n async_io \<Rightarrow> 'r async_io \<Rightarrow> waker \<Rightarrow> nat \<Rightarrow> ('s, 'n, 'r) maybe_tls_stream
     \<Rightarrow> (io_error + bytes) poll \<times> ('s, 'n, 'r) maybe_tls_stream" where
  "tls_poll_read P N R w n (Plain_Stream s) = apsnd Plain_Stream (aio_read P w n s)"
| "tls_poll_read P N R w n (NativeTls_Stream s) = apsnd NativeTls_Stream (aio_read N w n s)"
| "tls_poll_read P N R w n (Rustls_Stream s) = apsnd Rustls_Stream (aio_read R w n s)"

fun tls_poll_write :: "'s async_io \<Rightarrow> 'n async_io \<Rightarrow> 'r async_io \<Rightarrow> waker \<Rightarrow> bytes \<Rightarrow> ('s, 'n, 'r) maybe_tls_stream
     \<Rightarrow> (io_error + usize) poll \<times> ('s, 'n, 'r) maybe_tls_stream" where
  "tls_poll_write P N R w b (Plain_Stream s) = apsnd Plain_Stream (aio_write P w b s)"
| "tls_poll_write P N R w b (NativeTls_Stream s) = apsnd NativeTls_Stream (aio_write N w b s)"
| "tls_poll_write P N R w b (Rustls_Stream s) = apsnd Rustls_Stream (aio_write R w b s)"

fun tls_poll_flush :: "'s async_io \<Rightarrow> 'n async_io \<Rightarrow> 'r async_io \<Rightarrow> waker \<Rightarrow> ('s, 'n, 'r) maybe_tls_stream
     \<Rightarrow> (io_error + unit) poll \<times> ('s, 'n, 'r) maybe_tls_stream" where
  "tls_poll_flush P N R w (Plain_Stream s) = apsnd Plain_Stream (aio_flush P w s)"
| "tls_poll_flush P N R w (NativeTls_Stream s) = apsnd NativeTls_Stream (aio_flush N w s)"
| "tls_poll_flush P N R w (Rustls_Stream s) = apsnd Rustls_Stream (aio_flush R w s)"

fun tls_poll_shutdown :: "'s async_io \<Rightarrow> 'n async_io \<Rightarrow> 'r async_io \<Rightarrow> waker \<Rightarrow> ('s, 'n, 'r) maybe_tls_stream
     \<Rightarrow> (io_error + unit) poll \<times> ('s, 'n, 'r) maybe_tls_stream" where
  "tls_poll_shutdown P N R w (Plain_Stream s) = apsnd Plain_Stream (aio_shutdown P w s)"
| "tls_poll_shutdown P N R w (NativeTls_Stream s) = apsnd NativeTls_Stream (aio_shutdown N w s)"
| "tls_poll_shutdown P N R w (Rustls_Stream s) = apsnd Rustls_Stream (aio_shutdown R w s)"

fun tls_poll_write_vectored :: "'s async_io \<Rightarrow> 'n async_io \<Rightarrow> 'r async_io \<Rightarrow> waker \<Rightarrow> bytes list
     \<Rightarrow> ('s, 'n, 'r) maybe_tls_stream \<Rightarrow> (io_error + usize) poll \<times> ('s, 'n, 'r) maybe_tls_stream" where
  "tls_poll_write_vectored P N R w bs (Plain_Stream s) = apsnd Plain_Stream (aio_write_vectored P w bs s)"
| "tls_poll_write_vectored P N R w bs (NativeTls_Stream s) = apsnd NativeTls_Stream (aio_write_vectored N w bs s)"
| "tls_poll_write_vectored P N R w bs (Rustls_Stream s) = apsnd Rustls_Stream (aio_write_vectored R w bs s)"

fun tls_is_write_vectored :: "'s async_io \<Rightarrow> 'n async_io \<Rightarrow> 'r async_io \<Rightarrow> ('s, 'n, 'r) maybe_tls_stream \<Rightarrow> bool" where
  "tls_is_write_vectored P N R (Plain_Stream s) = aio_is_write_vectored P s"
| "tls_is_write_vectored P N R (NativeTls_Stream s) = aio_is_write_vectored N s"
| "tls_is_write_vectored P N R (Rustls_Stream s) = aio_is_write_vectored R s"

text \<open>The implementation of the two traits for \<open>MaybeTlsStream\<close>.\<close>

definition maybe_tls_io :: "'s async_io \<Rightarrow> 'n async_io \<Rightarrow> 'r async_io \<Rightarrow> ('s, 'n, 'r) maybe_tls_stream async_io" where
  "maybe_tls_io P N R = \<lparr>aio_read = tls_poll_read P N R, aio_write = tls_poll_write P N R,
     aio_flush = tls_poll_flush P N R, aio_shutdown = tls_poll_shutdown P N R,
     aio_write_vectored = tls_poll_write_vectored P N R, aio_is_write_vectored = tls_is_write_vectored P N R\<rparr>"

subsection \<open>The contract of a stream\<close>

text \<open>
  What users of a stream count on, for an observer of the bytes it has taken and of those it has
  still to give: a read gives the next bytes, no more than there is room for, a write takes a prefix.
\<close>

definition read_ok :: "nat \<Rightarrow> bytes \<times> bytes \<Rightarrow> (io_error + bytes) poll \<Rightarrow> bytes \<times> bytes \<Rightarrow> bool" where
  "read_ok n before r after = (fst after = fst before \<and>
     (case r of Ready (Inr bs) \<Rightarrow> length bs \<le> n \<and> snd before = bs @ snd after | _ \<Rightarrow> snd after = snd before))"

definition write_ok :: "bytes \<Rightarrow> bytes \<times> bytes \<Rightarrow> (io_error + usize) poll \<Rightarrow> bytes \<times> bytes \<Rightarrow> bool" where
  "write_ok bs before r after = (snd after = snd before \<and>
     (case r of Ready (Inr n) \<Rightarrow> n \<le> length bs \<and> fst after = fst before @ take n bs | _ \<Rightarrow> fst after = fst before))"

text \<open>A loop of writes until all bytes are taken, at most \<open>k\<close> of them.\<close>

fun write_loop :: "'io async_io \<Rightarrow> waker \<Rightarrow> nat \<Rightarrow> bytes \<Rightarrow> 'io \<Rightarrow> bool \<times> 'io" where
  "write_loop io_ops w 0 bs s = (bs = [], s)"
| "write_loop io_ops w (Suc k) bs s =
     (if bs = [] then (True, s)
      else (case aio_write io_ops w bs s of
              (Ready (Inr n), s') \<Rightarrow> if n = 0 then (False, s') else write_loop io_ops w k (drop n bs) s'
            | (_, s') \<Rightarrow> (False, s')))"

locale byte_stream =
  fixes io_ops :: "'io async_io" and seen :: "'io \<Rightarrow> bytes \<times> bytes"
  assumes read_law: "read_ok n (seen s) (fst (aio_read io_ops w n s)) (seen (snd (aio_read io_ops w n s)))"
    and write_law: "write_ok bs (seen s) (fst (aio_write io_ops w bs s)) (seen (snd (aio_write io_ops w bs s)))"
    and vectored_law: "write_ok (concat bss) (seen s) (fst (aio_write_vectored io_ops w bss s))
      (seen (snd (aio_write_vectored io_ops w bss s)))"
    and flush_law: "seen (snd (aio_flush io_ops w s)) = seen s"
    and shutdown_law: "seen (snd (aio_shutdown io_ops w s)) = seen s"
begin

lemma write_loop_writes:
  "write_loop io_ops w k bs s = (True, s') \<Longrightarrow> fst (seen s') = fst (seen s) @ bs \<and> snd (seen s') = snd (seen s)"
proof (induction k arbitrary: bs s)
  case (Suc k)
  show ?case
  proof (cases "bs = []")
    case False
    with Suc.prems obtain n s1 where w: "aio_write io_ops w bs s = (Ready (Inr n), s1)"
      and l: "write_loop io_ops w k (drop n bs) s1 = (True, s')"
      by (auto split: prod.splits poll.splits sum.splits if_splits)
    from Suc.IH [OF l] write_law [of bs s w] show ?thesis by (simp add: w write_ok_def)
  qed (use Suc.prems in simp)
qed simp

end

text \<open>The wrapper keeps the contract of the streams it may hold.\<close>

locale three_streams =
  plain: byte_stream P seen_plain + native: byte_stream N seen_native + rust: byte_stream R seen_rust
  for P :: "'s async_io" and seen_plain and N :: "'n async_io" and seen_native
    and R :: "'r async_io" and seen_rust

sublocale three_streams \<subseteq> tls: byte_stream "maybe_tls_io P N R" "case_maybe_tls_stream seen_plain seen_native seen_rust"
proof unfold_locales
  show "read_ok n (case_maybe_tls_stream seen_plain seen_native seen_rust s) (fst (aio_read (maybe_tls_io P N R) w n s))
    (case_maybe_tls_stream seen_plain seen_native seen_rust (snd (aio_read (maybe_tls_io P N R) w n s)))" for n s w
    by (cases s) (simp_all add: maybe_tls_io_def plain.read_law native.read_law rust.read_law)
  show "write_ok bs (case_maybe_tls_stream seen_plain seen_native seen_rust s) (fst (aio_write (maybe_tls_io P N R) w bs s))
    (case_maybe_tls_stream seen_plain seen_native seen_rust (snd (aio_write (maybe_tls_io P N R) w bs s)))" for bs s w
    by (cases s) (simp_all add: maybe_tls_io_def plain.write_law native.write_law rust.write_law)
  show "write_ok (concat bss) (case_maybe_tls_stream seen_plain seen_native seen_rust s)
    (fst (aio_write_vectored (maybe_tls_io P N R) w bss s))
    (case_maybe_tls_stream seen_plain seen_native seen_rust (snd (aio_write_vectored (maybe_tls_io P N R) w bss s)))" for bss s w
    by (cases s) (simp_all add: maybe_tls_io_def plain.vectored_law native.vectored_law rust.vectored_law)
  show "case_maybe_tls_stream seen_plain seen_native seen_rust (snd (aio_flush (maybe_tls_io P N R) w s)) =
    case_maybe_tls_stream seen_plain seen_native seen_rust s" for s w
    by (cases s) (simp_all add: maybe_tls_io_def plain.flush_law native.flush_law rust.flush_law)
  show "case_maybe_tls_stream seen_plain seen_native seen_rust (snd (aio_shutdown (maybe_tls_io P N R) w s)) =
    case_maybe_tls_stream seen_plain seen_native seen_rust s" for s w
    by (cases s) (simp_all add: maybe_tls_io_def plain.shutdown_law native.shutdown_law rust.shutdown_law)
qed

context three_streams
begin

lemma tls_stream: "byte_stream (maybe_tls_io P N R) (case_maybe_tls_stream seen_plain seen_native seen_rust)"
  by (rule tls.byte_stream_axioms)

end

text \<open>A pipe in memory that takes and gives at most \<open>k\<close> bytes at a time.\<close>

definition pipe_io :: "nat \<Rightarrow> (bytes \<times> bytes) async_io" where
  "pipe_io k = \<lparr>
     aio_read = (\<lambda>w n (t, c). (Ready (Inr (take (min k n) c)), (t, drop (min k n) c))),
     aio_write = (\<lambda>w bs (t, c). (Ready (Inr (min k (length bs))), (t @ take k bs, c))),
     aio_flush = (\<lambda>w s. (Ready (Inr ()), s)), aio_shutdown = (\<lambda>w s. (Ready (Inr ()), s)),
     aio_write_vectored = (\<lambda>w bss (t, c). (Ready (Inr (min k (length (concat bss)))), (t @ take k (concat bss), c))),
     aio_is_write_vectored = (\<lambda>s. True)\<rparr>"

lemma pipe_byte_stream: "byte_stream (pipe_io k) id"
  by unfold_locales (simp_all add: pipe_io_def read_ok_def write_ok_def min_def split: prod.split)

interpretation pipe: byte_stream "pipe_io 3" id
  by (rule pipe_byte_stream)

interpretation pipes: three_streams "pipe_io 1" id "pipe_io 2" id "pipe_io 3" id
  by (intro three_streams.intro pipe_byte_stream)

text \<open>
  A stream that may be protected with TLS behaves as a byte stream if the plain stream and the
  streams of the two libraries do: reads give the next bytes and writes take a prefix, on whichever
  stream it holds, and a loop of writes that succeeds has put all bytes on that stream in order.
\<close>

theorem maybe_tls_stream_keeps_contract:
  assumes "byte_stream P seen_plain" and "byte_stream N seen_native" and "byte_stream R seen_rust"
  defines "seen \<equiv> case_maybe_tls_stream seen_plain seen_native seen_rust"
  shows "byte_stream (maybe_tls_io P N R) seen \<and>
    (write_loop (maybe_tls_io P N R) w k bs s = (True, s') \<longrightarrow>
       fst (seen s') = fst (seen s) @ bs \<and> snd (seen s') = snd (seen s))"
proof -
  have "three_streams P seen_plain N seen_native R seen_rust" by (intro three_streams.intro assms(1-3))
  then have "byte_stream (maybe_tls_io P N R) seen" unfolding seen_def by (rule three_streams.tls_stream)
  with byte_stream.write_loop_writes [OF this] show ?thesis by blast
qed

end
