(* ===== verification/Stream_Ends.thy ===== *)
theory Stream_Ends
  imports Stream_Messages Duplex
begin

text \<open>
  The loops of the stream that have no bound of their own: \<open>poll_next\<close> goes on while frames arrive
  that complete no message, \<open>poll_close\<close> reads until the stream ends. Both end if the transport has
  finitely many bytes to give before it is pending.
\<close>

subsection \<open>A transport with finitely many bytes to give\<close>

locale finite_transport = transport U E written for U E and written :: "'io \<Rightarrow> bytes" +
  fixes available :: "'io \<Rightarrow> nat"
  assumes read_uses: "codec_inv (decoder fr) (buffer fr) \<Longrightarrow> framed_poll_next E w fr = (Ready (Some (Inr f)), fr') \<Longrightarrow>
      available (io fr') + length (buffer fr') < available (io fr) + length (buffer fr)"
    and write_keeps: "poll_write_buf E w i fq = (r, i', fq') \<Longrightarrow> available i' = available i"
    and flush_keeps: "available (snd (io_poll_flush E w i)) = available i"

text \<open>The bytes a stream has to decode, and how far it is from its end.\<close>

definition to_decode :: "('io \<Rightarrow> nat) \<Rightarrow> ('io, 'f) websocket_stream \<Rightarrow> nat" where
  "to_decode available s = available (io (inner s)) + length (buffer (inner s))"

definition rank :: "stream_state \<Rightarrow> nat" where
  "rank st = (case st of Active \<Rightarrow> 2 | ClosedByUs \<Rightarrow> 2 | ClosedByPeer \<Rightarrow> 1 | CloseAcknowledged \<Rightarrow> 0)"

lemma rank_mono: "a \<le> b \<Longrightarrow> rank b \<le> rank a"
  by (cases a; cases b) (simp_all add: rank_def less_eq_stream_state_def)

lemma rank_simps [simp]:
  "rank CloseAcknowledged = 0" "rank ClosedByPeer = 1" "rank Active = 2" "rank ClosedByUs = 2"
  "0 < rank a \<longleftrightarrow> a \<noteq> CloseAcknowledged"
  by (simp_all add: rank_def split: stream_state.split)

text \<open>What \<open>poll_flush\<close> cannot change if writing and flushing do not.\<close>

lemma poll_flush_unaffected:
  assumes "poll_flush E w s = Some (r, s')"
    and write_keeps: "\<And>w i fq r i' fq'. poll_write_buf E w i fq = (r, i', fq') \<Longrightarrow> g i' = g i"
    and flush_keeps: "\<And>w i. g (snd (io_poll_flush E w i)) = g i"
  shows "g (io (inner s')) = g (io (inner s))"
proof (rule poll_flush_rounds [where J = "\<lambda>t. g (io (inner t)) = g (io (inner s))" and Q = "\<lambda>r t. g (io (inner t)) = g (io (inner s))",
      OF assms(1) refl])
  show "g (io (inner (snd (flush_io E w t)))) = g (io (inner s))" if "g (io (inner t)) = g (io (inner s))" for t
    using flush_keeps [of w "io (inner t)"] that
    by (auto simp: flush_io_def Let_def set_io_def flush_failed_def set_flushing_waker_eq split: prod.split poll.split sum.split)
qed (auto simp: set_io_def flush_failed_def set_flushing_waker_eq dest: write_keeps)

context finite_transport
begin

lemma poll_flush_available:
  "poll_flush E w s = Some (r, s') \<Longrightarrow> available (io (inner s')) = available (io (inner s))"
  by (erule poll_flush_unaffected) (erule write_keeps, rule flush_keeps)

lemma read_frame_uses:
  assumes inv: "ws_inv s" and st: "state s \<in> {Active, ClosedByUs}" and rf: "read_frame E w s = Some (r, s')"
  shows "r = Ready (Some (Inr f)) \<Longrightarrow> to_decode available s' < to_decode available s"
    and "r = Ready (Some (Inl e)) \<Longrightarrow> rank (state s') < rank (state s)"
proof -
  have cinv: "codec_inv (decoder (inner s)) (buffer (inner s))" using inv st unfolding ws_inv_def by blast
  obtain rd fr where rd: "framed_poll_next E w (inner s) = (rd, fr)" by (cases "framed_poll_next E w (inner s)")
  have inner: "inner s' = fr" using read_frame_inner [OF rf] rd by simp
  show "to_decode available s' < to_decode available s" if "r = Ready (Some (Inr f))"
  proof -
    have "rd = Ready (Some (Inr f))"
      using rf rd that by (auto simp: read_frame_def Let_def dest!: on_read_error_result split: poll.splits option.splits sum.splits)
    then show ?thesis using read_uses [OF cinv] rd inner by (simp add: to_decode_def)
  qed
  show "rank (state s') < rank (state s)" if "r = Ready (Some (Inl e))"
  proof -
    have "on_read_error E (s\<lparr>inner := fr\<rparr>) e = Some (r, s')"
      using rf rd that by (auto simp: read_frame_def Let_def dest: on_read_error_result split: poll.splits option.splits sum.splits)
    then have "state s' \<in> {CloseAcknowledged, ClosedByPeer}"
      by (auto simp: on_read_error_def Let_def queue_frame_def split: if_splits option.splits prod.splits)
    then show ?thesis using st by auto
  qed
qed

lemma poll_next_frame_uses:
  assumes inv: "ws_inv s" and pf: "poll_next_frame E w s = Some (r, s')"
  shows "r = Ready (Some (Inr f)) \<Longrightarrow> to_decode available s' < to_decode available s"
    and "r = Ready (Some (Inl e)) \<Longrightarrow> rank (state s') < rank (state s)"
proof -
  have fq: "fq_inv (frame_queue s)" using inv by (simp add: ws_inv_def)
  have "(\<forall>f. r = Ready (Some (Inr f)) \<longrightarrow> to_decode available s' < to_decode available s) \<and>
    (\<forall>e. r = Ready (Some (Inl e)) \<longrightarrow> rank (state s') < rank (state s))"
  proof (cases "state s \<in> {Active, ClosedByUs}")
    case False
    then consider (ack) "state s = CloseAcknowledged" | (peer) "state s = ClosedByPeer" by (cases "state s") auto
    then show ?thesis
    proof cases
      case ack
      then show ?thesis using pf by (auto simp: poll_next_frame_def)
    next
      case peer
      from poll_flush_total [OF fq, of w] obtain r1 s1 where
        r1: "poll_flush E w s = Some (r1, s1)" and post: "flush_post written w s r1 s1" by blast
      have "state s1 = CloseAcknowledged" if "r1 = Ready (Inl e)" for e
        using post that by (simp add: flush_post_def)
      then show ?thesis using pf peer r1 by (cases r1) (auto simp: poll_next_frame_def split: sum.splits)
    qed
  next
    case read: True
    show ?thesis
    proof (cases "has_remaining (frame_queue s)")
      case False
      then have "read_frame E w s = Some (r, s')" using pf read by (auto simp: poll_next_frame_def)
      from read_frame_uses [OF inv read this] show ?thesis by blast
    next
      case True
      let ?w = "case flushing_waker s of None \<Rightarrow> w | Some v \<Rightarrow> v"
      from poll_flush_total [OF fq, of ?w] obtain r1 s1 where
        r1: "poll_flush E ?w s = Some (r1, s1)" and post: "flush_post written ?w s r1 s1" by blast
      note fs = flush_sends [OF inv post]
      have same: "to_decode available s1 = to_decode available s"
        using poll_flush_available [OF r1] post by (simp add: to_decode_def flush_post_def same_besides_io_def)
      show ?thesis
      proof (cases "\<exists>e. r1 = Ready (Inl e)")
        case err: True
        then have "state s1 = CloseAcknowledged" using post by (auto simp: flush_post_def)
        then show ?thesis using pf read r1 True err by (auto simp: poll_next_frame_def)
      next
        case ok: False
        then have rf: "read_frame E w s1 = Some (r, s')"
          using pf read r1 True by (cases r1) (auto simp: poll_next_frame_def split: sum.splits)
        have st: "state s1 = state s" using post ok by (auto simp: flush_post_def split: poll.splits sum.splits)
        have "state s1 \<in> {Active, ClosedByUs}" using st read by simp
        from read_frame_uses [OF fs(2) this rf] show ?thesis unfolding same st by blast
      qed
    qed
  qed
  then show "r = Ready (Some (Inr f)) \<Longrightarrow> to_decode available s' < to_decode available s"
    and "r = Ready (Some (Inl e)) \<Longrightarrow> rank (state s') < rank (state s)" by blast+
qed

lemma assemble_uses:
  "assemble m s f = Inl (x, s') \<Longrightarrow> to_decode available s' = to_decode available s \<and> state s' = state s"
  "assemble m s f = Inr s' \<Longrightarrow> to_decode available s' = to_decode available s \<and> state s' = state s"
  by (auto simp: assemble_def Let_def to_decode_def take_message_opcode_def split: if_splits)

text \<open>What one call of \<open>poll_next\<close> uses up: bytes, or a part of the way to the end.\<close>

definition closer :: "('io, 'f) websocket_stream \<Rightarrow> ('io, 'f) websocket_stream \<Rightarrow> bool" where
  "closer s' s \<longleftrightarrow> ((rank (state s'), to_decode available s'), (rank (state s), to_decode available s))
     \<in> less_than <*lex*> less_than"

lemma poll_next_loop_uses:
  assumes "ws_inv s"
  shows "\<exists>r s'. poll_next_loop E w m s = Some (r, s') \<and> ws_inv s' \<and> (\<forall>x. r = Ready (Some x) \<longrightarrow> closer s' s)"
  using assms
proof (induction "to_decode available s" arbitrary: s rule: less_induct)
  case less
  from poll_next_frame_sends [OF less.prems, of w] obtain r s1 frs where
    r: "poll_next_frame E w s = Some (r, s1)" and s1: "sends E written s frs s1" "ws_inv s1"
    and p0: "(\<exists>f. r = Ready (Some (Inr f))) \<longrightarrow> payload_processed (decoder (inner s1)) = 0" by blast
  have rk: "rank (state s1) \<le> rank (state s)" using s1(1) by (intro rank_mono) (simp add: sends_def)
  note uses = poll_next_frame_uses [OF less.prems r]
  have loop: "poll_next_loop E w m s = (case r of
      Pending \<Rightarrow> Some (Pending, s1) | Ready None \<Rightarrow> Some (Ready None, s1) | Ready (Some (Inl e)) \<Rightarrow> Some (Ready (Some (Inl e)), s1)
    | Ready (Some (Inr f)) \<Rightarrow> (case assemble m s1 f of
        Inl (m, s2) \<Rightarrow> Some (Ready (Some m), s2) | Inr s2 \<Rightarrow> poll_next_loop E w m s2))"
    by (subst poll_next_loop.simps) (simp add: r)
  show ?case
  proof (cases "\<exists>f. r = Ready (Some (Inr f))")
    case False
    have "closer s1 s" if "r = Ready (Some (Inl e))" for e using uses(2) [OF that] by (simp add: closer_def)
    with False show ?thesis using s1(2) unfolding loop by (auto split: poll.splits option.splits sum.splits)
  next
    case True
    then obtain f where f: "r = Ready (Some (Inr f))" by blast
    have less1: "to_decode available s1 < to_decode available s" by (rule uses(1) [OF f])
    have post: "case assemble m s1 f of
        Inl (_, s2) \<Rightarrow> sends E written s1 [] s2 \<and> ws_inv s2 | Inr s2 \<Rightarrow> sends E written s1 [] s2 \<and> ws_inv s2"
      using s1(2) p0 True by (intro assemble_sends) auto
    show ?thesis
    proof (cases "assemble m s1 f")
      case (Inl xs)
      obtain x s2 where xs: "xs = (x, s2)" by (cases xs)
      have "closer s2 s" using assemble_uses(1) [OF Inl [unfolded xs]] less1 rk by (auto simp: closer_def)
      then show ?thesis using post Inl xs f unfolding loop by simp
    next
      case (Inr s2)
      have s2: "to_decode available s2 < to_decode available s" "rank (state s2) \<le> rank (state s)" "ws_inv s2"
        using assemble_uses(2) [OF Inr] less1 rk post Inr by auto
      from less.hyps [OF s2(1,3)] obtain r' s' where "poll_next_loop E w m s2 = Some (r', s')" "ws_inv s'"
        "\<forall>x. r' = Ready (Some x) \<longrightarrow> closer s' s2" by blast
      moreover have "closer s' s" if "closer s' s2" using that s2 by (auto simp: closer_def)
      ultimately show ?thesis using Inr f unfolding loop by auto
    qed
  qed
qed

lemma poll_next_uses:
  "ws_inv s \<Longrightarrow> \<exists>r s'. poll_next E w s = Some (r, s') \<and> ws_inv s' \<and> (\<forall>x. r = Ready (Some x) \<longrightarrow> closer s' s)"
  unfolding poll_next_def by (rule poll_next_loop_uses)

lemma close_drain_ends:
  assumes "ws_inv s"
  shows "\<exists>r s'. close_drain E w s = Some (r, s') \<and> ws_inv s'"
  using assms
proof (induction "(rank (state s), to_decode available s)" arbitrary: s rule: wf_induct_rule
    [OF wf_lex_prod [OF wf_less_than wf_less_than]])
  case 1
  from poll_next_uses [OF 1(2), of w] obtain r s1 where
    s1: "poll_next E w s = Some (r, s1)" "ws_inv s1" "\<forall>x. r = Ready (Some x) \<longrightarrow> closer s1 s" by blast
  show ?case
  proof (cases "\<exists>x. r = Ready (Some x)")
    case True
    then have "closer s1 s" using s1(3) by blast
    from 1(1) [OF this [unfolded closer_def] s1(2)] obtain r' s' where
      "close_drain E w s1 = Some (r', s')" "ws_inv s'" by blast
    then show ?thesis using s1(1) True by (subst close_drain.simps) auto
  next
    case False
    then show ?thesis using s1 by (subst close_drain.simps) (auto split: poll.splits option.splits)
  qed
qed

lemma poll_close_ends:
  assumes "ws_inv s"
  shows "\<exists>r s'. poll_close E w s = Some (r, s')"
proof -
  let ?s = "if state s = Active then queue_frame E s DEFAULT_CLOSE else s"
  have "ws_inv ?s" using queue_frame_sends(2) [OF assms] assms by simp
  from close_drain_ends [OF this] obtain r s1 where s1: "close_drain E w ?s = Some (r, s1)" "ws_inv s1" by blast
  have "fq_inv (frame_queue s1)" using s1(2) by (simp add: ws_inv_def)
  from poll_flush_total [OF this, of w] obtain r2 s2 where "poll_flush E w s1 = Some (r2, s2)" by blast
  then show ?thesis
    unfolding poll_close_def s1(1) by (auto simp: Let_def split: poll.split sum.split prod.split)
qed

end

subsection \<open>The in-memory transport has finitely many bytes to give\<close>

lemma decode_finish_consumes:
  "decode_finish p src h = Some (Inr fo, p', src') \<Longrightarrow>
     \<exists>f. fo = Some f \<and> offset h + length (f_payload f) + length src' = length src"
  by (auto simp: decode_finish_def slice_eq_Some_iff split: option.splits)

lemma decode_unmasked_consumes:
  "decode_unmasked U p src h avail pay = Some (Inr fo, p', src') \<Longrightarrow>
     (case fo of None \<Rightarrow> src' = src | Some f \<Rightarrow> offset h + length (f_payload f) + length src' = length src)"
  by (auto simp: decode_unmasked_def Let_def dest!: decode_finish_consumes split: option.splits sum.splits prod.splits if_splits)

lemma decode_consumes:
  assumes inv: "codec_inv p src" and dec: "decode U pf p src = Some (Inr fo, p', src')"
  shows "case fo of None \<Rightarrow> length src' = length src | Some f \<Rightarrow> 2 + length (f_payload f) + length src' \<le> length src"
proof (cases "decode_head p src")
  case (Inl e)
  then show ?thesis using dec by (simp add: decode_def)
next
  case (Inr ho)
  show ?thesis
  proof (cases ho)
    case None
    then show ?thesis using Inr dec by (simp add: decode_def)
  next
    case (Some h)
    with Inr have head: "decode_head p src = Inr (Some h)" by simp
    have off: "2 \<le> offset h" using head_end_ge_2 [OF head] by (simp add: head_end_def split: if_splits)
    show ?thesis
    proof (cases "payload_length h = 0")
      case True
      then have "decode_finish p src h = Some (Inr fo, p', src')" using head dec by (simp add: decode_def)
      from decode_finish_consumes [OF this] off show ?thesis by auto
    next
      case False
      obtain avail hb key don raw tail where src: "src = hb @ key @ don @ raw @ tail"
        and lay: "layout p h avail hb key don raw tail"
        by (rule layout_exists [OF head inv False]) (rule that)
      from decode_layout [OF head False src lay refl, of U pf] dec off
      show ?thesis by (auto simp: src dest!: decode_unmasked_consumes split: option.splits)
    qed
  qed
qed

lemma duplex_read_uses:
  assumes "simdutf8_lib U" and "codec_inv p b" and "duplex_read U pf at_end cs p b = (Ready (Some (Inr f)), cs', p', b')"
  shows "length (concat cs') + length b' < length (concat cs) + length b"
  using assms(2,3)
proof (induction cs arbitrary: p b)
  case Nil
  then show ?case
    by (auto dest: decode_consumes [OF Nil(1)] split: option.splits sum.splits if_splits prod.splits)
next
  case (Cons c cs)
  from simdutf8_lib.decode_total [OF assms(1) Cons.prems(1), of pf] obtain d p1 b1 where
    d: "decode U pf p b = Some (d, p1, b1)" and inv: "d = Inr None \<Longrightarrow> codec_inv p1 b1" by (auto simp: decode_post_def)
  show ?case
  proof (cases "d = Inr None")
    case True
    have "duplex_read U pf at_end cs p1 (b1 @ c) = (Ready (Some (Inr f)), cs', p', b')" using Cons.prems(2) d True by simp
    from Cons.IH [OF codec_inv_append [OF inv [OF True]] this] decode_consumes [OF Cons.prems(1) d [unfolded True]]
    show ?thesis by simp
  next
    case False
    with Cons.prems(2) d decode_consumes [OF Cons.prems(1), of U pf] show ?thesis
      by (fastforce split: sum.splits option.splits)
  qed
qed

lemma duplex_finite:
  assumes "simdutf8_lib U" and "\<And>k. length (keys k) = 4"
  shows "finite_transport U (duplex_env U pf keys) sent (\<lambda>i. length (concat (incoming i)))"
proof (rule finite_transport.intro [OF duplex_transport [OF assms] finite_transport_axioms.intro])
  fix fr fr' :: "(duplex, unit) framed_read" and w f
  assume inv: "codec_inv (decoder fr) (buffer fr)"
    and "framed_poll_next (duplex_env U pf keys) w fr = (Ready (Some (Inr f)), fr')"
  then obtain cs p b where r: "duplex_read U pf (eof (io fr)) (incoming (io fr)) (decoder fr) (buffer fr) = (Ready (Some (Inr f)), cs, p, b)"
    and fr': "fr' = fr\<lparr>io := (io fr)\<lparr>incoming := cs\<rparr>, decoder := p, buffer := b\<rparr>"
    by (auto simp: duplex_env_def duplex_poll_next_def split: prod.splits)
  from duplex_read_uses [OF assms(1) inv r] show "length (concat (incoming (io fr'))) + length (buffer fr')
      < length (concat (incoming (io fr))) + length (buffer fr)" by (simp add: fr')
next
  fix w d fq r d' fq'
  assume "poll_write_buf (duplex_env U pf keys) w d fq = (r, d', fq')"
  then show "length (concat (incoming d')) = length (concat (incoming d))"
    by (auto simp: duplex_env_def duplex_write_def Let_def split: list.splits option.splits)
qed (simp add: duplex_env_def)

interpretation std_finite: finite_transport std_utf8 std_env sent "\<lambda>i. length (concat (incoming i))"
  by (rule duplex_finite [OF std.simdutf8_lib_axioms]) simp

text \<open>
  C20: The reading loops end. If the transport has finitely many bytes to give before it is pending,
  \<open>poll_next\<close> returns, from any state that a connection can reach and whatever the bytes are, and so
  does \<open>poll_close\<close> with its loop that discards messages and errors until the stream has ended.
\<close>

theorem reading_loops_end:
  assumes "finite_transport U E written available" and "ws_inv s"
  shows "(\<exists>r s'. poll_next E w s = Some (r, s') \<and> ws_inv s') \<and> (\<exists>r s'. poll_close E w s = Some (r, s'))"
proof
  show "\<exists>r s'. poll_next E w s = Some (r, s') \<and> ws_inv s'"
    using finite_transport.poll_next_uses [OF assms] by blast
  show "\<exists>r s'. poll_close E w s = Some (r, s')" by (rule finite_transport.poll_close_ends [OF assms])
qed

text \<open>A client whose peer has sent a ping, a pong, and a text message that is not complete.\<close>

definition busy_reader :: "(duplex, unit) websocket_stream" where
  "busy_reader = from_raw_stream
     \<lparr>incoming = [[0x89, 0x01, 0x70], [0x8A, 0x00, 0x01], [0x02, 0x68, 0x69]], eof = True, room = [3, 100], sent = []\<rparr>
     () Client config_default limits_default"

theorem reading_loops_end_witness:
  "(\<exists>r s'. poll_next std_env 0 busy_reader = Some (r, s') \<and> ws_inv s') \<and> (\<exists>r s'. poll_close std_env 0 busy_reader = Some (r, s'))"
proof -
  have "ws_inv busy_reader" unfolding busy_reader_def by (rule ws_inv_new) (simp add: limits_default_def)
  then show ?thesis by (rule reading_loops_end [OF std_finite.finite_transport_axioms])
qed

end
