(* ===== verification/Byte_Transport.thy ===== *)
theory Byte_Transport
  imports Tls Stream_Ends
begin

text \<open>
  A WebSocket stream over a byte stream: what \<open>FramedRead\<close> and \<open>poll_write_buf\<close> of tokio-util document,
  on top of any \<open>AsyncRead\<close> and \<open>AsyncWrite\<close> that keeps its contract, for example a \<open>MaybeTlsStream\<close>,
  is a \<open>transport\<close>. Here the bytes that are read are known, too: they are the next ones that the byte
  stream gives.
\<close>

subsection \<open>The documented behaviour of tokio-util\<close>

text \<open>
  \<open>poll_write_buf\<close>: nothing for an empty buffer; otherwise one write, vectored with at most 64 slices if the
  stream supports it, and the buffer advanced by what was written.
\<close>

definition write_buf ::
  "'io async_io \<Rightarrow> waker \<Rightarrow> 'io \<Rightarrow> frame_queue \<Rightarrow> (io_error + usize) poll \<times> 'io \<times> frame_queue" where
  "write_buf A w i fq =
     (if \<not> has_remaining fq then (Ready (Inr 0), i, fq)
      else let (r, i') = (if aio_is_write_vectored A i
             then (case chunks_vectored fq 64 of None \<Rightarrow> (Pending, i) | Some cs \<Rightarrow> aio_write_vectored A w cs i)
             else (case chunk fq of None \<Rightarrow> (Pending, i) | Some c \<Rightarrow> aio_write A w c i))
           in case r of
                Ready (Inr n) \<Rightarrow> (case advance fq n of None \<Rightarrow> (Pending, i', fq) | Some fq' \<Rightarrow> (r, i', fq'))
              | _ \<Rightarrow> (r, i', fq))"

text \<open>\<open>reads_to\<close>: \<open>poll_next\<close> has appended the chunks \<open>cs\<close> to the buffer, decoding before each of them.\<close>

definition reads_to ::
  "simdutf8 \<Rightarrow> platform \<Rightarrow> ('io, 'f) framed_read \<Rightarrow> bytes list \<Rightarrow> (error + wsframe) option poll \<Rightarrow> ('io, 'f) framed_read \<Rightarrow> bool" where
  "reads_to U pf fr cs r fr' \<longleftrightarrow> (\<exists>d.
     decode_reads U pf (decoder fr) (buffer fr) cs = Some (d, decoder fr', buffer fr') \<and>
     (case r of
        Pending \<Rightarrow> d = Inr None
      | Ready None \<Rightarrow> d = Inr None
      | Ready (Some (Inr f)) \<Rightarrow> d = Inr (Some f)
      | Ready (Some (Inl e)) \<Rightarrow> d = Inl e \<or> (d = Inr None \<and> (\<exists>x. e = Io x))))"

locale byte_transport = simdutf8_lib U + byte_stream A seen
  for U :: simdutf8 and A :: "'io async_io" and seen :: "'io \<Rightarrow> bytes \<times> bytes" +
  fixes E :: "('io, 'f) env"
  assumes mask_length: "length (masks E k) = 4"
    and writes_buf: "poll_write_buf E w i fq = write_buf A w i fq"
    and flushes: "io_poll_flush E w i = aio_flush A w i"
    and shuts_down: "io_poll_shutdown E w i = aio_shutdown A w i"
    and reads_frames: "codec_inv (decoder fr) (buffer fr) \<Longrightarrow> framed_poll_next E w fr = (rd, fr') \<Longrightarrow>
      \<exists>cs. reads_to U (cpu E) fr cs rd fr' \<and> fst (seen (io fr')) = fst (seen (io fr))
        \<and> snd (seen (io fr)) = concat cs @ snd (seen (io fr'))"

subsection \<open>It is a transport\<close>

lemma advance_empty:
  assumes "fq_inv fq" and "\<not> has_remaining fq"
  shows "advance fq 0 = Some fq"
proof -
  have "length (contents fq) = 0" using assms fq.rem_eq [OF assms(1)] by (simp add: has_remaining_def)
  then have "queue fq = []"
  proof (cases "queue fq")
    case (Cons ef q)
    then have "bytes_written fq < encoded_frame_len ef" "length (frame_bytes ef) = encoded_frame_len ef"
      using assms(1) by (simp_all add: fq_inv_def)
    then show ?thesis using \<open>length (contents fq) = 0\<close> Cons by (simp add: contents_def)
  qed simp
  then show ?thesis using assms(1) by (simp add: advance_def fq_inv_def contents_def)
qed

lemma write_buf_input:
  assumes "byte_stream A seen" and "write_buf A w i fq = (r, i', fq')"
  shows "snd (seen i') = snd (seen i)"
proof -
  have ok: "snd (seen (snd (aio_write A w b i))) = snd (seen i)" "snd (seen (snd (aio_write_vectored A w bs i))) = snd (seen i)" for b bs
    using byte_stream.write_law [OF assms(1), of b i w] byte_stream.vectored_law [OF assms(1), of bs i w] by (simp_all add: write_ok_def)
  show ?thesis using assms(2) ok
    by (auto simp: write_buf_def split_beta split: poll.splits sum.splits option.splits if_splits)
qed

lemma write_buf_cases:
  assumes "byte_stream A seen" and "fq_inv fq" and w: "write_buf A w i fq = (r, i', fq')"
  shows "r = Ready (Inr n) \<Longrightarrow> n \<le> remaining fq \<and> advance fq n = Some fq' \<and> fst (seen i') = fst (seen i) @ take n (contents fq)"
    and "r = Pending \<or> (\<exists>e. r = Ready (Inl e)) \<Longrightarrow> fq' = fq \<and> fst (seen i') = fst (seen i)"
proof -
  obtain cs c where chunks: "chunks_vectored fq 64 = Some cs" "prefix (concat cs) (contents fq)"
      "chunk fq = Some c" "prefix c (contents fq)"
    using fq.vec_prefix [OF assms(2)] fq.chk_prefix [OF assms(2)] by blast
  define o1 where "o1 = (if aio_is_write_vectored A i then aio_write_vectored A w cs i else aio_write A w c i)"
  define b where "b = (if aio_is_write_vectored A i then concat cs else c)"
  have b: "prefix b (contents fq)" using chunks by (simp add: b_def)
  have ok: "write_ok b (seen i) (fst o1) (seen (snd o1))"
    using byte_stream.write_law [OF assms(1)] byte_stream.vectored_law [OF assms(1)] by (simp add: o1_def b_def)
  have o1: "(if aio_is_write_vectored A i
      then (case chunks_vectored fq 64 of None \<Rightarrow> (Pending, i) | Some cs \<Rightarrow> aio_write_vectored A w cs i)
      else (case chunk fq of None \<Rightarrow> (Pending, i) | Some c \<Rightarrow> aio_write A w c i)) = o1"
    using chunks by (simp add: o1_def)
  have eq: "has_remaining fq \<Longrightarrow> (r, i', fq') = (case fst o1 of
      Ready (Inr n) \<Rightarrow> (case advance fq n of None \<Rightarrow> (Pending, snd o1, fq) | Some fq' \<Rightarrow> (fst o1, snd o1, fq'))
    | _ \<Rightarrow> (fst o1, snd o1, fq))"
    using w unfolding write_buf_def o1 by (simp add: split_beta split: poll.splits sum.splits option.splits)
  have empty: "\<not> has_remaining fq \<Longrightarrow> r = Ready (Inr 0) \<and> i' = i \<and> fq' = fq" using w by (simp add: write_buf_def)
  have adv: "advance fq n = None \<Longrightarrow> length b < n" for n
    using fq.adv_drop [OF assms(2), of n] prefix_length_le [OF b] by (cases "n \<le> length (contents fq)") auto
  have take: "take n b = take n (contents fq)" if "n \<le> length b" for n using that b by (auto elim!: prefixE)
  have rem: "remaining fq = length (contents fq)" by (rule fq.rem_eq [OF assms(2)])
  have adv0: "advance fq 0 = Some fq" if "\<not> has_remaining fq" using assms(2) that by (rule advance_empty)
  show "n \<le> remaining fq \<and> advance fq n = Some fq' \<and> fst (seen i') = fst (seen i) @ take n (contents fq)" if "r = Ready (Inr n)"
  proof (cases "has_remaining fq")
    case True
    then have "fst o1 = Ready (Inr n)" "i' = snd o1" "advance fq n = Some fq'"
      using eq that by (auto split: poll.splits sum.splits option.splits)
    then show ?thesis using ok take [of n] prefix_length_le [OF b] by (simp add: write_ok_def rem)
  next
    case False
    then show ?thesis using empty that adv0 by simp
  qed
  show "fq' = fq \<and> fst (seen i') = fst (seen i)" if "r = Pending \<or> (\<exists>e. r = Ready (Inl e))"
  proof (cases "has_remaining fq")
    case True
    have "\<not> (\<exists>n. fst o1 = Ready (Inr n))"
    proof
      assume "\<exists>n. fst o1 = Ready (Inr n)"
      then obtain m where m: "fst o1 = Ready (Inr m)" by blast
      then have "advance fq m \<noteq> None" using ok adv [of m] by (auto simp: write_ok_def)
      then show False using eq [OF True] that m by auto
    qed
    then show ?thesis using eq [OF True] ok by (auto simp: write_ok_def split: poll.splits sum.splits)
  qed (use empty that in auto)
qed

lemma decode_reads_consumes:
  assumes "simdutf8_lib U" and "codec_inv p b" and "decode_reads U pf p b cs = Some (Inr (Some f), p', b')"
  shows "length b' < length b + length (concat cs)"
  using assms(2,3)
proof (induction cs arbitrary: p b)
  case Nil
  then show ?case using decode_consumes [OF Nil(1), of U pf "Some f" p' b'] by simp
next
  case (Cons c cs)
  from simdutf8_lib.decode_total [OF assms(1) Cons.prems(1), of pf] obtain d p1 b1 where
    d: "decode U pf p b = Some (d, p1, b1)" and inv: "d = Inr None \<Longrightarrow> codec_inv p1 b1" by (auto simp: decode_post_def)
  show ?case
  proof (cases "d = Inr None")
    case True
    with Cons.prems(2) d have "decode_reads U pf p1 (b1 @ c) cs = Some (Inr (Some f), p', b')" by simp
    from Cons.IH [OF codec_inv_append [OF inv [OF True]] this] decode_consumes [OF Cons.prems(1) d [unfolded True]]
    show ?thesis by simp
  next
    case False
    with Cons.prems(2) d have "d = Inr (Some f)" "b' = b1 @ concat (c # cs)" by (auto split: sum.splits option.splits)
    with decode_consumes [OF Cons.prems(1), of U pf "Some f" p1 b1] d show ?thesis by simp
  qed
qed

context byte_transport
begin

lemma is_transport: "transport U E (\<lambda>i. fst (seen i))"
proof unfold_locales
  show "length (masks E k) = 4" for k by (rule mask_length)
  fix w i fq i' fq'
  assume inv: "fq_inv fq"
  show "n \<le> remaining fq \<and> advance fq n = Some fq' \<and> fst (seen i') = fst (seen i) @ take n (contents fq)"
    if "poll_write_buf E w i fq = (Ready (Inr n), i', fq')" for n
    using write_buf_cases(1) [OF byte_stream_axioms inv that [unfolded writes_buf] refl] .
  show "fq' = fq \<and> fst (seen i') = fst (seen i)"
    if "poll_write_buf E w i fq = (r, i', fq')" "r = Pending \<or> (\<exists>e. r = Ready (Inl e))" for r
    using write_buf_cases(2) [OF byte_stream_axioms inv that(1) [unfolded writes_buf] that(2)] .
next
  show "fst (seen (snd (io_poll_flush E w i))) = fst (seen i)" "fst (seen (snd (io_poll_shutdown E w i))) = fst (seen i)" for w i
    using flush_law shutdown_law by (simp_all add: flushes shuts_down)
  fix fr fr' w rd
  assume "codec_inv (decoder fr) (buffer fr)" and "framed_poll_next E w fr = (rd, fr')"
  from reads_frames [OF this] show "read_result U (cpu E) fr rd fr' \<and> fst (seen (io fr')) = fst (seen (io fr))"
    unfolding reads_to_def read_result_def by blast
qed

text \<open>Flushing leaves what there is to read.\<close>

lemma flush_leaves_input:
  assumes "poll_flush E w s = Some (r, s')"
  shows "snd (seen (io (inner s'))) = snd (seen (io (inner s)))"
  using write_buf_input [OF byte_stream_axioms]
  by (rule poll_flush_unaffected [where g = "\<lambda>i. snd (seen i)", OF assms]) (simp_all add: writes_buf flushes flush_law)

lemma is_finite_transport: "finite_transport U E (\<lambda>i. fst (seen i)) (\<lambda>i. length (snd (seen i)))"
proof (rule finite_transport.intro [OF is_transport finite_transport_axioms.intro])
  fix fr fr' w f
  assume inv: "codec_inv (decoder fr) (buffer fr)" and "framed_poll_next E w fr = (Ready (Some (Inr f)), fr')"
  from reads_frames [OF this] obtain cs where
    cs: "decode_reads U (cpu E) (decoder fr) (buffer fr) cs = Some (Inr (Some f), decoder fr', buffer fr')"
      "snd (seen (io fr)) = concat cs @ snd (seen (io fr'))"
    by (auto simp: reads_to_def)
  from decode_reads_consumes [OF simdutf8_lib_axioms inv cs(1)] cs(2)
  show "length (snd (seen (io fr'))) + length (buffer fr') < length (snd (seen (io fr))) + length (buffer fr)" by simp
next
  fix w i fq r i' fq'
  assume wb: "poll_write_buf E w i fq = (r, i', fq')"
  show "length (snd (seen i')) = length (snd (seen i))"
    using write_buf_input [OF byte_stream_axioms wb [unfolded writes_buf]] by simp
qed (simp add: flushes flush_law)

end

subsection \<open>Such functions exist\<close>

text \<open>
  An environment over any byte stream. Its \<open>FramedRead\<close> makes at most \<open>k\<close> reads in one call and then is pending,
  as it may be.
\<close>

fun framed_next ::
  "simdutf8 \<Rightarrow> platform \<Rightarrow> 'io async_io \<Rightarrow> waker \<Rightarrow> nat \<Rightarrow> ('io, unit) framed_read
     \<Rightarrow> (error + wsframe) option poll \<times> ('io, unit) framed_read" where
  "framed_next U pf A w k fr =
     (case decode U pf (decoder fr) (buffer fr) of
        None \<Rightarrow> (Pending, fr)
      | Some (d, p, b) \<Rightarrow>
          let fr1 = fr\<lparr>decoder := p, buffer := b\<rparr>
          in case d of
               Inl e \<Rightarrow> (Ready (Some (Inl e)), fr1)
             | Inr (Some f) \<Rightarrow> (Ready (Some (Inr f)), fr1)
             | Inr None \<Rightarrow>
                 (case k of
                    0 \<Rightarrow> (Pending, fr1)
                  | Suc k' \<Rightarrow>
                      let (r, i) = aio_read A w 8192 (io fr); fr2 = fr1\<lparr>io := i\<rparr>
                      in case r of
                           Pending \<Rightarrow> (Pending, fr2)
                         | Ready (Inl x) \<Rightarrow> (Ready (Some (Inl (Io x))), fr2)
                         | Ready (Inr bs) \<Rightarrow>
                             if bs = [] then (if b = [] then Ready None else Ready (Some (Inl (Io UnexpectedEof))), fr2)
                             else framed_next U pf A w k' (fr2\<lparr>buffer := b @ bs\<rparr>)))"

declare framed_next.simps [simp del]

definition framed_env :: "simdutf8 \<Rightarrow> platform \<Rightarrow> (nat \<Rightarrow> bytes) \<Rightarrow> nat \<Rightarrow> 'io async_io \<Rightarrow> ('io, unit) env" where
  "framed_env U pf keys k A =
     \<lparr>cpu = pf, masks = keys, framed_poll_next = (\<lambda>w. framed_next U pf A w k), poll_write_buf = write_buf A,
      io_poll_flush = aio_flush A, io_poll_shutdown = aio_shutdown A\<rparr>"

lemma framed_next_reads:
  assumes U: "simdutf8_lib U" and A: "byte_stream A seen"
    and "codec_inv (decoder fr) (buffer fr)" and "framed_next U pf A w k fr = (rd, fr')"
  shows "\<exists>cs. reads_to U pf fr cs rd fr' \<and> fst (seen (io fr')) = fst (seen (io fr))
    \<and> snd (seen (io fr)) = concat cs @ snd (seen (io fr'))"
  using assms(3,4)
proof (induction k arbitrary: fr)
  case (0 fr)
  from simdutf8_lib.decode_total [OF U 0(1), of pf] obtain d p b where
    d: "decode U pf (decoder fr) (buffer fr) = Some (d, p, b)" by (auto simp: decode_post_def)
  show ?case using 0(2) d
    by (intro exI [of _ "[]"]) (auto simp: framed_next.simps [of U pf A w 0] reads_to_def Let_def split: sum.splits option.splits)
next
  case (Suc k fr)
  from simdutf8_lib.decode_total [OF U Suc.prems(1), of pf] obtain d p b where
    d: "decode U pf (decoder fr) (buffer fr) = Some (d, p, b)" and inv: "d = Inr None \<Longrightarrow> codec_inv p b"
    by (auto simp: decode_post_def)
  obtain r i where ri: "aio_read A w 8192 (io fr) = (r, i)" by (cases "aio_read A w 8192 (io fr)")
  have law: "read_ok 8192 (seen (io fr)) r (seen i)" using byte_stream.read_law [OF A, of 8192 "io fr" w] ri by simp
  let ?fr2 = "fr\<lparr>decoder := p, buffer := b, io := i\<rparr>"
  show ?case
  proof (cases "d = Inr None \<and> (\<exists>bs. r = Ready (Inr bs) \<and> bs \<noteq> [])")
    case True
    then obtain bs where bs: "d = Inr None" "r = Ready (Inr bs)" "bs \<noteq> []" by blast
    let ?fr3 = "?fr2\<lparr>buffer := b @ bs\<rparr>"
    have "framed_next U pf A w k ?fr3 = (rd, fr')"
      using Suc.prems(2) d ri bs by (simp add: framed_next.simps [of U pf A w "Suc k"] Let_def)
    moreover have "codec_inv (decoder ?fr3) (buffer ?fr3)" using inv [OF bs(1)] by (simp add: codec_inv_append)
    ultimately obtain cs where cs: "reads_to U pf ?fr3 cs rd fr'" "fst (seen (io fr')) = fst (seen (io ?fr3))"
      "snd (seen (io ?fr3)) = concat cs @ snd (seen (io fr'))"
      using Suc.IH by blast
    then show ?thesis using d bs law
      by (intro exI [of _ "bs # cs"]) (auto simp: reads_to_def read_ok_def)
  next
    case False
    then have "fr' = (if d = Inr None then ?fr2 else fr\<lparr>decoder := p, buffer := b\<rparr>) \<and>
        (case rd of Pending \<Rightarrow> d = Inr None | Ready None \<Rightarrow> d = Inr None | Ready (Some (Inr f)) \<Rightarrow> d = Inr (Some f)
         | Ready (Some (Inl e)) \<Rightarrow> d = Inl e \<or> (d = Inr None \<and> (\<exists>x. e = Io x)))"
      using Suc.prems(2) d ri
      by (auto simp: framed_next.simps [of U pf A w "Suc k"] Let_def split: sum.splits option.splits poll.splits if_splits)
    moreover have "seen i = seen (io fr)" if "d = Inr None"
      using law False that by (cases r) (auto simp: read_ok_def prod_eq_iff split: sum.splits)
    ultimately show ?thesis using d by (intro exI [of _ "[]"]) (auto simp: reads_to_def)
  qed
qed

theorem framed_env_byte_transport:
  assumes "simdutf8_lib U" and "byte_stream A seen" and "\<And>k. length (keys k) = 4"
  shows "byte_transport U A seen (framed_env U pf keys k A)"
proof (rule byte_transport.intro [OF assms(1,2) byte_transport_axioms.intro])
  fix fr fr' :: "('a, unit) framed_read" and w rd
  assume "codec_inv (decoder fr) (buffer fr)" and "framed_poll_next (framed_env U pf keys k A) w fr = (rd, fr')"
  then show "\<exists>cs. reads_to U (cpu (framed_env U pf keys k A)) fr cs rd fr' \<and> fst (seen (io fr')) = fst (seen (io fr))
      \<and> snd (seen (io fr)) = concat cs @ snd (seen (io fr'))"
    using framed_next_reads [OF assms(1,2)] by (simp add: framed_env_def)
qed (simp_all add: framed_env_def assms(3))

text \<open>For example over a stream that may be protected with TLS.\<close>

abbreviation "tls_pipe \<equiv> maybe_tls_io (pipe_io 1) (pipe_io 2) (pipe_io 3)"
abbreviation "tls_pipe_env \<equiv> framed_env std_utf8 scalar_platform (\<lambda>_. [0x37, 0xFA, 0x21, 0x3D]) 3 tls_pipe"

interpretation tls_transport: byte_transport std_utf8 tls_pipe "case_maybe_tls_stream id id id" tls_pipe_env
  by (rule framed_env_byte_transport [OF std.simdutf8_lib_axioms pipes.tls_stream]) simp

end
