(* ===== verification/Late_Bytes.thy ===== *)
theory Late_Bytes
  imports Stream_Reading Stream_Ends
begin

text \<open>
  What a stream over the transport in memory does without waiting, it does in the same way when more
  bytes arrive: the calls that return a message or an error are the same calls on a longer input.
\<close>

definition arrive :: "bytes \<Rightarrow> (duplex, unit) websocket_stream \<Rightarrow> (duplex, unit) websocket_stream" where
  "arrive bs t = t\<lparr>inner := (inner t)\<lparr>io := (io (inner t))\<lparr>incoming := incoming (io (inner t)) @ [bs]\<rparr>\<rparr>\<rparr>"

lemma arrive_fields [simp]:
  "state (arrive bs t) = state t" "frame_queue (arrive bs t) = frame_queue t" "flushing_waker (arrive bs t) = flushing_waker t"
  "decoder (inner (arrive bs t)) = decoder (inner t)" "buffer (inner (arrive bs t)) = buffer (inner t)"
  "eof (io (inner (arrive bs t))) = eof (io (inner t))" "room (io (inner (arrive bs t))) = room (io (inner t))"
  "incoming (io (inner (arrive bs t))) = incoming (io (inner t)) @ [bs]" "unread (inner (arrive bs t)) = unread (inner t) @ bs"
  by (simp_all add: arrive_def unread_def)

lemma duplex_read_arrive:
  "duplex_read U pf False cs p b = (r, cs', p', b') \<Longrightarrow> r \<noteq> Pending \<Longrightarrow>
     duplex_read U pf False (cs @ [bs]) p b = (r, cs' @ [bs], p', b')"
  by (induction cs arbitrary: p b) (auto split: option.splits sum.splits prod.splits)

lemma duplex_write_arrive:
  "duplex_write w (d\<lparr>incoming := x\<rparr>) fq = (case duplex_write w d fq of (r, d', fq') \<Rightarrow> (r, d'\<lparr>incoming := x\<rparr>, fq'))"
  "duplex_write w d fq = (r, d', fq') \<Longrightarrow> incoming d' = incoming d \<and> eof d' = eof d"
  by (auto simp: duplex_write_def Let_def split: list.splits option.splits)

lemma flush_step_arrive:
  "(set_io (arrive bs t) (d\<lparr>incoming := incoming d @ [bs]\<rparr>))\<lparr>frame_queue := fq\<rparr> = arrive bs ((set_io t d)\<lparr>frame_queue := fq\<rparr>)"
  "flush_failed (arrive bs t) = arrive bs (flush_failed t)"
  "set_flushing_waker (arrive bs t) w = arrive bs (set_flushing_waker t w)"
  by (simp_all add: arrive_def set_io_def flush_failed_def set_flushing_waker_eq)

lemma poll_flush_arrive:
  assumes "poll_flush (duplex_env U pf keys) w t = Some (r, t')"
  shows "poll_flush (duplex_env U pf keys) w (arrive bs t) = Some (r, arrive bs t') \<and> eof (io (inner t')) = eof (io (inner t))"
proof -
  let ?E = "duplex_env U pf keys"
  let ?F = "\<lambda>t. poll_flush ?E w (arrive bs t)"
  let ?J = "\<lambda>u. ?F t = ?F u \<and> eof (io (inner u)) = eof (io (inner t))"
  let ?Q = "\<lambda>r t'. ?F t = Some (r, arrive bs t') \<and> eof (io (inner t')) = eof (io (inner t))"
  have step: "?F u = (case x of
        Ready (Inl e) \<Rightarrow> Some (Ready (Inl (Io e)), arrive bs (flush_failed ((set_io u d)\<lparr>frame_queue := fq\<rparr>)))
      | Pending \<Rightarrow> Some (Pending, arrive bs (set_flushing_waker ((set_io u d)\<lparr>frame_queue := fq\<rparr>) w))
      | Ready (Inr n) \<Rightarrow> if n = 0 then Some (Ready (Inl (Io WriteZero)), arrive bs (flush_failed ((set_io u d)\<lparr>frame_queue := fq\<rparr>)))
          else ?F ((set_io u d)\<lparr>frame_queue := fq\<rparr>))"
    and keeps: "eof d = eof (io (inner u))"
    if rem: "has_remaining (frame_queue u)" and wb: "poll_write_buf ?E w (io (inner u)) (frame_queue u) = (x, d, fq)" for u x d fq
  proof -
    have w: "duplex_write w (io (inner u)) (frame_queue u) = (x, d, fq)" using wb by (simp add: duplex_env_def)
    note d = duplex_write_arrive(2) [OF w]
    show "eof d = eof (io (inner u))" using d by simp
    have "poll_write_buf ?E w (io (inner (arrive bs u))) (frame_queue (arrive bs u)) = (x, d\<lparr>incoming := incoming d @ [bs]\<rparr>, fq)"
      using w d by (simp add: duplex_env_def arrive_def duplex_write_arrive(1))
    then show "?F u = (case x of
        Ready (Inl e) \<Rightarrow> Some (Ready (Inl (Io e)), arrive bs (flush_failed ((set_io u d)\<lparr>frame_queue := fq\<rparr>)))
      | Pending \<Rightarrow> Some (Pending, arrive bs (set_flushing_waker ((set_io u d)\<lparr>frame_queue := fq\<rparr>) w))
      | Ready (Inr n) \<Rightarrow> if n = 0 then Some (Ready (Inl (Io WriteZero)), arrive bs (flush_failed ((set_io u d)\<lparr>frame_queue := fq\<rparr>)))
          else ?F ((set_io u d)\<lparr>frame_queue := fq\<rparr>))"
      using rem by (subst poll_flush.simps) (simp add: Let_def flush_step_arrive split: poll.split sum.split)
  qed
  show ?thesis
  proof (rule poll_flush_rounds [where J = ?J and Q = ?Q, OF assms])
    show "?Q (fst (flush_io ?E w u)) (snd (flush_io ?E w u))" if "?J u" "\<not> has_remaining (frame_queue u)" for u
      using that poll_flush.simps [of ?E w "arrive bs u"] by (auto simp: flush_io_def duplex_env_def set_io_def arrive_def Let_def)
    show "?Q (Ready (Inl (Io e))) (flush_failed ((set_io u d)\<lparr>frame_queue := fq\<rparr>))"
      if "?J u" "has_remaining (frame_queue u)" "poll_write_buf ?E w (io (inner u)) (frame_queue u) = (Ready (Inl e), d, fq)" for u e d fq
      using that(1) step [OF that(2,3)] keeps [OF that(2,3)] by (simp add: flush_failed_def set_io_def)
    show "?Q (Ready (Inl (Io WriteZero))) (flush_failed ((set_io u d)\<lparr>frame_queue := fq\<rparr>))"
      if "?J u" "has_remaining (frame_queue u)" "poll_write_buf ?E w (io (inner u)) (frame_queue u) = (Ready (Inr 0), d, fq)" for u d fq
      using that(1) step [OF that(2,3)] keeps [OF that(2,3)] by (simp add: flush_failed_def set_io_def)
    show "?Q Pending (set_flushing_waker ((set_io u d)\<lparr>frame_queue := fq\<rparr>) w)"
      if "?J u" "has_remaining (frame_queue u)" "poll_write_buf ?E w (io (inner u)) (frame_queue u) = (Pending, d, fq)" for u d fq
      using that(1) step [OF that(2,3)] keeps [OF that(2,3)] by (simp add: set_flushing_waker_eq set_io_def)
    show "?J ((set_io u d)\<lparr>frame_queue := fq\<rparr>)"
      if "?J u" "has_remaining (frame_queue u)" "poll_write_buf ?E w (io (inner u)) (frame_queue u) = (Ready (Inr n), d, fq)" "n \<noteq> 0" for u n d fq
      using that(1,4) step [OF that(2,3)] keeps [OF that(2,3)] by (simp add: set_io_def)
  qed simp
qed

lemma queue_frame_arrive: "queue_frame E (arrive bs t) fr = arrive bs (queue_frame E t fr)"
  by (simp add: queue_frame_def mask_frame_for_sending_def arrive_def Let_def split: prod.split)

lemma state_arrive: "(arrive bs t)\<lparr>state := x\<rparr> = arrive bs (t\<lparr>state := x\<rparr>)"
  by (simp add: arrive_def)

lemma on_frame_arrive: "on_frame E (arrive bs t) fr = arrive bs (on_frame E t fr)"
  by (simp add: on_frame_def queue_frame_arrive state_arrive split: stream_state.split)

lemma on_read_error_arrive:
  "on_read_error E t e = Some (r, t') \<Longrightarrow> on_read_error E (arrive bs t) e = Some (r, arrive bs t')"
  by (auto simp: on_read_error_def Let_def queue_frame_arrive state_arrive split: if_splits option.splits)

lemma eof_keeps [simp]:
  "eof (io (inner (on_frame E t fr))) = eof (io (inner t))" "eof (io (inner (queue_frame E t fr))) = eof (io (inner t))"
  "on_read_error E t e = Some (r, t') \<Longrightarrow> eof (io (inner t')) = eof (io (inner t))"
  by (auto simp: on_read_error_def on_frame_def queue_frame_def Let_def split: prod.splits stream_state.splits if_splits option.splits)

lemma read_frame_arrive:
  assumes "read_frame (duplex_env U pf keys) w t = Some (r, t')" and "r \<noteq> Pending" and "\<not> eof (io (inner t))"
  shows "read_frame (duplex_env U pf keys) w (arrive bs t) = Some (r, arrive bs t') \<and> \<not> eof (io (inner t'))"
proof -
  let ?E = "duplex_env U pf keys"
  obtain rd cs p b where rd: "duplex_read U pf False (incoming (io (inner t))) (decoder (inner t)) (buffer (inner t)) = (rd, cs, p, b)"
    by (cases "duplex_read U pf False (incoming (io (inner t))) (decoder (inner t)) (buffer (inner t))")
  let ?t1 = "t\<lparr>inner := (inner t)\<lparr>io := (io (inner t))\<lparr>incoming := cs\<rparr>, decoder := p, buffer := b\<rparr>\<rparr>"
  have ne: "rd \<noteq> Pending" using assms rd by (auto simp: read_frame_def duplex_env_def duplex_poll_next_def)
  have fp: "framed_poll_next ?E w (inner t) = (rd, inner ?t1)"
    "framed_poll_next ?E w (inner (arrive bs t)) = (rd, inner (arrive bs ?t1))"
    using rd duplex_read_arrive [OF rd ne, of bs] assms(3) by (simp_all add: duplex_env_def duplex_poll_next_def arrive_def)
  have upd: "t\<lparr>inner := inner ?t1\<rparr> = ?t1" "(arrive bs t)\<lparr>inner := inner (arrive bs ?t1)\<rparr> = arrive bs ?t1"
    by (simp_all add: arrive_def)
  have "read_frame ?E w t = (case rd of Pending \<Rightarrow> Some (Pending, ?t1) | Ready None \<Rightarrow> Some (Ready None, ?t1)
      | Ready (Some (Inl e)) \<Rightarrow> on_read_error ?E ?t1 e | Ready (Some (Inr f)) \<Rightarrow> Some (Ready (Some (Inr f)), on_frame ?E ?t1 f))"
    unfolding read_frame_def fp(1) by (simp only: Let_def prod.case upd)
  moreover have "read_frame ?E w (arrive bs t) = (case rd of Pending \<Rightarrow> Some (Pending, arrive bs ?t1) | Ready None \<Rightarrow> Some (Ready None, arrive bs ?t1)
      | Ready (Some (Inl e)) \<Rightarrow> on_read_error ?E (arrive bs ?t1) e
      | Ready (Some (Inr f)) \<Rightarrow> Some (Ready (Some (Inr f)), on_frame ?E (arrive bs ?t1) f))"
    unfolding read_frame_def fp(2) by (simp only: Let_def prod.case upd)
  moreover have "\<not> eof (io (inner ?t1))" using assms(3) by simp
  ultimately show ?thesis using assms(1) ne on_read_error_arrive [of ?E ?t1 _ r t' bs] eof_keeps(3) [of ?E ?t1 _ r t']
    by (auto simp: on_frame_arrive split: poll.splits option.splits sum.splits)
qed

lemma poll_next_frame_arrive:
  assumes pn: "poll_next_frame (duplex_env U pf keys) w t = Some (r, t')" and "r \<noteq> Pending" and "\<not> eof (io (inner t))"
  shows "poll_next_frame (duplex_env U pf keys) w (arrive bs t) = Some (r, arrive bs t') \<and> \<not> eof (io (inner t'))"
proof -
  let ?E = "duplex_env U pf keys"
  show ?thesis
  proof (cases "state t = CloseAcknowledged \<or> state t = ClosedByPeer \<or> has_remaining (frame_queue t)")
    case False
    then have "read_frame ?E w t = Some (r, t')" using pn by (simp add: poll_next_frame_def)
    from read_frame_arrive [OF this assms(2,3), of bs] False show ?thesis by (simp add: poll_next_frame_def)
  next
    case True
    show ?thesis
    proof (cases "state t = CloseAcknowledged \<or> state t = ClosedByPeer")
      case closed: True
      show ?thesis
      proof (cases "state t = CloseAcknowledged")
        case True
        then show ?thesis using pn assms(3) by (auto simp: poll_next_frame_def)
      next
        case False
        with closed have st: "state t = ClosedByPeer" by blast
        then obtain r1 t1 where f: "poll_flush ?E w t = Some (r1, t1)"
          using pn by (cases "poll_flush ?E w t") (auto simp: poll_next_frame_def)
        then show ?thesis using pn assms(2,3) st poll_flush_arrive [OF f, of bs]
          by (auto simp: poll_next_frame_def state_arrive split: poll.splits sum.splits)
      qed
    next
      case active: False
      let ?w = "case flushing_waker t of None \<Rightarrow> w | Some v \<Rightarrow> v"
      have rem: "has_remaining (frame_queue t)" using True active by blast
      obtain r1 t1 where f: "poll_flush ?E ?w t = Some (r1, t1)"
        using pn active rem by (cases "poll_flush ?E ?w t") (auto simp: poll_next_frame_def)
      note f2 = poll_flush_arrive [OF f, of bs]
      have "\<not> eof (io (inner t1))" using f2 assms(3) by simp
      note rf = read_frame_arrive [OF _ assms(2) this, of U pf keys w _ bs]
      show ?thesis
      proof (cases "\<exists>e. r1 = Ready (Inl e)")
        case err: True
        then show ?thesis using pn active rem f f2 assms(3) by (auto simp: poll_next_frame_def)
      next
        case ok: False
        then have "read_frame ?E w t1 = Some (r, t')"
          using pn active rem f by (cases r1) (auto simp: poll_next_frame_def split: sum.splits)
        from rf [OF this] ok show ?thesis
          using active rem f2 by (cases r1) (auto simp: poll_next_frame_def split: sum.splits)
      qed
    qed
  qed
qed

lemma assemble_arrive:
  "assemble m (arrive bs t) f = map_sum (apsnd (arrive bs)) (arrive bs) (assemble m t f)"
  "case assemble m t f of Inl (_, t') \<Rightarrow> eof (io (inner t')) = eof (io (inner t)) | Inr t' \<Rightarrow> eof (io (inner t')) = eof (io (inner t))"
  by (auto simp: assemble_def arrive_def take_message_opcode_def Let_def)

theorem poll_next_arrive:
  assumes "poll_next (duplex_env U pf keys) w t = Some (r, t')" and "r \<noteq> Pending" and "\<not> eof (io (inner t))"
  shows "poll_next (duplex_env U pf keys) w (arrive bs t) = Some (r, arrive bs t') \<and> \<not> eof (io (inner t'))"
proof -
  let ?E = "duplex_env U pf keys" let ?m = "max_payload_len (limits (decoder (inner t)))"
  let ?F = "\<lambda>t. poll_next_loop ?E w ?m (arrive bs t)"
  let ?J = "\<lambda>u. ?F t = ?F u \<and> \<not> eof (io (inner u))"
  let ?Q = "\<lambda>r t'. r \<noteq> Pending \<longrightarrow> ?F t = Some (r, arrive bs t') \<and> \<not> eof (io (inner t'))"
  have loop: "poll_next_loop ?E w ?m t = Some (r, t')" using assms(1) by (simp add: poll_next_def)
  have unfold: "?F u = (case x of Pending \<Rightarrow> Some (Pending, arrive bs u1)
       | Ready None \<Rightarrow> Some (Ready None, arrive bs u1) | Ready (Some (Inl e)) \<Rightarrow> Some (Ready (Some (Inl e)), arrive bs u1)
       | Ready (Some (Inr f)) \<Rightarrow> (case assemble ?m (arrive bs u1) f of
           Inl (m, s2) \<Rightarrow> Some (Ready (Some m), s2) | Inr s2 \<Rightarrow> poll_next_loop ?E w ?m s2))"
    and still_open: "\<not> eof (io (inner u1))"
    if "?J u" "poll_next_frame ?E w u = Some (x, u1)" "x \<noteq> Pending" for u x u1
  proof -
    note f = poll_next_frame_arrive [OF that(2,3), of bs]
    show "?F u = (case x of Pending \<Rightarrow> Some (Pending, arrive bs u1)
       | Ready None \<Rightarrow> Some (Ready None, arrive bs u1) | Ready (Some (Inl e)) \<Rightarrow> Some (Ready (Some (Inl e)), arrive bs u1)
       | Ready (Some (Inr f)) \<Rightarrow> (case assemble ?m (arrive bs u1) f of
           Inl (m, s2) \<Rightarrow> Some (Ready (Some m), s2) | Inr s2 \<Rightarrow> poll_next_loop ?E w ?m s2))"
      using that(1) by (subst poll_next_loop.simps) (simp add: f)
    show "\<not> eof (io (inner u1))" using f that(1) by blast
  qed
  have "?Q r t'"
  proof (rule poll_next_loop_rounds [where J = ?J and Q = ?Q, OF loop])
    show "?Q (case x of Pending \<Rightarrow> Pending | Ready None \<Rightarrow> Ready None | Ready (Some (Inl e)) \<Rightarrow> Ready (Some (Inl e))) u1"
      if "?J u" "poll_next_frame ?E w u = Some (x, u1)" "\<forall>f. x \<noteq> Ready (Some (Inr f))" for u x u1
      using that(1,3) unfold [OF that(1,2)] still_open [OF that(1,2)] by (auto split: poll.splits option.splits sum.splits)
    show "?Q (Ready (Some x)) u2" if "?J u" "poll_next_frame ?E w u = Some (Ready (Some (Inr f)), u1)"
        "assemble ?m u1 f = Inl (x, u2)" for u f u1 x u2
      using that(1,3) unfold [OF that(1,2)] still_open [OF that(1,2)] assemble_arrive [where m = ?m and t = u1 and f = f] by simp
    show "?J u2" if "?J u" "poll_next_frame ?E w u = Some (Ready (Some (Inr f)), u1)" "assemble ?m u1 f = Inr u2" for u f u1 u2
      using that(1,3) unfold [OF that(1,2)] still_open [OF that(1,2)] assemble_arrive [where m = ?m and t = u1 and f = f] by simp
  qed (use assms(3) in simp)
  then show ?thesis using assms(2) by (simp add: poll_next_def)
qed

end
