(* ===== verification/Conversation.thy ===== *)
theory Conversation
  imports Late_Bytes
begin

text \<open>
  A whole connection in one direction: one end calls its operations in any order, the other end
  reads what has been sent. The messages come out as they went in, between the pongs and close
  frames that the sending end adds by itself.
\<close>

subsection \<open>New streams\<close>

lemma new_stream_fields [simp]:
  "decoder (inner (from_raw_stream i f r c l)) = protocol_new r l" "config (from_raw_stream i f r c l) = c"
  "masks_drawn (from_raw_stream i f r c l) = 0" "outgoing written (from_raw_stream i f r c l) = written i"
  "decoder (inner (from_framed fr r c l)) = protocol_new r l" "config (from_framed fr r c l) = c"
  "masks_drawn (from_framed fr r c l) = 0" "outgoing written (from_framed fr r c l) = written (io fr)"
  "role (protocol_new r l) = r" "limits (protocol_new r l) = l"
  by (simp_all add: from_raw_stream_def from_framed_def outgoing_def protocol_new_def)

text \<open>A stream over a transport from which nothing has been read.\<close>

abbreviation fresh_read :: "'io \<Rightarrow> 'f \<Rightarrow> role \<Rightarrow> limits \<Rightarrow> ('io, 'f) framed_read" where
  "fresh_read i f r l \<equiv> \<lparr>io = i, reader_state = f, decoder = protocol_new r l, buffer = []\<rparr>"

lemma from_raw_stream_framed: "from_raw_stream i f r c l = from_framed (fresh_read i f r l) r c l"
  by (simp add: from_raw_stream_def from_framed_def)

subsection \<open>The sending end\<close>

text \<open>The messages that the constructors of \<open>Message\<close> make (\<open>constructors_sendable\<close>).\<close>

definition sendable :: "message \<Rightarrow> bool" where
  "sendable m \<longleftrightarrow> (if is_control (m_opcode m) then legal_control (frame_from_message m)
     else m_opcode m \<in> {Text, Binary} \<and> (m_opcode m = Text \<longrightarrow> valid_utf8 (data (m_payload m)))
       \<and> length (data (m_payload m)) < 2 ^ 64)"

lemma constructors_sendable:
  "length bs < 2 ^ 64 \<Longrightarrow> valid_utf8 bs \<Longrightarrow> sendable (message_text (payload_from_str bs))"
  "length (data p) < 2 ^ 64 \<Longrightarrow> sendable (message_binary p)"
  "message_ping p = Some m \<Longrightarrow> sendable m" "message_pong p = Some m \<Longrightarrow> sendable m"
  "message_close None reason = Some m \<Longrightarrow> sendable m"
  "try_from_u16 code = Some cc \<Longrightarrow> valid_utf8 reason \<Longrightarrow> message_close (Some cc) reason = Some m \<Longrightarrow> sendable m"
proof -
  show "sendable m" if "try_from_u16 code = Some cc" "valid_utf8 reason" "message_close (Some cc) reason = Some m"
  proof -
    have "try_from_u16 (close_code_get cc) = Some cc" using that(1) by (auto simp: try_from_u16_def split: if_splits)
    from legal_close_message [OF that(3) this that(2)] show ?thesis by (simp add: sendable_def frame_from_message_def)
  qed
qed (auto simp: sendable_def message_text_def message_binary_def message_ping_def message_pong_def message_close_def
    payload_from_str_def payload_from_bytes_def legal_control_def legal_close_def frame_from_message_def split: if_splits)

text \<open>A session: operations in any order, and the messages that were taken for sending.\<close>

inductive session ::
  "('io, 'f) env \<Rightarrow> ('io, 'f) websocket_stream \<Rightarrow> message list \<Rightarrow> ('io, 'f) websocket_stream \<Rightarrow> bool"
  for E :: "('io, 'f) env" and s0 :: "('io, 'f) websocket_stream" where
  session_start: "session E s0 [] s0"
| session_send: "session E s0 ms s \<Longrightarrow> sendable m \<Longrightarrow> start_send E s m = Some (Inr (), s') \<Longrightarrow> session E s0 (ms @ [m]) s'"
| session_refused: "session E s0 ms s \<Longrightarrow> start_send E s m = Some (Inl e, s') \<Longrightarrow> session E s0 ms s'"
| session_next: "session E s0 ms s \<Longrightarrow> poll_next E w s = Some (r, s') \<Longrightarrow> session E s0 ms s'"
| session_ready: "session E s0 ms s \<Longrightarrow> poll_ready E w s = Some (r', s') \<Longrightarrow> session E s0 ms s'"
| session_flush: "session E s0 ms s \<Longrightarrow> poll_flush E w s = Some (r', s') \<Longrightarrow> session E s0 ms s'"
| session_close: "session E s0 ms s \<Longrightarrow> poll_close E w s = Some (r', s') \<Longrightarrow> session E s0 ms s'"

text \<open>The frames of a message, and the messages an application starts.\<close>

definition frames_for :: "usize \<Rightarrow> message \<Rightarrow> wsframe list" where
  "frames_for n m = (if is_control (m_opcode m) then [frame_from_message m]
     else frames_of n (m_opcode m) (data (m_payload m)))"

definition initiated :: "message \<Rightarrow> bool" where
  "initiated m \<longleftrightarrow> m_opcode m \<in> {Text, Binary, Ping}"

definition received :: "message \<Rightarrow> message" where
  "received m = message_new (m_opcode m) (data (m_payload m))"

definition sent_frames :: "usize \<Rightarrow> message list \<Rightarrow> wsframe list" where
  "sent_frames n ms = concat (map (frames_for n) ms)"

lemma sent_frames_simps [simp]:
  "sent_frames n [] = []" "sent_frames n (m # ms) = frames_for n m @ sent_frames n ms"
  "sent_frames n (ms @ ns) = sent_frames n ms @ sent_frames n ns"
  by (simp_all add: sent_frames_def)

text \<open>
  What a stream sends: the messages \<open>ms\<close> that it has taken, all of them, in order and as they are, and between
  them the replies that it makes by itself.
\<close>

definition reply :: "message \<Rightarrow> bool" where
  "reply m \<longleftrightarrow> sendable m \<and> m_opcode m \<in> {Pong, Close}"

definition with_replies :: "message list \<Rightarrow> message list \<Rightarrow> bool" where
  "with_replies ms l \<longleftrightarrow> (\<exists>rs. l \<in> shuffles ms rs \<and> (\<forall>m \<in> set rs. reply m))"

lemma shuffles_append:
  "zs \<in> shuffles xs ys \<Longrightarrow> zs @ as \<in> shuffles (xs @ as) ys"
  "zs \<in> shuffles xs ys \<Longrightarrow> zs @ as \<in> shuffles xs (ys @ as)"
proof -
  show left: "zs @ as \<in> shuffles (xs @ as) ys" if "zs \<in> shuffles xs ys" for xs ys :: "'a list"
    using that
    by (induction zs arbitrary: xs ys)
      (auto simp: Cons_in_shuffles_iff neq_Nil_conv intro: Cons_in_shuffles_leftI Cons_in_shuffles_rightI)
  show "zs @ as \<in> shuffles xs (ys @ as)" if "zs \<in> shuffles xs ys"
    using left [of ys xs] that by (simp add: shuffles_commutes)
qed

lemma with_replies_intros:
  "with_replies [] []"
  "with_replies ms l \<Longrightarrow> with_replies (ms @ [m]) (l @ [m])"
  "with_replies ms l \<Longrightarrow> \<forall>q \<in> set qs. reply q \<Longrightarrow> with_replies ms (l @ qs)"
proof -
  show "with_replies [] []" unfolding with_replies_def by (intro exI [of _ "[]"]) simp
  show "with_replies (ms @ [m]) (l @ [m])" if "with_replies ms l"
    using that shuffles_append(1) unfolding with_replies_def by blast
  show "with_replies ms (l @ qs)" if wr: "with_replies ms l" and qs: "\<forall>q \<in> set qs. reply q"
  proof -
    from wr obtain rs where "l \<in> shuffles ms rs" "\<forall>m \<in> set rs. reply m" by (auto simp: with_replies_def)
    then show ?thesis using shuffles_append(2) [of l ms rs qs] qs unfolding with_replies_def
      by (intro exI [of _ "rs @ qs"]) auto
  qed
qed

lemma with_replies_filter:
  assumes "with_replies ms l" and "\<And>m. P m \<Longrightarrow> initiated m"
  shows "filter P l = filter P ms"
proof -
  from assms(1) obtain rs where rs: "l \<in> shuffles ms rs" "\<forall>m \<in> set rs. reply m" by (auto simp: with_replies_def)
  then have "filter P rs = []" using assms(2) by (force simp: filter_empty_conv reply_def initiated_def)
  moreover have "filter P l \<in> shuffles (filter P ms) (filter P rs)"
    using rs(1) filter_shuffles [of P ms rs] by blast
  ultimately show ?thesis by simp
qed

lemma with_replies_set: "with_replies ms l \<Longrightarrow> m \<in> set l \<Longrightarrow> m \<in> set ms \<or> reply m"
  by (auto simp: with_replies_def dest: set_shuffles)

text \<open>The replies of a stream, seen as messages.\<close>

lemma replies_as_messages:
  assumes "\<forall>fr \<in> set frs. is_reply fr"
  shows "\<exists>qs. sent_frames n qs = frs \<and> (\<forall>m \<in> set qs. reply m)"
  using assms
proof (induction frs)
  case (Cons fr frs)
  then obtain qs where qs: "sent_frames n qs = frs" "\<forall>m \<in> set qs. reply m" by auto
  let ?m = "message_new (f_opcode fr) (f_payload fr)"
  have "is_reply fr" using Cons.prems by simp
  then have "frame_from_message ?m = fr" "is_control (m_opcode ?m)" "m_opcode ?m \<in> {Pong, Close}" "legal_control fr"
    by (auto simp: is_reply_def legal_control_def is_control_def frame_from_message_def message_new_def)
  then have "reply ?m" "frames_for n ?m = [fr]" by (simp_all add: frames_for_def sendable_def reply_def)
  then show ?case using qs by (intro exI [of _ "?m # qs"]) simp
qed (auto intro: exI [of _ "[]"])

lemma frames_for_nonempty: "frames_for n m \<noteq> []"
  by (simp add: frames_for_def frames_of.simps)

context transport
begin

lemma extend_session:
  assumes "\<exists>qs. sends E written s0 (sent_frames n qs) s \<and> ws_inv s \<and> (\<forall>m \<in> set qs. sendable m) \<and> with_replies ms qs"
    and "ws_inv s \<Longrightarrow> \<exists>frs. sends E written s frs s' \<and> ws_inv s' \<and> (\<forall>fr \<in> set frs. is_reply fr)"
  shows "\<exists>qs. sends E written s0 (sent_frames n qs) s' \<and> ws_inv s' \<and> (\<forall>m \<in> set qs. sendable m) \<and> with_replies ms qs"
proof -
  from assms(1) obtain qs where qs: "sends E written s0 (sent_frames n qs) s" "ws_inv s" "\<forall>m \<in> set qs. sendable m"
    "with_replies ms qs" by blast
  from assms(2) [OF qs(2)] obtain frs where frs: "sends E written s frs s'" "ws_inv s'" "\<forall>fr \<in> set frs. is_reply fr" by blast
  from replies_as_messages [OF frs(3), of n] obtain rs where
    "sent_frames n rs = frs" "\<forall>m \<in> set rs. reply m" by blast
  then show ?thesis using sends_trans [OF qs(1) frs(1)] qs(3) with_replies_intros(3) [OF qs(4)] frs(2)
    by (intro exI [of _ "qs @ rs"]) (auto simp: reply_def)
qed

lemma flush_step:
  assumes "poll_flush E w s = Some (r, s')" and "ws_inv s"
  shows "sends E written s [] s' \<and> ws_inv s'"
  using poll_flush_total [of s w] flush_sends [OF assms(2)] assms by (auto simp: ws_inv_def)

lemma ready_step:
  assumes "ws_inv s"
  shows "\<exists>r s'. poll_ready E w s = Some (r, s') \<and> sends E written s [] s' \<and> ws_inv s'"
proof -
  have "fq_inv (frame_queue s)" using assms by (simp add: ws_inv_def)
  from poll_flush_total [OF this, of w] flush_step [of w s _ _, OF _ assms] show ?thesis
    using sends_refl assms by (fastforce simp: poll_ready_def)
qed

lemma session_sends:
  assumes "session E s0 ms s" and "ws_inv s0" and n: "frame_size (config s0) = n" "n \<noteq> 0"
  shows "\<exists>qs. sends E written s0 (sent_frames n qs) s \<and> ws_inv s \<and> (\<forall>m \<in> set qs. sendable m) \<and> with_replies ms qs"
  using assms(1)
proof (induction rule: session.induct)
  case session_start
  then show ?case using sends_refl assms(2) with_replies_intros(1) by (intro exI [of _ "[]"]) simp
next
  case (session_send ms s m s')
  then obtain qs where qs: "sends E written s0 (sent_frames n qs) s" "ws_inv s" "\<forall>m \<in> set qs. sendable m"
    "with_replies ms qs" by blast
  have size: "frame_size (config s) = n" using qs(1) n(1) by (simp add: sends_def)
  from start_send_sends [OF qs(2), of m] size n(2) session_send.hyps(3) obtain frs where
    "sends E written s frs s'" "ws_inv s'" "frs = frames_for n m"
    by (auto simp: frames_for_def split: if_splits)
  then show ?case using sends_trans [OF qs(1)] qs(3) with_replies_intros(2) [OF qs(4)] session_send.hyps(2)
    by (intro exI [of _ "qs @ [m]"]) auto
next
  case (session_refused ms s m e s')
  then obtain qs where qs: "sends E written s0 (sent_frames n qs) s" "ws_inv s" "\<forall>m \<in> set qs. sendable m"
    "with_replies ms qs" by blast
  have "frame_size (config s) \<noteq> 0" using qs(1) n by (simp add: sends_def)
  from start_send_sends [OF qs(2) this, of m] session_refused.hyps(2) have "s' = s" by (auto split: if_splits)
  then show ?case using qs by blast
next
  case (session_next ms s w r s')
  show ?case
    by (rule extend_session [OF session_next.IH])
      (use poll_next_loop_sends [of w _ s r s'] session_next.hyps(2) in \<open>auto simp: poll_next_def\<close>)
next
  case (session_ready ms s w r s')
  show ?case
    by (rule extend_session [OF session_ready.IH])
      (use session_ready.hyps(2) flush_step [of w s r s'] sends_refl [of E written s] in
        \<open>auto simp: poll_ready_def intro!: exI [of _ "[]"] split: if_splits\<close>)
next
  case (session_flush ms s w r s')
  show ?case
    by (rule extend_session [OF session_flush.IH])
      (use session_flush.hyps(2) flush_step [of w s r s'] in \<open>auto intro!: exI [of _ "[]"]\<close>)
next
  case (session_close ms s w r s')
  show ?case
    by (rule extend_session [OF session_close.IH])
      (use poll_close_sends [OF session_close.hyps(2)] in \<open>auto\<close>)
qed

end

subsection \<open>The receiving end\<close>

text \<open>\<open>delivers E w t ms t'\<close>: that many calls of \<open>poll_next\<close> return the messages \<open>ms\<close> one by one.\<close>

inductive delivers ::
  "('io, 'f) env \<Rightarrow> waker \<Rightarrow> ('io, 'f) websocket_stream \<Rightarrow> message list \<Rightarrow> ('io, 'f) websocket_stream \<Rightarrow> bool"
  for E :: "('io, 'f) env" and w :: waker where
  delivers_none: "delivers E w t [] t"
| delivers_next: "poll_next E w t = Some (Ready (Some (Inr m)), t1) \<Longrightarrow> delivers E w t1 ms t' \<Longrightarrow> delivers E w t (m # ms) t'"

lemma read_control:
  assumes U: "simdutf8_lib U" and keys: "\<And>k. length (keys k) = 4" and t: "listening t Continuation []"
    and "unread (inner t) = wire_frame key fr @ rest" and "key_for (role (decoder (inner t))) key"
    and ctl: "legal_control fr" and max: "125 \<le> max_payload_len (limits (decoder (inner t)))"
  shows "\<exists>t'. poll_next (duplex_env U pf keys) w t = Some (Ready (Some (Inr (message_new (f_opcode fr) (f_payload fr)))), t')
    \<and> unread (inner t') = rest \<and> role (decoder (inner t')) = role (decoder (inner t))
    \<and> limits (decoder (inner t')) = limits (decoder (inner t)) \<and> (f_opcode fr \<noteq> Close \<longrightarrow> listening t' Continuation [] \<and> state t' = state t)
    \<and> (\<exists>t1. t' = on_frame (duplex_env U pf keys) t1 fr \<and> listening t1 Continuation [] \<and> state t1 = state t \<and> eases t t1)"
proof -
  let ?E = "duplex_env U pf keys"
  have tr: "transport U ?E sent" using keys by (rule duplex_transport [OF U])
  have ops: "is_control (f_opcode fr)" "f_is_final fr" "length (f_payload fr) \<le> 125" "f_opcode fr = Close \<Longrightarrow> legal_close (f_payload fr)"
    using ctl by (auto simp: legal_control_def)
  have "\<not> text_frame (decoder (inner t)) fr" using ops(1) by (auto simp: text_frame_def)
  note ops = ops this
  have legal: "legal_head (decoder (inner t)) (f_is_final fr) (f_opcode fr) (length (f_payload fr))"
    "legal_payload (decoder (inner t)) fr"
    using ops max legal_close_length [of "f_payload fr"] by (auto simp: legal_head_def legal_payload_def)
  from read_sent_frame [OF U t assms(4,5) legal, of pf keys w] ops obtain t1 where
    t1: "poll_next_frame ?E w t = Some (Ready (Some (Inr fr)), on_frame ?E t1 fr)" "unread (inner t1) = rest"
    "role (decoder (inner t1)) = role (decoder (inner t))" "limits (decoder (inner t1)) = limits (decoder (inner t))"
    "listening t1 Continuation []" "state t1 = state t" "eases t t1" by auto
  have inner: "inner (on_frame ?E t1 fr) = inner t1" by (rule transport.on_frame_keeps(3) [OF tr])
  have "assemble m (on_frame ?E t1 fr) fr = Inl (Inr (message_new (f_opcode fr) (f_payload fr)), on_frame ?E t1 fr)" for m
    using ops(1,2) by (cases "f_opcode fr") (simp_all add: assemble_def)
  then have next_msg: "poll_next ?E w t = Some (Ready (Some (Inr (message_new (f_opcode fr) (f_payload fr)))), on_frame ?E t1 fr)"
    unfolding poll_next_def by (subst poll_next_loop.simps) (simp add: t1(1))
  have "listening (on_frame ?E t1 fr) Continuation [] \<and> state (on_frame ?E t1 fr) = state t" if nc: "f_opcode fr \<noteq> Close"
  proof (cases "f_opcode fr = Ping \<and> state t1 = Active")
    case True
    have "fq_inv (frame_queue t1)" using t1(5) by (simp add: listening_def)
    then show ?thesis
      using True t1(5,6) transport.queue_frame_eq [OF tr, of t1 "fr\<lparr>f_opcode := Pong\<rparr>"]
      by (auto simp: on_frame_def listening_def)
  next
    case False
    then have "on_frame ?E t1 fr = t1" using nc by (auto simp: on_frame_def)
    then show ?thesis using t1(5,6) by simp
  qed
  then show ?thesis using next_msg inner t1(2-7) by auto
qed

lemma read_message:
  assumes U: "simdutf8_lib U" and keys: "\<And>k. length (keys k) = 4" and t: "listening t Continuation []"
    and ks: "\<And>i. length (ks i) = 4" and n: "0 < n" and m: "sendable m"
    and bytes: "unread (inner t) = wire_frames ks r k (frames_for n m) @ rest" and r: "r \<noteq> role (decoder (inner t))"
    and max: "125 \<le> max_payload_len (limits (decoder (inner t)))"
      "length (data (m_payload m)) \<le> max_payload_len (limits (decoder (inner t)))"
  shows "\<exists>t'. poll_next (duplex_env U pf keys) w t = Some (Ready (Some (Inr (received m))), t')
    \<and> unread (inner t') = rest \<and> role (decoder (inner t')) = role (decoder (inner t))
    \<and> limits (decoder (inner t')) = limits (decoder (inner t))
    \<and> (m_opcode m \<noteq> Close \<longrightarrow> listening t' Continuation [] \<and> state t' = state t \<and> (state t = ClosedByUs \<longrightarrow> eases t t'))"
proof (cases "is_control (m_opcode m)")
  case True
  let ?key = "if r = Client then ks k else []"
  have "key_for (role (decoder (inner t))) ?key" using ks r by (cases "role (decoder (inner t))"; cases r) (auto simp: key_for_def)
  from read_control [where fr = "frame_from_message m" and rest = rest and pf = pf and w = w and keys = keys, OF U keys t _ this _ max(1)] True m bytes
  have "\<exists>t'. poll_next (duplex_env U pf keys) w t = Some (Ready (Some (Inr (received m))), t') \<and> unread (inner t') = rest
    \<and> role (decoder (inner t')) = role (decoder (inner t)) \<and> limits (decoder (inner t')) = limits (decoder (inner t))
    \<and> (m_opcode m \<noteq> Close \<longrightarrow> listening t' Continuation [] \<and> state t' = state t)
    \<and> (\<exists>t1. t' = on_frame (duplex_env U pf keys) t1 (frame_from_message m) \<and> listening t1 Continuation [] \<and> state t1 = state t \<and> eases t t1)"
    by (simp add: frames_for_def sendable_def received_def frame_from_message_def)
  then obtain t' where
    t': "poll_next (duplex_env U pf keys) w t = Some (Ready (Some (Inr (received m))), t')" "unread (inner t') = rest"
    "role (decoder (inner t')) = role (decoder (inner t))" "limits (decoder (inner t')) = limits (decoder (inner t))"
    "m_opcode m \<noteq> Close \<longrightarrow> listening t' Continuation [] \<and> state t' = state t"
    and t1: "\<exists>t1. t' = on_frame (duplex_env U pf keys) t1 (frame_from_message m) \<and> state t1 = state t \<and> eases t t1"
    by blast
  have "eases t t'" if "state t = ClosedByUs" "m_opcode m \<noteq> Close"
    using t1 that by (auto simp: on_frame_def frame_from_message_def)
  with t' show ?thesis by blast
next
  case False
  then have "m_opcode m \<in> {Text, Binary}" "m_opcode m = Text \<Longrightarrow> valid_utf8 (data (m_payload m))"
    "length (data (m_payload m)) < 2 ^ 64" using m by (auto simp: sendable_def)
  from poll_next_loop_frames [where ks = ks and n = n and op = "m_opcode m" and op' = Continuation and acc = "[]" and t = t
      and bs = "data (m_payload m)" and r = r and k = k and rest = rest and pf = pf and keys = keys and w = w
      and max_len = "max_payload_len (limits (decoder (inner t)))", OF U ks n this(1)] this
  show ?thesis using False t bytes r max by (auto simp: poll_next_def frames_for_def received_def)
qed

lemma read_messages:
  assumes U: "simdutf8_lib U" and keys: "\<And>k. length (keys k) = 4" and ks: "\<And>i. length (ks i) = 4" and n: "0 < n"
    and "listening t Continuation []" and "\<forall>m \<in> set ms. sendable m"
    and "unread (inner t) = wire_frames ks r k (sent_frames n ms) @ rest" and "r \<noteq> role (decoder (inner t))"
    and "125 \<le> max_payload_len (limits (decoder (inner t)))"
    and "\<forall>m \<in> set ms. length (data (m_payload m)) \<le> max_payload_len (limits (decoder (inner t)))"
    and "\<forall>m \<in> set (butlast ms). m_opcode m \<noteq> Close"
  shows "\<exists>t'. delivers (duplex_env U pf keys) w t (map received ms) t' \<and> unread (inner t') = rest"
  using assms(5-)
proof (induction ms arbitrary: t k)
  case Nil
  then show ?case using delivers_none by fastforce
next
  case (Cons m ms)
  let ?k = "if r = Client then k + length (frames_for n m) else k"
  have bytes: "unread (inner t) = wire_frames ks r k (frames_for n m) @ wire_frames ks r ?k (sent_frames n ms) @ rest"
    using Cons.prems(3) by (simp add: wire_frames_append)
  have "sendable m" "length (data (m_payload m)) \<le> max_payload_len (limits (decoder (inner t)))" using Cons.prems by simp_all
  from read_message [where pf = pf and w = w and keys = keys and ks = ks, OF U keys Cons.prems(1) ks n this(1) bytes Cons.prems(4,5) this(2)] obtain t1 where
    t1: "poll_next (duplex_env U pf keys) w t = Some (Ready (Some (Inr (received m))), t1)"
    "unread (inner t1) = wire_frames ks r ?k (sent_frames n ms) @ rest" "role (decoder (inner t1)) = role (decoder (inner t))"
    "limits (decoder (inner t1)) = limits (decoder (inner t))" "m_opcode m \<noteq> Close \<Longrightarrow> listening t1 Continuation []" by blast
  show ?case
  proof (cases "ms = []")
    case True
    then show ?thesis using delivers_next [OF t1(1) delivers_none] t1(2) by auto
  next
    case False
    then have "listening t1 Continuation []" using t1(5) Cons.prems(7) by simp
    moreover have "\<forall>m \<in> set (butlast ms). m_opcode m \<noteq> Close" using Cons.prems(7) False by simp
    ultimately obtain t' where "delivers (duplex_env U pf keys) w t1 (map received ms) t'" "unread (inner t') = rest"
      using Cons.IH [of t1 ?k] t1(2-4) Cons.prems by auto
    then show ?thesis using delivers_next [OF t1(1)] by auto
  qed
qed

lemma close_is_last:
  assumes "\<not> closes (butlast (sent_frames n ms))" and "m \<in> set (butlast ms)"
  shows "m_opcode m \<noteq> Close"
proof
  assume "m_opcode m = Close"
  then have "frames_for n m = [frame_from_message m]" "f_opcode (frame_from_message m) = Close"
    by (simp_all add: frames_for_def frame_from_message_def)
  moreover obtain as bs where split: "butlast ms = as @ m # bs" using assms(2) by (meson split_list)
  have "ms \<noteq> []" using assms(2) by auto
  then have "ms = as @ m # bs @ [last ms]" using append_butlast_last_id [of ms] split by simp
  then have "sent_frames n ms = sent_frames n as @ frames_for n m @ sent_frames n (bs @ [last ms])"
    by (metis sent_frames_simps(2,3))
  moreover have "sent_frames n (bs @ [last ms]) \<noteq> []" by (simp add: frames_for_nonempty)
  ultimately show False using assms(1) by (auto simp: butlast_append)
qed

subsection \<open>The whole connection\<close>

text \<open>
  If only a part of the bytes has arrived, the first of the messages are read, and then the stream
  waits.
\<close>

lemma delivers_prefix:
  assumes U: "simdutf8_lib U" and keys: "\<And>k. length (keys k) = 4"
    and "delivers (duplex_env U pf keys) w (arrive bs t) ds u" and "unread (inner u) = []" and "bs \<noteq> []"
    and "\<not> eof (io (inner t))" and "ws_inv t"
  shows "\<exists>ds1 t1 t2. delivers (duplex_env U pf keys) w t ds1 t1 \<and> prefix ds1 ds
    \<and> poll_next (duplex_env U pf keys) w t1 = Some (Pending, t2)"
  using assms(3-)
proof (induction ds arbitrary: t)
  case Nil
  then have "u = arrive bs t" by (auto elim: delivers.cases)
  then show ?case using Nil.prems(2,3) by simp
next
  case (Cons m ds)
  let ?E = "duplex_env U pf keys"
  from Cons.prems(1) obtain t1' where
    t1': "poll_next ?E w (arrive bs t) = Some (Ready (Some (Inr m)), t1')" "delivers ?E w t1' ds u"
    by (auto elim: delivers.cases)
  from finite_transport.poll_next_uses [where w = w, OF duplex_finite [where pf = pf and keys = keys, OF U keys] Cons.prems(5)] obtain r s' where
    r: "poll_next ?E w t = Some (r, s')" "ws_inv s'" by blast
  show ?case
  proof (cases "r = Pending")
    case True
    then show ?thesis using r(1) delivers_none [of ?E w t] by fastforce
  next
    case False
    from poll_next_arrive [OF r(1) this Cons.prems(4), of bs] t1'(1) have
      s': "r = Ready (Some (Inr m))" "t1' = arrive bs s'" "\<not> eof (io (inner s'))" by simp_all
    from Cons.IH [OF t1'(2) [unfolded s'(2)] Cons.prems(2,3) s'(3) r(2)] obtain ds1 t1 t2 where
      "delivers ?E w s' ds1 t1" "prefix ds1 ds" "poll_next ?E w t1 = Some (Pending, t2)" by blast
    then show ?thesis using delivers_next [OF r(1) [unfolded s'(1)]] by (intro exI [of _ "m # ds1"]) auto
  qed
qed

lemma prefix_filter: "prefix xs ys \<Longrightarrow> prefix (filter P xs) (filter P ys)"
  by (auto simp: prefix_def)

text \<open>
  What is on the wire: the bytes that have left the end \<open>s\<close> since it was \<open>s0\<close>, or wait in its queue, are the frames
  of the messages \<open>l\<close>; these are the messages \<open>ms\<close> with the replies of the stream, and nothing follows a close message.
\<close>

definition transmits ::
  "('io, 'f) env \<Rightarrow> ('io \<Rightarrow> bytes) \<Rightarrow> ('io, 'f) websocket_stream \<Rightarrow> message list \<Rightarrow> ('io, 'f) websocket_stream \<Rightarrow> message list \<Rightarrow> bool" where
  "transmits E written s0 ms s l \<longleftrightarrow> with_replies ms l \<and> (\<forall>m \<in> set (butlast l). m_opcode m \<noteq> Close)
     \<and> outgoing written s = outgoing written s0
         @ wire_frames (masks E) (role (decoder (inner s0))) 0 (sent_frames (frame_size (config s0)) l)"

lemma received_opcode [simp]:
  "m_opcode (received m) = m_opcode m" "initiated (received m) \<longleftrightarrow> initiated m"
  by (simp_all add: received_def message_new_def initiated_def)

lemma filter_received: "(\<And>m. P (received m) = P m) \<Longrightarrow> filter P (map received l) = map received (filter P l)"
  by (simp add: filter_map comp_def)

text \<open>The messages read from a part of the wire, of those that only an application sends, and the others.\<close>

lemma transmits_initiated:
  assumes "transmits E written s0 ms s l" and "prefix ds (map received l)" and "\<forall>m \<in> set ms. initiated m"
  shows "prefix (filter initiated ds) (map received ms)" and "d \<in> set ds \<Longrightarrow> \<not> initiated d \<Longrightarrow> m_opcode d \<in> {Pong, Close}"
proof -
  have wr: "with_replies ms l" using assms(1) by (simp add: transmits_def)
  have "filter initiated ms = ms" using assms(3) by (simp add: filter_id_conv)
  then show "prefix (filter initiated ds) (map received ms)"
    using prefix_filter [OF assms(2), of initiated] with_replies_filter [OF wr, of initiated] by (simp add: filter_received)
  show "m_opcode d \<in> {Pong, Close}" if "d \<in> set ds" "\<not> initiated d"
    using that set_mono_prefix [OF assms(2)] with_replies_set [OF wr] assms(3) by (fastforce simp: reply_def)
qed

text \<open>The outgoing bytes of a session, as frames of messages that any peer accepts.\<close>

lemma session_messages:
  assumes "transport V E written" and "session E s0 ms s" and "ws_inv s0" and "masks_drawn s0 = 0"
    and n: "frame_size (config s0) = n" "n \<noteq> 0" and "125 \<le> M" and "\<forall>m \<in> set ms. length (data (m_payload m)) \<le> M"
  obtains qs where "outgoing written s = outgoing written s0 @ wire_frames (masks E) (role (decoder (inner s0))) 0 (sent_frames n qs)"
    and "\<forall>m \<in> set qs. sendable m \<and> length (data (m_payload m)) \<le> M" and "\<forall>m \<in> set (butlast qs). m_opcode m \<noteq> Close"
    and "transmits E written s0 ms s qs"
proof -
  from transport.session_sends [OF assms(1,2,3) n] obtain qs where
    qs: "sends E written s0 (sent_frames n qs) s" "\<forall>m \<in> set qs. sendable m" "with_replies ms qs" by blast
  have len: "length (data (m_payload m)) \<le> M" if m: "m \<in> set qs" for m
  proof (cases "m \<in> set ms")
    case False
    then have "reply m" using with_replies_set [OF qs(3) m] by blast
    then have "length (data (m_payload m)) \<le> 125"
      by (auto simp: reply_def sendable_def legal_control_def frame_from_message_def split: if_splits)
    then show ?thesis using assms(7) by simp
  qed (use assms(8) in simp)
  have out: "outgoing written s = outgoing written s0 @ wire_frames (masks E) (role (decoder (inner s0))) 0 (sent_frames n qs)"
    using qs(1) assms(4) by (simp add: sends_def)
  have last: "\<forall>m \<in> set (butlast qs). m_opcode m \<noteq> Close" using qs(1) close_is_last by (auto simp: sends_def)
  show thesis
    by (rule that [OF out _ last]) (use qs(2,3) len out last n(1) in \<open>simp_all add: transmits_def\<close>)
qed

lemma conversation_complete:
  assumes "transport V E written" and "session E (from_raw_stream i f r c l) ms s"
    and "frame_size c \<noteq> 0" and "max_payload_len l \<le> usize_MAX"
    and "simdutf8_lib U" and "\<And>k. length (keys k) = 4"
    and "listening t Continuation []" and "role (decoder (inner t)) \<noteq> r"
    and "125 \<le> max_payload_len (limits (decoder (inner t)))"
    and "\<forall>m \<in> set ms. length (data (m_payload m)) \<le> max_payload_len (limits (decoder (inner t)))"
    and "written i @ unread (inner t) = outgoing written s"
  shows "\<exists>sent_ms t'. transmits E written (from_raw_stream i f r c l) ms s sent_ms
    \<and> delivers (duplex_env U pf keys) w t (map received sent_ms) t' \<and> unread (inner t') = []"
proof -
  let ?s0 = "from_raw_stream i f r c l"
  have "ws_inv ?s0" "masks_drawn ?s0 = 0" "frame_size (config ?s0) = frame_size c" using ws_inv_new(1) [OF assms(4)] by simp_all
  from session_messages [OF assms(1,2) this assms(3,9,10), unfolded new_stream_fields] obtain qs where
    out: "outgoing written s = written i @ wire_frames (masks E) r 0 (sent_frames (frame_size c) qs)"
    and qs: "\<forall>m \<in> set qs. sendable m \<and> length (data (m_payload m)) \<le> max_payload_len (limits (decoder (inner t)))"
      "\<forall>m \<in> set (butlast qs). m_opcode m \<noteq> Close" "transmits E written ?s0 ms s qs" .
  have bytes: "unread (inner t) = wire_frames (masks E) r 0 (sent_frames (frame_size c) qs) @ []"
    using out assms(11) by simp
  have "0 < frame_size c" "r \<noteq> role (decoder (inner t))" using assms(3,8) by auto
  from read_messages [where pf = pf and w = w and keys = keys and ks = "masks E", OF assms(5,6) transport.key_length [OF assms(1)]
      this(1) assms(7) _ bytes this(2) assms(9) _ qs(2)] qs(1) obtain t' where
    "delivers (duplex_env U pf keys) w t (map received qs) t'" "unread (inner t') = []" by blast
  then show ?thesis using qs(3) by blast
qed

text \<open>
  C10: Whatever one end does, in whatever order, with messages the constructors of \<open>Message\<close> make,
  and whatever it is sent meanwhile: its outgoing bytes are the frames of the messages that \<open>start_send\<close> has
  taken, of every opcode, all of them, in order and unchanged, with pongs and close messages of the stream's own
  between them and nothing after a close message (\<open>transmits\<close>). Arrived at a reader in memory, cut into
  reads in any way, they are read by calls of \<open>poll_next\<close> without an error and without a byte left over, as exactly these messages. While some
  of the bytes are still to come (\<open>later\<close>), the first of these messages are read, and the reader waits.
  The reader's payload limit is at least 125 and admits the messages that were sent.
\<close>

theorem conversation_delivered:
  assumes "transport V E written" and "session E (from_raw_stream i f r c l) ms s"
    and "frame_size c \<noteq> 0" and "max_payload_len l \<le> usize_MAX"
    and "simdutf8_lib U" and "\<And>k. length (keys k) = 4"
    and "listening t Continuation []" and "role (decoder (inner t)) \<noteq> r"
    and "125 \<le> max_payload_len (limits (decoder (inner t)))" and "max_payload_len (limits (decoder (inner t))) \<le> usize_MAX"
    and "\<forall>m \<in> set ms. length (data (m_payload m)) \<le> max_payload_len (limits (decoder (inner t)))"
    and "written i @ unread (inner t) @ later = outgoing written s" and "later \<noteq> [] \<Longrightarrow> \<not> eof (io (inner t))"
  shows "\<exists>sent_ms ds t'. transmits E written (from_raw_stream i f r c l) ms s sent_ms
    \<and> delivers (duplex_env U pf keys) w t ds t' \<and> prefix ds (map received sent_ms)
    \<and> (if later = [] then unread (inner t') = [] \<and> ds = map received sent_ms
       else \<exists>t''. poll_next (duplex_env U pf keys) w t' = Some (Pending, t''))"
proof (cases "later = []")
  case True
  then have "written i @ unread (inner t) = outgoing written s" using assms(12) by simp
  from conversation_complete [where pf = pf and w = w and keys = keys, OF assms(1-9,11) this] True show ?thesis by fastforce
next
  case False
  let ?t = "arrive later t"
  have t: "listening ?t Continuation []" using assms(7) by (simp add: listening_def)
  have dec: "decoder (inner ?t) = decoder (inner t)" by simp
  have bytes: "written i @ unread (inner ?t) = outgoing written s" using assms(12) by simp
  have inv: "ws_inv t" using assms(7,10) by (simp add: listening_def ws_inv_def awaits_def codec_inv_fresh)
  from conversation_complete [where pf = pf and w = w and keys = keys, OF assms(1-6) t _ _ _ bytes] assms(8,9,11) obtain qs u where
    qs: "transmits E written (from_raw_stream i f r c l) ms s qs" "delivers (duplex_env U pf keys) w ?t (map received qs) u" "unread (inner u) = []"
    unfolding dec by blast
  from delivers_prefix [OF assms(5,6) qs(2,3) False assms(13) [OF False] inv] obtain ds1 t1 t2 where
    "delivers (duplex_env U pf keys) w t ds1 t1" "prefix ds1 (map received qs)" "poll_next (duplex_env U pf keys) w t1 = Some (Pending, t2)"
    by blast
  then show ?thesis using False qs(1) by (intro exI [of _ qs] exI [of _ ds1] exI [of _ t1]) auto
qed

text \<open>A client that sends a ping and a text message in frames of two bytes.\<close>

definition sample_sender :: "(duplex, unit) websocket_stream" where
  "sample_sender = from_raw_stream \<lparr>incoming = [], eof = False, room = [], sent = []\<rparr> () Client
     \<lparr>frame_size = 2, flush_threshold = 0\<rparr> limits_default"

definition sample_receiver :: "bytes \<Rightarrow> (duplex, unit) websocket_stream" where
  "sample_receiver bs = from_raw_stream \<lparr>incoming = map (\<lambda>b. [b]) bs, eof = False, room = [5, 100], sent = []\<rparr> () Server
     config_default limits_default"

theorem conversation_delivered_witness:
  "\<exists>s sent_ms t'. session std_env sample_sender [\<lparr>m_opcode = Ping, m_payload = payload_from_bytes [7]\<rparr>,
        message_text (payload_from_str [0x68, 0xC3, 0xA9])] s
     \<and> delivers std_env 0 (sample_receiver (outgoing sent s)) (map received sent_ms) t'
     \<and> filter initiated sent_ms = [\<lparr>m_opcode = Ping, m_payload = payload_from_bytes [7]\<rparr>,
        message_text (payload_from_str [0x68, 0xC3, 0xA9])]"
proof -
  let ?m1 = "\<lparr>m_opcode = Ping, m_payload = payload_from_bytes [7]\<rparr>"
  let ?m2 = "message_text (payload_from_str [0x68, 0xC3, 0xA9])"
  have valid: "valid_utf8 [0x68, 0xC3, 0xA9]" by code_simp
  have ok: "sendable ?m1" "sendable ?m2" using constructors_sendable(1) [OF _ valid]
    by (simp_all add: sendable_def legal_control_def frame_from_message_def payload_from_bytes_def)
  have s0: "ws_inv sample_sender" "state sample_sender = Active" "frame_size (config sample_sender) \<noteq> 0"
    unfolding sample_sender_def by (rule ws_inv_new, simp add: limits_default_def) (simp_all add: from_raw_stream_def)
  from std_duplex.start_send_sends [OF s0(1,3), of ?m1] s0(2) obtain s1 where
    s1: "start_send std_env sample_sender ?m1 = Some (Inr (), s1)" "ws_inv s1" "config s1 = config sample_sender"
    by (auto simp: sends_def)
  have "state s1 = Active"
    using s1(1) s0(2) std_duplex.queue_frame_eq [of sample_sender "frame_from_message ?m1"]
    by (auto simp: start_send_def frame_from_message_def)
  with std_duplex.start_send_sends [OF s1(2), of ?m2] s1(3) s0(3) obtain s2 where
    s2: "start_send std_env s1 ?m2 = Some (Inr (), s2)" by auto
  have session: "session std_env sample_sender ([] @ [?m1] @ [?m2]) s2"
    using session_send [OF session_send [OF session_start ok(1) s1(1)] ok(2) s2] by simp
  have concat: "concat (map (\<lambda>b. [b]) xs) = xs" for xs :: bytes by (induction xs) simp_all
  let ?t = "sample_receiver (outgoing sent s2)"
  have t: "listening ?t Continuation []" by (simp add: sample_receiver_def listening_new)
  have dec: "decoder (inner ?t) = protocol_new Server limits_default" "unread (inner ?t) = outgoing sent s2"
    by (simp_all add: sample_receiver_def from_raw_stream_def unread_def concat)
  from conversation_delivered [where later = "[]" and keys = "\<lambda>_. [0x37, 0xFA, 0x21, 0x3D]" and pf = scalar_platform and w = 0,
      OF std_duplex.transport_axioms session [unfolded sample_sender_def] _ _ std.simdutf8_lib_axioms _ t]
  obtain qs t' where qs: "transmits std_env sent sample_sender ([] @ [?m1] @ [?m2]) s2 qs" "delivers std_env 0 ?t (map received qs) t'"
    unfolding dec sample_sender_def [symmetric] by (auto simp: protocol_new_def limits_default_def payload_from_bytes_def payload_from_str_def message_text_def)
  have "filter initiated qs = [?m1, ?m2]"
    using with_replies_filter [of "[] @ [?m1] @ [?m2]" qs initiated] qs(1) by (simp add: transmits_def initiated_def message_text_def)
  then show ?thesis using session qs(2) by auto
qed

end
