(* ===== verification/Backpressure.thy ===== *)
theory Backpressure
  imports Stream_Closing
begin

text \<open>
  How much a stream holds back: \<open>poll_ready\<close> and the flush threshold bound the bytes that wait in
  the frame queue.
\<close>

subsection \<open>The size of encoded frames\<close>

lemma length_wire_frame:
  assumes "length key \<le> 4"
  shows "length (f_payload fr) + 2 \<le> length (wire_frame key fr)" "length (wire_frame key fr) \<le> length (f_payload fr) + 14"
  using assms by (simp_all add: wire_frame_def wire_head_def length_ext_len)

lemma length_wire_frames:
  assumes "\<And>i. length (keys i) = 4"
  shows "length (wire_frames keys r k frs) \<le> length (concat (map f_payload frs)) + 14 * length frs"
proof (induction frs arbitrary: k)
  case (Cons fr frs)
  have "length (if r = Client then keys k else []) \<le> 4" using assms by simp
  from length_wire_frame(2) [OF this, of fr] Cons.IH [of "if r = Client then k + 1 else k"] show ?case by simp
qed simp

lemma length_frames_of: "0 < n \<Longrightarrow> length (frames_of n op bs) = 1 + (length bs - 1) div n"
proof (induction n op bs rule: frames_of.induct)
  case (1 n op bs)
  show ?case
  proof (cases "length bs \<le> n")
    case True
    then have "(length bs - 1) div n = 0" using 1(2) by simp
    then show ?thesis using True by (subst frames_of.simps) simp
  next
    case False
    have "(length bs - 1) div n = (n + (length bs - n - 1)) div n" using False 1(2) by (intro arg_cong2 [where f = "(div)"]) auto
    also have "\<dots> = 1 + (length bs - n - 1) div n" using 1(2) by (simp add: div_add_self1)
    finally show ?thesis using 1 False by (subst frames_of.simps) (simp add: diff_commute)
  qed
qed

context transport
begin

lemma foldl_queue_frame_keeps:
  "inner (foldl (queue_frame E) s frs) = inner s" "partial_payload (foldl (queue_frame E) s frs) = partial_payload s"
  by (induction frs arbitrary: s) (simp_all add: queue_frame_keeps)

lemma start_send_inner:
  assumes "start_send E s m = Some (r, s')" and "frame_size (config s) \<noteq> 0"
  shows "inner s' = inner s" and "partial_payload s' = partial_payload s"
  using assms by (auto simp: start_send_def queue_frame_keeps into_frames_def frames_fold_eq foldl_queue_frame_keeps
      split: if_splits)

lemma start_send_queue:
  assumes "ws_inv s" and "frame_size (config s) \<noteq> 0" and "start_send E s m = Some (Inr u, s')"
  shows "remaining (frame_queue s') \<le> remaining (frame_queue s) + length (data (m_payload m))
    + 14 * (1 + (length (data (m_payload m)) - 1) div frame_size (config s))"
proof -
  let ?n = "frame_size (config s)" let ?l = "length (data (m_payload m))"
  from start_send_sends [OF assms(1,2), of m] assms(3) obtain frs where
    frs: "sends E written s frs s'" "ws_inv s'" "is_control (m_opcode m) \<Longrightarrow> frs = [frame_from_message m]"
    "\<not> is_control (m_opcode m) \<Longrightarrow> frs = frames_of ?n (m_opcode m) (data (m_payload m))"
    by (auto split: if_splits)
  let ?b = "wire_frames (masks E) (role (decoder (inner s))) (masks_drawn s) frs"
  have "contents (frame_queue s') = contents (frame_queue s) @ ?b"
    using frs(1) start_send_inner [OF assms(3,2)] by (simp add: sends_def outgoing_def)
  moreover have "fq_inv (frame_queue s)" "fq_inv (frame_queue s')" using assms(1) frs(2) by (simp_all add: ws_inv_def)
  ultimately have rem: "remaining (frame_queue s') = remaining (frame_queue s) + length ?b" by (simp add: fq.rem_eq)
  have "length ?b \<le> length (concat (map f_payload frs)) + 14 * length frs" by (rule length_wire_frames) (rule key_length)
  moreover have "length (concat (map f_payload frs)) = ?l \<and> length frs \<le> 1 + (?l - 1) div ?n"
    using frs(3,4) frames_of_shape(1) [of ?n] length_frames_of [of ?n] assms(2)
    by (cases "is_control (m_opcode m)") (simp_all add: frame_from_message_def)
  ultimately show ?thesis unfolding rem by auto
qed

lemma flush_queue:
  assumes "fq_inv (frame_queue s)" and "poll_flush E w s = Some (r, s')"
  shows "remaining (frame_queue s') \<le> remaining (frame_queue s)"
proof -
  have "length (contents (frame_queue s')) \<le> length (contents (frame_queue s))" using assms
  proof (induction "length (contents (frame_queue s))" arbitrary: s rule: less_induct)
    case less
    note inv = less.prems(1)
    show ?case
    proof (cases "contents (frame_queue s) = []")
      case True
      then have "frame_queue s' = frame_queue s" using less.prems(2) has_remaining_iff [OF inv]
        by (subst (asm) poll_flush.simps)
          (auto simp: flush_io_def Let_def set_io_def flush_failed_def set_flushing_waker_eq split: prod.splits poll.splits sum.splits)
      then show ?thesis by simp
    next
      case False
      obtain x i fq where w: "poll_write_buf E w (io (inner s)) (frame_queue s) = (x, i, fq)"
        by (cases "poll_write_buf E w (io (inner s)) (frame_queue s)")
      let ?s1 = "(set_io s i)\<lparr>frame_queue := fq\<rparr>"
      have step: "Some (r, s') = (case x of
          Ready (Inl e) \<Rightarrow> Some (Ready (Inl (Io e)), flush_failed ?s1)
        | Pending \<Rightarrow> Some (Pending, set_flushing_waker ?s1 w)
        | Ready (Inr n) \<Rightarrow> if n = 0 then Some (Ready (Inl (Io WriteZero)), flush_failed ?s1) else poll_flush E w ?s1)"
        using False has_remaining_iff [OF inv] w less.prems(2) by (subst (asm) poll_flush.simps) (simp add: Let_def)
      have drops: "fq_inv fq \<and> contents fq = drop n (contents (frame_queue s))" if "x = Ready (Inr n)" for n
        using write_ready [OF inv w [unfolded that]] fq.adv_drop [OF inv, of n] fq.rem_eq [OF inv] by auto
      have stays: "fq = frame_queue s" if "x = Pending \<or> (\<exists>e. x = Ready (Inl e))"
        using write_other [OF inv w that] by simp
      show ?thesis
      proof (cases "\<exists>n. x = Ready (Inr n) \<and> n \<noteq> 0")
        case True
        then obtain n where n: "x = Ready (Inr n)" "n \<noteq> 0" by blast
        from drops [OF n(1)] have fq: "fq_inv fq" "length (contents fq) < length (contents (frame_queue s))" "length (contents fq) \<le> length (contents (frame_queue s))"
          using n(2) False by auto
        with less.hyps [of ?s1] step n show ?thesis by simp
      next
        case False
        then have "frame_queue s' = fq \<and> length (contents fq) \<le> length (contents (frame_queue s))"
          using step stays drops by (auto simp: flush_failed_def set_flushing_waker_eq split: poll.splits sum.splits)
        then show ?thesis by simp
      qed
    qed
  qed
  moreover have "fq_inv (frame_queue s')" using poll_flush_total [OF assms(1), of w] assms(2) by (auto simp: flush_post_def)
  ultimately show ?thesis using assms(1) by (simp add: fq.rem_eq)
qed

end

subsection \<open>The bound\<close>

text \<open>
  A sink that is used as \<open>Sink\<close> asks: \<open>start_send\<close> only after a \<open>poll_ready\<close> that was successful (the flag says that there was
  one since the last \<open>start_send\<close>), with messages that take at most \<open>b\<close> bytes, and flushed at any time.
\<close>

definition message_room :: "config \<Rightarrow> message \<Rightarrow> nat" where
  "message_room c m = length (data (m_payload m)) + 14 * (1 + (length (data (m_payload m)) - 1) div frame_size c)"

inductive sink_use ::
  "('io, 'f) env \<Rightarrow> nat \<Rightarrow> ('io, 'f) websocket_stream \<Rightarrow> bool \<Rightarrow> ('io, 'f) websocket_stream \<Rightarrow> bool"
  for E :: "('io, 'f) env" and b :: nat and s0 :: "('io, 'f) websocket_stream" where
  sink_start: "sink_use E b s0 False s0"
| sink_ready: "sink_use E b s0 rdy s \<Longrightarrow> poll_ready E w s = Some (r, s') \<Longrightarrow> sink_use E b s0 (rdy \<or> r = Ready (Inr ())) s'"
| sink_send: "sink_use E b s0 True s \<Longrightarrow> message_room (config s0) m \<le> b \<Longrightarrow> start_send E s m = Some (x, s') \<Longrightarrow> sink_use E b s0 False s'"
| sink_flush: "sink_use E b s0 rdy s \<Longrightarrow> poll_flush E w s = Some (r', s') \<Longrightarrow> sink_use E b s0 rdy s'"

context transport
begin

lemma flush_bounded:
  assumes "poll_flush E w s = Some (r, s')" and "ws_inv s"
  shows "ws_inv s' \<and> config s' = config s \<and> remaining (frame_queue s') \<le> remaining (frame_queue s)
    \<and> (r = Ready (Inr ()) \<longrightarrow> remaining (frame_queue s') = 0)"
proof -
  have fq: "fq_inv (frame_queue s)" using assms(2) by (simp add: ws_inv_def)
  have post: "flush_post written w s r s'" using poll_flush_total [OF fq, of w] assms(1) by auto
  from flush_sends(2) [OF assms(2) post] post flush_queue [OF fq assms(1)] show ?thesis
    by (auto simp: flush_post_def same_besides_io_def fq.rem_eq)
qed

lemma sink_use_bounded:
  assumes "sink_use E b s0 rdy s" and "ws_inv s0" and n: "frame_size (config s0) \<noteq> 0"
  shows "ws_inv s \<and> config s = config s0 \<and> remaining (frame_queue s)
    \<le> (if rdy then flush_threshold (config s0) - 1 else max (remaining (frame_queue s0)) (flush_threshold (config s0) - 1 + b))"
  using assms(1)
proof (induction rule: sink_use.induct)
  case sink_start
  then show ?case using assms(2) by simp
next
  case (sink_ready rdy s w r s')
  show ?case
  proof (cases "flush_threshold (config s) \<le> remaining (frame_queue s)")
    case True
    then have "poll_flush E w s = Some (r, s')" using sink_ready.hyps(2) by (simp add: poll_ready_def)
    from flush_bounded [OF this] sink_ready.IH show ?thesis by (auto split: if_splits)
  next
    case False
    then show ?thesis using sink_ready by (auto simp: poll_ready_def)
  qed
next
  case (sink_send s m x s')
  have s: "ws_inv s" "frame_size (config s) \<noteq> 0" "config s = config s0" using sink_send.IH n by simp_all
  from start_send_sends [OF s(1,2), of m] sink_send.hyps(3) have s': "ws_inv s' \<and> config s' = config s \<and> (isl x \<longrightarrow> s' = s)"
    by (auto simp: sends_def split: if_splits)
  have "remaining (frame_queue s') \<le> remaining (frame_queue s) + b"
  proof (cases x)
    case (Inr u)
    from start_send_queue [OF s(1,2)] sink_send.hyps(2,3) s(3) show ?thesis
      unfolding Inr message_room_def by (fastforce intro: le_trans)
  qed (use s' in simp)
  then show ?case using s' s(3) sink_send.IH by auto
next
  case (sink_flush rdy s w r s')
  from flush_bounded [OF sink_flush.hyps(2)] sink_flush.IH show ?case by (auto split: if_splits)
qed

end

text \<open>
  C28: Backpressure. As long as a stream is used only for sending, and as \<open>Sink\<close> asks (\<open>start_send\<close> only after a \<open>poll_ready\<close> that was
  successful, \<open>poll_flush\<close> at any time), over whatever transport, its queue holds at every moment at most the larger of what was there at the
  start, and what is below the flush threshold together with one message: its
  payload and at most 14 bytes for each of its frames. Right after a successful \<open>poll_ready\<close> it is below the threshold.
  The replies that \<open>poll_next\<close> and \<open>poll_close\<close> queue come on top of this.
\<close>

theorem queue_bounded_by_threshold:
  assumes "transport U E written" and "ws_inv s0" and "frame_size (config s0) \<noteq> 0" and "sink_use E b s0 rdy s"
  shows "remaining (frame_queue s) \<le> max (remaining (frame_queue s0)) (flush_threshold (config s0) - 1 + b)
    \<and> (\<forall>w s1. poll_ready E w s = Some (Ready (Inr ()), s1) \<longrightarrow> remaining (frame_queue s1) \<le> flush_threshold (config s0) - 1)"
proof -
  note bounded = transport.sink_use_bounded [OF assms(1) _ assms(2,3)]
  have "remaining (frame_queue s1) \<le> flush_threshold (config s0) - 1" if "poll_ready E w s = Some (Ready (Inr ()), s1)" for w s1
    using bounded [OF sink_ready [OF assms(4) that]] by simp
  then show ?thesis using bounded [OF assms(4)] by (auto split: if_splits)
qed

theorem queue_bounded_by_threshold_witness:
  "\<exists>s1 s2. poll_ready std_env 0 (from_raw_stream \<lparr>incoming = [], eof = False, room = [], sent = []\<rparr> () Client
        \<lparr>frame_size = 2, flush_threshold = 8\<rparr> limits_default) = Some (Ready (Inr ()), s1)
     \<and> start_send std_env s1 (message_binary (payload_from_bytes [1, 2, 3, 4, 5])) = Some (Inr (), s2)
     \<and> remaining (frame_queue s2) \<le> 7 + (5 + 14 * 3)"
proof -
  let ?s = "from_raw_stream \<lparr>incoming = [], eof = False, room = [], sent = []\<rparr> () Client
    \<lparr>frame_size = 2, flush_threshold = 8\<rparr> limits_default :: (duplex, unit) websocket_stream"
  let ?m = "message_binary (payload_from_bytes [1, 2, 3, 4, 5])"
  have s: "ws_inv ?s" by (rule ws_inv_new) (simp add: limits_default_def)
  have c: "config ?s = \<lparr>frame_size = 2, flush_threshold = 8\<rparr>" "state ?s = Active" "remaining (frame_queue ?s) = 0"
    by (simp_all add: from_raw_stream_def frame_queue_new_def remaining_def)
  have ready: "poll_ready std_env 0 ?s = Some (Ready (Inr ()), ?s)" using c by (simp add: poll_ready_def)
  from std_duplex.start_send_sends [OF s, of ?m] c obtain s2 where s2: "start_send std_env ?s ?m = Some (Inr (), s2)" by auto
  have "sink_use std_env (5 + 14 * 3) ?s True ?s" using sink_ready [OF sink_start ready] by simp
  from sink_send [OF this _ s2] have "sink_use std_env (5 + 14 * 3) ?s False s2"
    by (simp add: message_room_def c message_binary_def payload_from_bytes_def)
  from queue_bounded_by_threshold [OF std_duplex.transport_axioms s _ this] c ready s2 show ?thesis by auto
qed

end
