(* ===== verification/Full_Duplex.thy ===== *)
theory Full_Duplex
  imports Byte_Transport Conversation Backpressure
begin

text \<open>
  Reading over any byte stream that may wait at any time, in any order of operations: what has been
  decoded and put together when a call is pending is kept, so that messages are received in the order
  in which they were sent, however calls of \<open>poll_next\<close> are interrupted, dropped and mixed with sending.
\<close>

subsection \<open>A decoder in the middle of a frame\<close>

text \<open>
  The decoder \<open>p\<close> with the buffer \<open>b\<close> goes on as the decoder \<open>p0\<close> would from the beginning of the frame,
  with the bytes \<open>src\<close> in its buffer.
\<close>

definition half_read ::
  "simdutf8 \<Rightarrow> platform \<Rightarrow> websocket_protocol \<Rightarrow> bytes \<Rightarrow> websocket_protocol \<Rightarrow> bytes \<Rightarrow> bool" where
  "half_read U pf p b p0 src \<longleftrightarrow> codec_inv p b \<and> codec_inv p0 src \<and> role p = role p0 \<and> limits p = limits p0
     \<and> (\<forall>rest. result_sim (decode U pf p (b @ rest)) (decode U pf p0 (src @ rest)))"

context simdutf8_lib
begin

lemma half_read_start: "codec_inv p b \<Longrightarrow> half_read U pf p b p b"
  using result_sim_refl [OF decode_total [OF codec_inv_append]] by (simp add: half_read_def)

lemma decode_reads_waits:
  assumes "codec_inv p b" and "decode_reads U pf p b cs = Some (Inr None, p', b')"
  shows "result_sim (decode U pf p' (b' @ rest)) (decode U pf p (b @ concat cs @ rest))"
  using assms
proof (induction cs arbitrary: p b)
  case Nil
  then show ?case using decode_resume [OF Nil(1), of pf rest] by (simp add: resumes_def)
next
  case (Cons c cs)
  from decode_total [OF Cons.prems(1), of pf] obtain r p1 b1 where
    r: "decode U pf p b = Some (r, p1, b1)" and inv: "r = Inr None \<Longrightarrow> codec_inv p1 b1" by (auto simp: decode_post_def)
  have none: "r = Inr None" using Cons.prems(2) r by (cases r; cases "projr r") auto
  then have "decode_reads U pf p1 (b1 @ c) cs = Some (Inr None, p', b')" using Cons.prems(2) r by simp
  from Cons.IH [OF codec_inv_append [OF inv [OF none]] this]
  have "result_sim (decode U pf p' (b' @ rest)) (decode U pf p1 (b1 @ c @ concat cs @ rest))" by simp
  moreover have "result_sim (decode U pf p1 (b1 @ c @ concat cs @ rest)) (decode U pf p (b @ concat (c # cs) @ rest))"
    using decode_resume [OF Cons.prems(1), of pf "c @ concat cs @ rest"] r none by (simp add: resumes_def)
  ultimately show ?case by (rule result_sim_trans)
qed

lemma half_read_waits:
  assumes h: "half_read U pf p b p0 src" and d: "decode_reads U pf p b cs = Some (Inr None, p', b')"
  shows "half_read U pf p' b' p0 (src @ concat cs)"
proof -
  have inv: "codec_inv p b" using h by (simp add: half_read_def)
  have "result_sim (decode U pf p' (b' @ rest)) (decode U pf p0 ((src @ concat cs) @ rest))" for rest
    using result_sim_trans [OF decode_reads_waits [OF inv d, of rest]] h by (simp add: half_read_def)
  then show ?thesis
    using h decode_reads_post(1-3) [OF inv d] codec_inv_append [of p0 src "concat cs"] by (simp add: half_read_def)
qed

text \<open>
  If the decoder would take the frame \<open>f\<close> from the whole input, then it takes this frame or waits, after
  any reads.
\<close>

lemma half_read_answer:
  assumes h: "half_read U pf p b p0 src" and d: "decode_reads U pf p b cs = Some (r, p', b')"
    and all: "decode U pf p0 (src @ concat cs @ rest) = Some (Inr fo, q, left)"
  shows "r = Inr None \<or> (\<exists>f. r = Inr (Some f) \<and> fo = Some f \<and> proto_sim p' q \<and> b' @ rest = left)"
proof (cases "r = Inr None")
  case False
  have inv: "codec_inv p b" "codec_inv p0 (src @ concat cs)" using h by (simp_all add: half_read_def codec_inv_append)
  have "result_sim (decode U pf p (b @ concat cs)) (decode U pf p0 (src @ concat cs))" using h by (simp add: half_read_def)
  from result_sim_trans [OF decode_reads_sim [OF inv(1), of pf cs, unfolded d] this] decode_resume [OF inv(2), of pf rest] all False
  show ?thesis
    by (cases r; cases "projr r") (auto simp: resumes_def split: option.splits sum.splits)
qed simp

end

subsection \<open>A stream in the middle of a frame\<close>

text \<open>
  \<open>input\<close> is what the byte stream gives in all, from the beginning of the frame that is being read.
\<close>

definition reads_on ::
  "simdutf8 \<Rightarrow> platform \<Rightarrow> ('io \<Rightarrow> bytes \<times> bytes) \<Rightarrow> ('io, 'f) websocket_stream \<Rightarrow> websocket_protocol \<Rightarrow> bytes \<Rightarrow> bool" where
  "reads_on U pf seen t p0 input \<longleftrightarrow>
     (\<exists>src. half_read U pf (decoder (inner t)) (buffer (inner t)) p0 src \<and> input = src @ snd (seen (io (inner t))))"

definition finished :: "('io, 'f) websocket_stream \<Rightarrow> bool" where
  "finished t \<longleftrightarrow> state t = CloseAcknowledged \<or> state t = ClosedByPeer"

context byte_transport
begin

lemma reads_on_start:
  "codec_inv (decoder (inner t)) (buffer (inner t)) \<Longrightarrow>
     reads_on U pf seen t (decoder (inner t)) (buffer (inner t) @ snd (seen (io (inner t))))"
  using half_read_start unfolding reads_on_def by blast

lemma reads_on_cong:
  "inner t = inner t' \<Longrightarrow> reads_on U pf seen t p0 input \<longleftrightarrow> reads_on U pf seen t' p0 input"
  by (simp add: reads_on_def)

text \<open>One call that reads a frame, if the whole input would give the answer \<open>fo\<close>.\<close>

lemma read_frame_on:
  assumes on: "reads_on U (cpu E) seen t p0 input" and st: "state t \<in> {Active, ClosedByUs}"
    and rf: "read_frame E w t = Some (r, t')"
    and all: "decode U (cpu E) p0 (input @ later) = Some (Inr fo, q, left)"
  shows "case r of
      Ready (Some (Inr f)) \<Rightarrow> fo = Some f \<and> (\<exists>t1. t' = on_frame E t1 f \<and> proto_sim (decoder (inner t1)) q
        \<and> buffer (inner t1) @ snd (seen (io (inner t1))) @ later = left \<and> partial_payload t1 = partial_payload t \<and> state t1 = state t)
    | Ready (Some (Inl e)) \<Rightarrow> (\<exists>x. e = Io x) \<and> finished t'
    | _ \<Rightarrow> reads_on U (cpu E) seen t' p0 input \<and> partial_payload t' = partial_payload t \<and> state t' = state t"
proof -
  from on obtain src where h: "half_read U (cpu E) (decoder (inner t)) (buffer (inner t)) p0 src"
    and input: "input = src @ snd (seen (io (inner t)))" by (auto simp: reads_on_def)
  obtain rd fr where rd: "framed_poll_next E w (inner t) = (rd, fr)" by (cases "framed_poll_next E w (inner t)")
  have cinv: "codec_inv (decoder (inner t)) (buffer (inner t))" using h by (simp add: half_read_def)
  from reads_frames [OF cinv rd] obtain cs d where
    d: "decode_reads U (cpu E) (decoder (inner t)) (buffer (inner t)) cs = Some (d, decoder fr, buffer fr)"
    and rd_d: "case rd of Pending \<Rightarrow> d = Inr None | Ready None \<Rightarrow> d = Inr None | Ready (Some (Inr f)) \<Rightarrow> d = Inr (Some f)
        | Ready (Some (Inl e)) \<Rightarrow> d = Inl e \<or> (d = Inr None \<and> (\<exists>x. e = Io x))"
    and sn: "snd (seen (io (inner t))) = concat cs @ snd (seen (io fr))"
    unfolding reads_to_def by blast
  have "decode U (cpu E) p0 (src @ concat cs @ snd (seen (io fr)) @ later) = Some (Inr fo, q, left)"
    using all by (simp add: input sn)
  from half_read_answer [OF h d this] have
    ans: "d = Inr None \<or> (\<exists>f. d = Inr (Some f) \<and> fo = Some f \<and> proto_sim (decoder fr) q \<and> buffer fr @ snd (seen (io fr)) @ later = left)" .
  let ?t1 = "t\<lparr>inner := fr\<rparr>"
  have on1: "reads_on U (cpu E) seen ?t1 p0 input" if "d = Inr None"
    unfolding reads_on_def using half_read_waits [OF h d [unfolded that]] by (intro exI [of _ "src @ concat cs"]) (simp add: input sn)
  have eq: "Some (r, t') = (case rd of Pending \<Rightarrow> Some (Pending, ?t1) | Ready None \<Rightarrow> Some (Ready None, ?t1)
      | Ready (Some (Inl e)) \<Rightarrow> on_read_error E ?t1 e | Ready (Some (Inr f)) \<Rightarrow> Some (Ready (Some (Inr f)), on_frame E ?t1 f))"
    using rf rd by (simp add: read_frame_def Let_def)
  consider (pend) "rd = Pending" | (none) "rd = Ready None" | (err) e where "rd = Ready (Some (Inl e))"
    | (ok) f where "rd = Ready (Some (Inr f))" by (cases rd) (metis option.exhaust sum.exhaust, simp)
  then show ?thesis
  proof cases
    case pend
    then show ?thesis using eq rd_d on1 by simp
  next
    case none
    then show ?thesis using eq rd_d on1 by simp
  next
    case err
    then have "\<exists>x. e = Io x" using rd_d ans by auto
    then show ?thesis using eq err by (auto simp: on_read_error_def finished_def)
  next
    case ok
    then show ?thesis using eq rd_d ans by auto
  qed
qed

lemma poll_next_frame_on:
  assumes inv: "ws_inv t" and on: "reads_on U (cpu E) seen t p0 input" and st: "state t \<in> {Active, ClosedByUs}"
    and pn: "poll_next_frame E w t = Some (r, t')"
    and all: "decode U (cpu E) p0 (input @ later) = Some (Inr fo, q, left)"
  shows "case r of
      Ready (Some (Inr f)) \<Rightarrow> fo = Some f \<and> (\<exists>t1. t' = on_frame E t1 f \<and> proto_sim (decoder (inner t1)) q
        \<and> buffer (inner t1) @ snd (seen (io (inner t1))) @ later = left \<and> partial_payload t1 = partial_payload t \<and> state t1 = state t)
    | Ready (Some (Inl e)) \<Rightarrow> (\<exists>x. e = Io x) \<and> finished t'
    | _ \<Rightarrow> reads_on U (cpu E) seen t' p0 input \<and> partial_payload t' = partial_payload t \<and> state t' = state t"
proof (cases "has_remaining (frame_queue t)")
  case False
  then have "read_frame E w t = Some (r, t')" using pn st by (auto simp: poll_next_frame_def)
  from read_frame_on [OF on st this all] show ?thesis .
next
  case True
  let ?w = "case flushing_waker t of None \<Rightarrow> w | Some v \<Rightarrow> v"
  have fq: "fq_inv (frame_queue t)" using inv by (simp add: ws_inv_def)
  from transport.poll_flush_total [OF is_transport fq, of ?w] obtain r1 t1 where
    r1: "poll_flush E ?w t = Some (r1, t1)" and post: "flush_post (\<lambda>i. fst (seen i)) ?w t r1 t1" by blast
  have pp: "partial_payload t1 = partial_payload t" using post by (simp add: flush_post_def same_besides_io_def)
  have on1: "reads_on U (cpu E) seen t1 p0 input"
    using on post flush_leaves_input [OF r1] by (simp add: reads_on_def flush_post_def same_besides_io_def)
  show ?thesis
  proof (cases "\<exists>e. r1 = Ready (Inl e)")
    case err: True
    then show ?thesis using pn st r1 True post by (auto simp: poll_next_frame_def flush_post_def finished_def)
  next
    case ok: False
    then have rf: "read_frame E w t1 = Some (r, t')"
      using pn st r1 True by (cases r1) (auto simp: poll_next_frame_def split: sum.splits)
    have st1: "state t1 = state t" using post ok by (auto simp: flush_post_def split: poll.splits sum.splits)
    show ?thesis using read_frame_on [OF on1 _ rf all] st unfolding st1 pp by blast
  qed
qed

lemma poll_next_frame_finished:
  assumes inv: "ws_inv t" and fin: "finished t" and pn: "poll_next_frame E w t = Some (r, t')"
  shows "finished t' \<and> (\<forall>f. r \<noteq> Ready (Some (Inr f))) \<and> (\<forall>e. r = Ready (Some (Inl e)) \<longrightarrow> (\<exists>x. e = Io x))"
proof -
  have fq: "fq_inv (frame_queue t)" using inv by (simp add: ws_inv_def)
  from transport.poll_flush_total [OF is_transport fq, of w] obtain r1 t1 where
    "poll_flush E w t = Some (r1, t1)" and "flush_post (\<lambda>i. fst (seen i)) w t r1 t1" by blast
  then show ?thesis using pn fin
    by (cases r1) (auto simp: poll_next_frame_def finished_def flush_post_def split: sum.splits)
qed

end

subsection \<open>The messages to come\<close>

text \<open>
  The other end, in the role \<open>r\<close>, has sent frames of at most \<open>n\<close> bytes with the keys \<open>ks\<close>; the bytes \<open>later\<close> of
  them never arrive. \<open>m\<close> is the limit of the reader.
\<close>

locale framed_reader = byte_transport U A seen E
  for U :: simdutf8 and A :: "'io async_io" and seen :: "'io \<Rightarrow> bytes \<times> bytes" and E :: "('io, 'f) env" +
  fixes n :: usize and ks :: "nat \<Rightarrow> bytes" and r :: role and later :: bytes and m :: usize
  assumes n_pos: "0 < n" and ks_length: "length (ks i) = 4" and limit: "125 \<le> m"
begin

definition at_frames :: "('io, 'f) websocket_stream \<Rightarrow> websocket_protocol \<Rightarrow> wsframe list \<Rightarrow> bool" where
  "at_frames t p0 frs \<longleftrightarrow> role p0 \<noteq> r \<and> max_payload_len (limits p0) = m
     \<and> (\<exists>input k. reads_on U (cpu E) seen t p0 input \<and> input @ later = wire_frames ks r k frs)"

text \<open>At the beginning of a frame.\<close>

definition at_start :: "('io, 'f) websocket_stream \<Rightarrow> wsframe list \<Rightarrow> bool" where
  "at_start t frs \<longleftrightarrow> role (decoder (inner t)) \<noteq> r \<and> max_payload_len (limits (decoder (inner t))) = m
     \<and> (\<exists>k. buffer (inner t) @ snd (seen (io (inner t))) @ later = wire_frames ks r k frs)"

lemma at_start_frames:
  assumes "at_start t frs" and "awaits (decoder (inner t)) op acc"
  shows "at_frames t (decoder (inner t)) frs"
proof -
  from assms(1) obtain k where k: "(buffer (inner t) @ snd (seen (io (inner t)))) @ later = wire_frames ks r k frs"
    by (auto simp: at_start_def)
  have "codec_inv (decoder (inner t)) (buffer (inner t))" using assms(2) by (simp add: awaits_def codec_inv_fresh)
  from reads_on_start [OF this] k show ?thesis using assms(1) unfolding at_frames_def at_start_def by blast
qed

lemma at_start_cong: "inner t = inner t' \<Longrightarrow> at_start t frs \<longleftrightarrow> at_start t' frs"
  by (simp add: at_start_def)

lemma at_frames_role: "at_frames t p0 frs \<Longrightarrow> max_payload_len (limits (decoder (inner t))) = m"
  by (auto simp: at_frames_def reads_on_def half_read_def)

lemma at_frames_cong: "inner t = inner t' \<Longrightarrow> at_frames t p0 frs \<longleftrightarrow> at_frames t' p0 frs"
  unfolding at_frames_def using reads_on_cong by metis

lemma frame_round:
  assumes inv: "ws_inv t" and st: "state t \<in> {Active, ClosedByUs}" and at: "at_frames t p0 (fr # frs)" and aw: "awaits p0 op acc"
    and legal: "legal_head p0 (f_is_final fr) (f_opcode fr) (length (f_payload fr))" "legal_payload p0 fr"
    and pn: "poll_next_frame E w t = Some (x, t')"
  shows "case x of
      Ready (Some (Inr f)) \<Rightarrow> f = fr \<and> (\<exists>t1. t' = on_frame E t1 fr \<and> partial_payload t1 = partial_payload t \<and> state t1 = state t
        \<and> at_start t1 frs
        \<and> awaits (decoder (inner t1)) (if \<not> f_is_final fr \<and> f_opcode fr \<noteq> Continuation then f_opcode fr else op)
            (acc @ (if text_frame p0 fr then f_payload fr else [])))
    | Ready (Some (Inl e)) \<Rightarrow> (\<exists>y. e = Io y) \<and> finished t'
    | _ \<Rightarrow> at_frames t' p0 (fr # frs) \<and> partial_payload t' = partial_payload t \<and> state t' = state t"
proof -
  from at obtain input k where on: "reads_on U (cpu E) seen t p0 input" and bytes: "input @ later = wire_frames ks r k (fr # frs)"
    and role: "role p0 \<noteq> r" and m: "max_payload_len (limits p0) = m" by (auto simp: at_frames_def)
  let ?key = "if r = Client then ks k else []" let ?k = "if r = Client then k + 1 else k"
  have key: "key_for (role p0) ?key" using ks_length role by (cases "role p0"; cases r) (auto simp: key_for_def)
  have p0: "validator_inv (validator p0)" "payload_processed p0 = 0" using aw by (simp_all add: awaits_def)
  from decode_wire [OF p0 key legal] obtain q where
    q: "decode U (cpu E) p0 (input @ later) = Some (Inr (Some fr), q, wire_frames ks r ?k frs)" and took: "took_frame p0 fr q"
    unfolding bytes wire_frames_cons by blast
  have next_at: "at_start t1 frs
      \<and> awaits (decoder (inner t1)) (if \<not> f_is_final fr \<and> f_opcode fr \<noteq> Continuation then f_opcode fr else op)
            (acc @ (if text_frame p0 fr then f_payload fr else []))"
    if "proto_sim (decoder (inner t1)) q" "buffer (inner t1) @ snd (seen (io (inner t1))) @ later = wire_frames ks r ?k frs" for t1
    using awaits_took [OF aw took that(1)] that(2) role m unfolding at_start_def by auto
  have waits: "at_frames t' p0 (fr # frs)" if "reads_on U (cpu E) seen t' p0 input"
    using that bytes role m unfolding at_frames_def by blast
  note on' = poll_next_frame_on [OF inv on st pn q]
  consider (ok) f where "x = Ready (Some (Inr f))" | (err) e where "x = Ready (Some (Inl e))" | (wait) "x = Pending \<or> x = Ready None"
    by (cases x) (metis option.exhaust sum.exhaust, simp)
  then show ?thesis
  proof cases
    case ok
    then obtain t1 where t1: "f = fr" "t' = on_frame E t1 f" "proto_sim (decoder (inner t1)) q"
      "buffer (inner t1) @ snd (seen (io (inner t1))) @ later = wire_frames ks r ?k frs"
      "partial_payload t1 = partial_payload t" "state t1 = state t" using on' by auto
    show ?thesis unfolding ok poll.case option.case sum.case
      using t1(1,2,5,6) next_at [OF t1(3,4)] by (intro conjI exI [of _ t1]) simp_all
  next
    case err
    then show ?thesis using on' by simp
  next
    case wait
    then show ?thesis using on' waits by (elim disjE) (simp_all del: wire_frames.simps)
  qed
qed

lemma no_frame_round:
  assumes inv: "ws_inv t" and st: "state t \<in> {Active, ClosedByUs}" and at: "at_frames t p0 []"
    and pn: "poll_next_frame E w t = Some (x, t')"
  shows "case x of
      Ready (Some (Inr f)) \<Rightarrow> False
    | Ready (Some (Inl e)) \<Rightarrow> (\<exists>y. e = Io y) \<and> finished t'
    | _ \<Rightarrow> at_frames t' p0 [] \<and> partial_payload t' = partial_payload t \<and> state t' = state t"
proof -
  from at obtain input where on: "reads_on U (cpu E) seen t p0 input" and bytes: "input @ later = []"
    by (auto simp: at_frames_def)
  have "decode U (cpu E) p0 (input @ later) = Some (Inr None, p0, [])"
    unfolding bytes by (simp add: decode_def decode_head_def slice_def)
  note on' = poll_next_frame_on [OF inv on st pn this]
  have waits: "at_frames t' p0 []" if "reads_on U (cpu E) seen t' p0 input"
    using that bytes at unfolding at_frames_def by auto
  show ?thesis using on' waits by (auto split: poll.splits option.splits sum.splits)
qed

text \<open>Between two messages, and in the middle of one (\<open>op'\<close> is \<open>Continuation\<close> before its first frame).\<close>

definition idle :: "('io, 'f) websocket_stream \<Rightarrow> message list \<Rightarrow> bool" where
  "idle t ms \<longleftrightarrow> (\<exists>p0. awaits p0 Continuation [] \<and> at_frames t p0 (sent_frames n ms))"

definition amid :: "('io, 'f) websocket_stream \<Rightarrow> opcode \<Rightarrow> opcode \<Rightarrow> bytes \<Rightarrow> bytes \<Rightarrow> message list \<Rightarrow> bool" where
  "amid t op' op acc bs ms \<longleftrightarrow> op \<in> {Text, Binary} \<and> op' \<in> {Continuation, op}
     \<and> (op' = Continuation \<longrightarrow> acc = []) \<and> (op' \<noteq> Continuation \<longrightarrow> partial_payload t = acc \<and> bs \<noteq> [])
     \<and> (op = Text \<longrightarrow> valid_utf8 (acc @ bs)) \<and> length (acc @ bs) \<le> m \<and> length (acc @ bs) < 2 ^ 64
     \<and> (\<exists>p0. awaits p0 op' (if op = Text then acc else [])
          \<and> at_frames t p0 (frames_of n (if op' = Continuation then op else Continuation) bs @ sent_frames n ms))"

text \<open>The messages \<open>ds\<close> are still to come, or the reader is finished.\<close>

definition expects :: "('io, 'f) websocket_stream \<Rightarrow> message list \<Rightarrow> bool" where
  "expects t ds \<longleftrightarrow> finished t \<or> state t \<in> {Active, ClosedByUs} \<and>
     (\<exists>ms. (\<forall>x \<in> set ms. sendable x \<and> length (data (m_payload x)) \<le> m) \<and>
        (idle t ms \<and> ds = map received ms \<or>
         (\<exists>op' op acc bs. amid t op' op acc bs ms \<and> ds = message_new op (acc @ bs) # map received ms)))"

lemma not_finished: "finished t \<longleftrightarrow> state t \<notin> {Active, ClosedByUs}"
  by (cases "state t") (simp_all add: finished_def)

lemma finished_expects: "finished t \<Longrightarrow> expects t ds"
  by (simp add: expects_def)

lemma idle_expects:
  "idle t ms \<Longrightarrow> finished t \<or> state t \<in> {Active, ClosedByUs} \<Longrightarrow>
    \<forall>x \<in> set ms. sendable x \<and> length (data (m_payload x)) \<le> m \<Longrightarrow> expects t (map received ms)"
  unfolding expects_def by blast

lemma amid_round:
  assumes inv: "ws_inv t" and st: "state t \<in> {Active, ClosedByUs}" and at: "amid t op' op acc bs ms"
    and pn: "poll_next_frame E w t = Some (x, t1)"
  shows "case x of
      Ready (Some (Inr f)) \<Rightarrow> (case assemble m t1 f of
          Inl (y, t2) \<Rightarrow> y = Inr (message_new op (acc @ bs)) \<and> idle t2 ms \<and> state t2 = state t
        | Inr t2 \<Rightarrow> (\<exists>acc' bs'. amid t2 op op acc' bs' ms \<and> acc' @ bs' = acc @ bs) \<and> state t2 = state t)
    | Ready (Some (Inl e)) \<Rightarrow> (\<exists>y. e = Io y) \<and> finished t1
    | _ \<Rightarrow> amid t1 op' op acc bs ms \<and> state t1 = state t"
proof -
  let ?o = "if op' = Continuation then op else Continuation" let ?d = "if op = Text then acc else []"
  let ?fr = "\<lparr>f_is_final = (length bs \<le> n), f_opcode = ?o, f_payload = take n bs\<rparr>"
  let ?tail = "if length bs \<le> n then [] else frames_of n Continuation (drop n bs)"
  have op: "op \<in> {Text, Binary}" "op' \<in> {Continuation, op}" "op' = Continuation \<Longrightarrow> acc = []"
    "op' \<noteq> Continuation \<Longrightarrow> partial_payload t = acc \<and> bs \<noteq> []" "op = Text \<Longrightarrow> valid_utf8 (acc @ bs)"
    "length (acc @ bs) \<le> m" "length (acc @ bs) < 2 ^ 64" using at by (auto simp: amid_def)
  have frames: "frames_of n ?o bs = ?fr # ?tail" using n_pos by (subst frames_of.simps) simp
  from at obtain p0 where aw: "awaits p0 op' ?d" and fr: "at_frames t p0 (?fr # ?tail @ sent_frames n ms)"
    unfolding amid_def frames by auto
  have m: "max_payload_len (limits p0) = m" using fr by (simp add: at_frames_def)
  have "op = Text \<Longrightarrow> if f_is_final ?fr then valid_utf8 (?d @ f_payload ?fr) else utf8_run Boundary (?d @ f_payload ?fr) \<noteq> None"
    using op(5) valid_prefix [of "acc @ take n bs" "drop n bs"] by simp
  note legal = legal_data_frame [OF aw, of ?fr op, OF _ op(1,2) _ _ this]
  have lg: "legal_head p0 (f_is_final ?fr) (f_opcode ?fr) (length (f_payload ?fr))" "legal_payload p0 ?fr"
    "\<not> is_control (f_opcode ?fr)" "text_frame p0 ?fr \<longleftrightarrow> op = Text" using legal op(6,7) m by simp_all
  note round = frame_round [OF inv st fr aw lg(1,2) pn]
  consider (ok) f where "x = Ready (Some (Inr f))" | (err) e where "x = Ready (Some (Inl e))" | (wait) "x = Pending \<or> x = Ready None"
    by (cases x) (metis option.exhaust sum.exhaust, simp)
  then show ?thesis
  proof cases
    case err
    then show ?thesis using round by simp
  next
    case wait
    then have "at_frames t1 p0 (?fr # ?tail @ sent_frames n ms)" "partial_payload t1 = partial_payload t" "state t1 = state t"
      using round by auto
    then show ?thesis using wait aw op unfolding amid_def frames by (elim disjE) auto
  next
    case ok
    note round [unfolded ok poll.case option.case sum.case on_frame_data [OF lg(3)]]
    then obtain f1: "f = ?fr" and t1: "partial_payload t1 = partial_payload t" "state t1 = state t"
      "at_start t1 (?tail @ sent_frames n ms)"
      "awaits (decoder (inner t1)) (if \<not> f_is_final ?fr \<and> f_opcode ?fr \<noteq> Continuation then f_opcode ?fr else op')
        (?d @ (if text_frame p0 ?fr then f_payload ?fr else []))"
      by (elim conjE exE) blast
    have aw1: "awaits (decoder (inner t1)) (if length bs \<le> n then op' else op) (if op = Text then acc @ take n bs else [])"
      using t1(4) lg(4) op(1,2) by (auto split: if_splits)
    have fit: "\<not> m < length acc + length (take n bs)" using op(6) by simp
    show ?thesis
    proof (cases "length bs \<le> n")
      case True
      have aw2: "awaits (decoder (inner t1)) op' []"
        using aw1 True op(5) by (cases "op = Text") (auto simp: awaits_def valid_utf8_def)
      show ?thesis
      proof (cases "op' = Continuation")
        case first: True
        then have "assemble m t1 f = Inl (Inr (message_new op bs), t1)" using True op(1) by (auto simp: assemble_def f1)
        moreover have "idle t1 ms" using at_start_frames [OF t1(3) aw2] aw2 True first unfolding idle_def by auto
        ultimately show ?thesis using t1(2) first op(3) ok by simp
      next
        case False
        then have op': "op' = op" using op(2) by simp
        let ?t2 = "t1\<lparr>inner := (inner t1)\<lparr>decoder := (decoder (inner t1))\<lparr>fragmented_message_opcode := Continuation\<rparr>\<rparr>,
          partial_payload := []\<rparr>"
        have "fragmented_message_opcode (decoder (inner t1)) = op" using aw2 op' by (simp add: awaits_def)
        then have as: "assemble m t1 f = Inl (Inr (message_new op (acc @ bs)), ?t2)"
          using True False op' fit op(4) t1(1) f1 by (simp add: assemble_def take_message_opcode_def)
        let ?p = "(decoder (inner t1))\<lparr>fragmented_message_opcode := Continuation\<rparr>"
        have aw3: "awaits ?p Continuation []" using aw2 by (simp add: awaits_def)
        have "at_start ?t2 (sent_frames n ms)" using t1(3) True by (simp add: at_start_def)
        from at_start_frames [OF this, of Continuation "[]"] aw3 have "idle ?t2 ms" unfolding idle_def by auto
        then show ?thesis using as t1(2) ok by simp
      qed
    next
      case False
      let ?t2 = "t1\<lparr>partial_payload := acc @ take n bs\<rparr>"
      have as: "assemble m t1 f = Inr ?t2"
        using False fit op(1,3,4) t1(1) f1 by (cases "op' = Continuation") (auto simp: assemble_def)
      have "at_frames ?t2 (decoder (inner t1)) (frames_of n (if op = Continuation then op else Continuation) (drop n bs) @ sent_frames n ms)"
        using at_start_frames [OF t1(3) aw1] False op(1) at_frames_cong [of t1 ?t2] by auto
      then have "amid ?t2 op op (acc @ take n bs) (drop n bs) ms"
        using aw1 False op by (auto simp: amid_def)
      moreover have "(acc @ take n bs) @ drop n bs = acc @ bs" by simp
      ultimately show ?thesis using as ok t1(2) by (simp del: append_assoc append_take_drop_id) blast
    qed
  qed
qed

lemma idle_data:
  assumes "idle t (x # ms)" and "\<not> is_control (m_opcode x)" and "sendable x" and "length (data (m_payload x)) \<le> m"
  shows "amid t Continuation (m_opcode x) [] (data (m_payload x)) ms"
  using assms by (auto simp: idle_def amid_def frames_for_def sendable_def)

lemma control_round:
  assumes inv: "ws_inv t" and st: "state t \<in> {Active, ClosedByUs}" and at: "idle t (x # ms)"
    and ctl: "is_control (m_opcode x)" "sendable x" and pn: "poll_next_frame E w t = Some (y, t1)"
  shows "case y of
      Ready (Some (Inr f)) \<Rightarrow> assemble m t1 f = Inl (Inr (received x), t1) \<and> (finished t1 \<or> idle t1 ms)
    | Ready (Some (Inl e)) \<Rightarrow> (\<exists>z. e = Io z) \<and> finished t1
    | _ \<Rightarrow> idle t1 (x # ms) \<and> state t1 = state t"
proof -
  let ?fr = "frame_from_message x"
  from at obtain p0 where aw: "awaits p0 Continuation []" and fr: "at_frames t p0 (?fr # sent_frames n ms)"
    using ctl(1) by (auto simp: idle_def frames_for_def)
  have m: "max_payload_len (limits p0) = m" using fr by (simp add: at_frames_def)
  have leg: "legal_control ?fr" using ctl by (simp add: sendable_def)
  then have ops: "is_control (f_opcode ?fr)" "f_is_final ?fr" "length (f_payload ?fr) \<le> 125" "f_opcode ?fr = Close \<Longrightarrow> legal_close (f_payload ?fr)"
    by (auto simp: legal_control_def)
  have nt: "\<not> text_frame p0 ?fr" using ops(1) by (auto simp: text_frame_def)
  have lg: "legal_head p0 (f_is_final ?fr) (f_opcode ?fr) (length (f_payload ?fr))" "legal_payload p0 ?fr"
    using ops nt m limit legal_close_length [of "f_payload ?fr"] by (auto simp: legal_head_def legal_payload_def)
  note round = frame_round [OF inv st fr aw lg pn]
  consider (ok) f where "y = Ready (Some (Inr f))" | (err) e where "y = Ready (Some (Inl e))" | (wait) "y = Pending \<or> y = Ready None"
    by (cases y) (metis option.exhaust sum.exhaust, simp)
  then show ?thesis
  proof cases
    case err
    then show ?thesis using round by simp
  next
    case wait
    then have "at_frames t1 p0 (?fr # sent_frames n ms)" "state t1 = state t" using round by auto
    then show ?thesis using wait aw ctl(1) unfolding idle_def by (elim disjE) (auto simp: frames_for_def)
  next
    case ok
    note round [unfolded ok poll.case option.case sum.case]
    then obtain t0 where f: "f = ?fr" and t1: "t1 = on_frame E t0 ?fr" "state t0 = state t" "at_start t0 (sent_frames n ms)"
      and aw0: "awaits (decoder (inner t0)) Continuation []" using ops(2) nt by auto
    have "assemble m t1 f = Inl (Inr (received x), t1)"
      using ctl(1) unfolding f by (cases "m_opcode x") (simp_all add: assemble_def received_def frame_from_message_def)
    moreover have "idle t1 ms"
    proof -
      have inner: "inner t1 = inner t0" unfolding t1(1) by (rule transport.on_frame_keeps(3) [OF is_transport])
      have "at_frames t1 (decoder (inner t0)) (sent_frames n ms)"
        using at_start_frames [OF t1(3) aw0] at_frames_cong [OF inner] by blast
      then show ?thesis using aw0 unfolding idle_def by blast
    qed
    ultimately show ?thesis unfolding ok by simp
  qed
qed

text \<open>One round of the loop in \<open>poll_next\<close>.\<close>

lemma expects_round:
  assumes inv: "ws_inv t" and ex: "expects t ds" and pn: "poll_next_frame E w t = Some (y, t1)"
  shows "case y of
      Ready (Some (Inr f)) \<Rightarrow> (case assemble m t1 f of
          Inl (z, t2) \<Rightarrow> \<exists>d ds'. z = Inr d \<and> ds = d # ds' \<and> expects t2 ds'
        | Inr t2 \<Rightarrow> expects t2 ds)
    | Ready (Some (Inl e)) \<Rightarrow> (\<exists>z. e = Io z) \<and> expects t1 ds
    | _ \<Rightarrow> expects t1 ds"
proof (cases "finished t")
  case True
  from poll_next_frame_finished [OF inv True pn] show ?thesis
    by (auto intro: finished_expects split: poll.splits option.splits sum.splits)
next
  case False
  with ex obtain ms where st: "state t \<in> {Active, ClosedByUs}"
    and ms: "\<forall>x \<in> set ms. sendable x \<and> length (data (m_payload x)) \<le> m"
    and ds: "idle t ms \<and> ds = map received ms \<or>
         (\<exists>op' op acc bs. amid t op' op acc bs ms \<and> ds = message_new op (acc @ bs) # map received ms)"
    unfolding expects_def by blast
  have data: ?thesis if at: "amid t op' op acc bs ms'" and eq: "ds = message_new op (acc @ bs) # map received ms'"
    and ms': "\<forall>x \<in> set ms'. sendable x \<and> length (data (m_payload x)) \<le> m" for op' op acc bs ms'
  proof -
    have amid: "expects t2 ds" if "amid t2 o1 op a b ms'" "a @ b = acc @ bs" "state t2 = state t" for t2 o1 a b
      using that ms' st eq unfolding expects_def by metis
    have idle: "expects t2 (map received ms')" if "idle t2 ms'" "state t2 = state t" for t2
      using that ms' st idle_expects [of t2 ms'] by simp
    note round = amid_round [OF inv st at pn]
    consider (ok) f where "y = Ready (Some (Inr f))" | (err) e where "y = Ready (Some (Inl e))" | (wait) "y = Pending \<or> y = Ready None"
      by (cases y) (metis option.exhaust sum.exhaust, simp)
    then show ?thesis
    proof cases
      case err
      then show ?thesis using round by (simp add: finished_expects)
    next
      case wait
      then show ?thesis using round amid by (elim disjE) auto
    next
      case ok
      show ?thesis
      proof (cases "assemble m t1 f")
        case (Inl zt)
        then show ?thesis using round ok idle eq by (cases zt) auto
      next
        case (Inr t2)
        then show ?thesis using round ok amid by auto
      qed
    qed
  qed
  from ds show ?thesis
  proof
    assume "\<exists>op' op acc bs. amid t op' op acc bs ms \<and> ds = message_new op (acc @ bs) # map received ms"
    then show ?thesis using data ms by blast
  next
    assume at: "idle t ms \<and> ds = map received ms"
    show ?thesis
    proof (cases ms)
      case Nil
      then obtain p0 where p0: "awaits p0 Continuation []" "at_frames t p0 []" using at by (auto simp: idle_def)
      have "expects t2 ds" if "at_frames t2 p0 []" "state t2 = state t" for t2
        using that p0(1) st at Nil idle_expects [of t2 "[]"] by (auto simp: idle_def)
      then show ?thesis using no_frame_round [OF inv st p0(2) pn]
        by (auto intro: finished_expects split: poll.splits option.splits sum.splits)
    next
      case (Cons x ms')
      show ?thesis
      proof (cases "is_control (m_opcode x)")
        case False
        then have "amid t Continuation (m_opcode x) [] (data (m_payload x)) ms'" using at ms Cons by (intro idle_data) auto
        from data [OF this] at ms Cons show ?thesis by (simp add: received_def)
      next
        case True
        have round: "case y of Ready (Some (Inr f)) \<Rightarrow> assemble m t1 f = Inl (Inr (received x), t1) \<and> (finished t1 \<or> idle t1 ms')
            | Ready (Some (Inl e)) \<Rightarrow> (\<exists>z. e = Io z) \<and> finished t1 | _ \<Rightarrow> idle t1 (x # ms') \<and> state t1 = state t"
          using at ms Cons True by (intro control_round [OF inv st _ _ _ pn]) auto
        have more: "expects t1 (map received ms')" if "finished t1 \<or> idle t1 ms'"
          using that ms Cons not_finished [of t1] idle_expects [of t1 ms'] finished_expects [of t1] by auto
        have same: "expects t1 ds" if "idle t1 (x # ms')" "state t1 = state t"
          using that ms Cons at st idle_expects [of t1 "x # ms'"] by auto
        show ?thesis using round more same at Cons
          by (auto intro: finished_expects split: poll.splits option.splits sum.splits)
      qed
    qed
  qed
qed

text \<open>One call of \<open>poll_next\<close>, and what the other operations leave alone.\<close>

lemma poll_next_frame_limits:
  assumes "ws_inv t" and "poll_next_frame E w t = Some (y, t1)"
  shows "limits (decoder (inner t1)) = limits (decoder (inner t))"
  using transport.poll_next_frame_read [OF is_transport assms] unfolding frame_read_def by (auto dest: decode_reads_post(2))

definition reader_inv :: "('io, 'f) websocket_stream \<Rightarrow> message list \<Rightarrow> bool" where
  "reader_inv t ds \<longleftrightarrow> ws_inv t \<and> max_payload_len (limits (decoder (inner t))) = m \<and> expects t ds"

lemma poll_next_reads:
  assumes "reader_inv t ds" and pn: "poll_next E w t = Some (y, t')"
  shows "case y of
      Ready (Some (Inr d)) \<Rightarrow> \<exists>ds'. ds = d # ds' \<and> reader_inv t' ds'
    | Ready (Some (Inl e)) \<Rightarrow> (\<exists>z. e = Io z) \<and> reader_inv t' ds
    | _ \<Rightarrow> reader_inv t' ds"
proof -
  have loop: "poll_next_loop E w m t = Some (y, t')" using assms by (simp add: poll_next_def reader_inv_def)
  have step: "ws_inv t1 \<and> max_payload_len (limits (decoder (inner t1))) = m
      \<and> ((\<exists>f. x = Ready (Some (Inr f))) \<longrightarrow> payload_processed (decoder (inner t1)) = 0)"
    if "reader_inv t0 ds" "poll_next_frame E w t0 = Some (x, t1)" for t0 x t1
    using transport.poll_next_frame_sends [OF is_transport, of t0 w] poll_next_frame_limits [OF _ that(2)] that
    by (auto simp: reader_inv_def)
  have kept: "case assemble m t1 f of Inl (_, t2) \<Rightarrow> ws_inv t2 \<and> max_payload_len (limits (decoder (inner t2))) = m
      | Inr t2 \<Rightarrow> ws_inv t2 \<and> max_payload_len (limits (decoder (inner t2))) = m"
    if "ws_inv t1" "max_payload_len (limits (decoder (inner t1))) = m" "payload_processed (decoder (inner t1)) = 0" for t1 :: "('io, 'f) websocket_stream" and f
    using transport.assemble_sends [OF is_transport that(1,3), of m f] that(2)
    by (auto simp: assemble_def Let_def take_message_opcode_def split: sum.splits prod.splits if_splits)
  show ?thesis
  proof (rule poll_next_loop_rounds [where J = "\<lambda>t. reader_inv t ds" and Q = "\<lambda>y t'. case y of
      Ready (Some (Inr d)) \<Rightarrow> \<exists>ds'. ds = d # ds' \<and> reader_inv t' ds'
    | Ready (Some (Inl e)) \<Rightarrow> (\<exists>z. e = Io z) \<and> reader_inv t' ds
    | _ \<Rightarrow> reader_inv t' ds", OF loop assms(1)])
    fix t0 x t1
    assume J: "reader_inv t0 ds" and pf: "poll_next_frame E w t0 = Some (x, t1)"
    have ex: "ws_inv t0" "expects t0 ds" using J by (simp_all add: reader_inv_def)
    note round = expects_round [OF ex pf] and st = step [OF J pf]
    show "\<forall>f. x \<noteq> Ready (Some (Inr f)) \<Longrightarrow> case (case x of Pending \<Rightarrow> Pending | Ready None \<Rightarrow> Ready None
        | Ready (Some (Inl e)) \<Rightarrow> Ready (Some (Inl e))) of
      Ready (Some (Inr d)) \<Rightarrow> \<exists>ds'. ds = d # ds' \<and> reader_inv t1 ds'
    | Ready (Some (Inl e)) \<Rightarrow> (\<exists>z. e = Io z) \<and> reader_inv t1 ds
    | _ \<Rightarrow> reader_inv t1 ds"
      using round st by (auto simp: reader_inv_def split: poll.splits option.splits sum.splits)
  next
    fix t0 f t1 x t2
    assume J: "reader_inv t0 ds" and pf: "poll_next_frame E w t0 = Some (Ready (Some (Inr f)), t1)"
      and a: "assemble m t1 f = Inl (x, t2)"
    have ex: "ws_inv t0" "expects t0 ds" using J by (simp_all add: reader_inv_def)
    have kept2: "reader_inv t2 ds'" if "expects t2 ds'" for ds'
      using step [OF J pf] kept [of t1 f] a that by (simp add: reader_inv_def)
    from expects_round [OF ex pf] a obtain d ds' where "x = Inr d" "ds = d # ds'" "expects t2 ds'" by auto
    with kept2 show "case Ready (Some x) of
      Ready (Some (Inr d)) \<Rightarrow> \<exists>ds'. ds = d # ds' \<and> reader_inv t2 ds'
    | Ready (Some (Inl e)) \<Rightarrow> (\<exists>z. e = Io z) \<and> reader_inv t2 ds
    | _ \<Rightarrow> reader_inv t2 ds" by simp
  next
    fix t0 f t1 t2
    assume J: "reader_inv t0 ds" and pf: "poll_next_frame E w t0 = Some (Ready (Some (Inr f)), t1)"
      and a: "assemble m t1 f = Inr t2"
    have ex: "ws_inv t0" "expects t0 ds" using J by (simp_all add: reader_inv_def)
    have "expects t2 ds" using expects_round [OF ex pf] a by simp
    then show "reader_inv t2 ds" using step [OF J pf] kept [of t1 f] a by (simp add: reader_inv_def)
  qed
qed

lemma expects_cong:
  assumes "expects t ds" and same: "decoder (inner t') = decoder (inner t)" "buffer (inner t') = buffer (inner t)"
      "snd (seen (io (inner t'))) = snd (seen (io (inner t)))" "partial_payload t' = partial_payload t"
    and "finished t \<Longrightarrow> finished t'"
  shows "expects t' ds"
proof (cases "finished t'")
  case False
  have at: "at_frames t' p0 frs \<longleftrightarrow> at_frames t p0 frs" for p0 frs
    using same(1-3) by (simp add: at_frames_def reads_on_def)
  have "idle t' ms \<longleftrightarrow> idle t ms" "amid t' op' op acc bs ms \<longleftrightarrow> amid t op' op acc bs ms" for ms op' op acc bs
    unfolding idle_def amid_def at same(4) by simp_all
  then show ?thesis using assms(1,6) False not_finished [of t'] unfolding expects_def by auto
qed (rule finished_expects)

lemma flush_keeps_reader:
  assumes "reader_inv t ds" and "poll_flush E w t = Some (y, t')"
  shows "reader_inv t' ds"
proof -
  have inv: "ws_inv t" and fq: "fq_inv (frame_queue t)" using assms(1) by (simp_all add: reader_inv_def ws_inv_def)
  from transport.poll_flush_total [OF is_transport fq, of w] assms(2) have post: "flush_post (\<lambda>i. fst (seen i)) w t y t'" by auto
  have same: "decoder (inner t') = decoder (inner t)" "buffer (inner t') = buffer (inner t)" "partial_payload t' = partial_payload t"
    "finished t \<Longrightarrow> finished t'"
    using post by (auto simp: flush_post_def same_besides_io_def finished_def split: poll.splits sum.splits)
  have "expects t ds" using assms(1) by (simp add: reader_inv_def)
  from expects_cong [OF this same(1,2) flush_leaves_input [OF assms(2)] same(3,4)]
  show ?thesis using transport.flush_sends(2) [OF is_transport inv post] assms(1) same(1) by (simp add: reader_inv_def)
qed

lemma foldl_queue_frame_reader:
  "partial_payload (foldl (queue_frame E) s frs) = partial_payload s
    \<and> (\<not> finished s \<longrightarrow> \<not> finished (foldl (queue_frame E) s frs))"
proof (induction frs arbitrary: s)
  case (Cons fr frs)
  have "\<not> finished s \<Longrightarrow> \<not> finished (queue_frame E s fr)"
    by (auto simp: finished_def queue_frame_def Let_def split: prod.splits if_splits)
  with Cons show ?case using transport.queue_frame_keeps(2) [OF is_transport, of s fr] by simp
qed simp

lemma start_send_keeps_reader:
  assumes "reader_inv t ds" and "start_send E t x = Some (y, t')" and n: "frame_size (config t) \<noteq> 0"
  shows "reader_inv t' ds"
proof -
  have inv: "ws_inv t" "expects t ds" using assms(1) by (simp_all add: reader_inv_def)
  note inner = transport.start_send_inner [OF is_transport assms(2) n]
  have "t' = t \<or> (\<exists>frs. t' = foldl (queue_frame E) t frs) \<and> \<not> finished t"
    using assms(2) n
    by (auto simp: start_send_def finished_def into_frames_def frames_fold_eq split: if_splits intro: exI [of _ "[frame_from_message x]"])
  then have pp: "partial_payload t' = partial_payload t" "finished t \<Longrightarrow> finished t'"
    using foldl_queue_frame_reader [of t] by auto
  from transport.start_send_sends [OF is_transport inv(1) n, of x] assms(2) have "ws_inv t'" by (auto split: if_splits)
  then show ?thesis using expects_cong [OF inv(2) _ _ _ pp] inner assms(1) by (simp add: reader_inv_def)
qed

end

end
