(* ===== verification/Receiving.thy ===== *)
theory Receiving
  imports Full_Duplex
begin

text \<open>
  Both ends at once: one is used in any way and its outgoing bytes reach the other over any byte stream,
  while that one, too, is used in any way.
\<close>

text \<open>
  Operations of the reading end in any order, with the results of \<open>poll_next\<close> that are not
  \<open>Pending\<close> or the end of the stream.
\<close>

inductive reading_session ::
  "('io, 'f) env \<Rightarrow> ('io, 'f) websocket_stream \<Rightarrow> (error + message) list \<Rightarrow> ('io, 'f) websocket_stream \<Rightarrow> bool"
  for E :: "('io, 'f) env" and t0 :: "('io, 'f) websocket_stream" where
  reading_start: "reading_session E t0 [] t0"
| reading_next: "reading_session E t0 log t \<Longrightarrow> poll_next E w t = Some (r, t') \<Longrightarrow>
    reading_session E t0 (log @ (case r of Ready (Some x) \<Rightarrow> [x] | _ \<Rightarrow> [])) t'"
| reading_send: "reading_session E t0 log t \<Longrightarrow> start_send E t m = Some (s, t') \<Longrightarrow> reading_session E t0 log t'"
| reading_ready: "reading_session E t0 log t \<Longrightarrow> poll_ready E w t = Some (s', t') \<Longrightarrow> reading_session E t0 log t'"
| reading_flush: "reading_session E t0 log t \<Longrightarrow> poll_flush E w t = Some (s', t') \<Longrightarrow> reading_session E t0 log t'"

definition messages_of :: "(error + message) list \<Rightarrow> message list" where
  "messages_of log = concat (map (case_sum (\<lambda>_. []) (\<lambda>m. [m])) log)"

lemma messages_of_simps [simp]:
  "messages_of [] = []" "messages_of (log @ log') = messages_of log @ messages_of log'"
  "messages_of [Inr m] = [m]" "messages_of [Inl e] = []"
  by (simp_all add: messages_of_def)

lemma poll_next_config:
  "transport U E written \<Longrightarrow> ws_inv t \<Longrightarrow> poll_next E w t = Some (r, t') \<Longrightarrow> config t' = config t"
  using transport.poll_next_loop_sends [of U E written w "max_payload_len (limits (decoder (inner t)))" t r t']
  by (auto simp: poll_next_def sends_def)

text \<open>What every operation of the reading end keeps.\<close>

lemma reading_session_inv:
  assumes fr: "framed_reader U A seen E n ks m" and t0: "framed_reader.reader_inv U seen E n ks r later m t0 ds"
    and size: "frame_size (config t0) \<noteq> 0" and run: "reading_session E t0 log t"
  shows "frame_size (config t) \<noteq> 0 \<and> (\<forall>e. Inl e \<in> set log \<longrightarrow> (\<exists>x. e = Io x))
    \<and> (\<exists>ds'. ds = messages_of log @ ds' \<and> framed_reader.reader_inv U seen E n ks r later m t ds')"
  using run
proof (induction rule: reading_session.induct)
  case reading_start
  then show ?case using t0 size by simp
next
  case (reading_next log t w y t')
  note tr = byte_transport.is_transport [OF framed_reader.axioms(1) [OF fr]]
  from reading_next.IH obtain ds' where ds': "ds = messages_of log @ ds'"
    and inv: "framed_reader.reader_inv U seen E n ks r later m t ds'" by blast
  have "ws_inv t" using inv by (simp add: framed_reader.reader_inv_def [OF fr])
  then have "config t' = config t" by (rule poll_next_config [OF tr _ reading_next.hyps(2)])
  with framed_reader.poll_next_reads [OF fr inv reading_next.hyps(2)] reading_next.IH ds' show ?case
    by (auto split: poll.splits option.splits sum.splits)
next
  case (reading_send log t x s t')
  note tr = byte_transport.is_transport [OF framed_reader.axioms(1) [OF fr]]
  from reading_send.IH obtain ds' where ds': "ds = messages_of log @ ds'"
    and inv: "framed_reader.reader_inv U seen E n ks r later m t ds'" and n: "frame_size (config t) \<noteq> 0" by blast
  have "ws_inv t" using inv by (simp add: framed_reader.reader_inv_def [OF fr])
  from transport.start_send_sends [OF tr this n, of x] reading_send.hyps(2) have "config t' = config t" by (auto simp: sends_def)
  with framed_reader.start_send_keeps_reader [OF fr inv reading_send.hyps(2) n] reading_send.IH ds' show ?case by auto
next
  case (reading_ready log t w s t')
  note tr = byte_transport.is_transport [OF framed_reader.axioms(1) [OF fr]]
  from reading_ready.IH obtain ds' where ds': "ds = messages_of log @ ds'"
    and inv: "framed_reader.reader_inv U seen E n ks r later m t ds'" and n: "frame_size (config t) \<noteq> 0" by blast
  show ?case
  proof (cases "flush_threshold (config t) \<le> remaining (frame_queue t)")
    case True
    then have f: "poll_flush E w t = Some (s, t')" using reading_ready.hyps(2) by (simp add: poll_ready_def)
    have "ws_inv t" using inv by (simp add: framed_reader.reader_inv_def [OF fr])
    with transport.flush_step [OF tr f] have "config t' = config t" by (simp add: sends_def)
    with framed_reader.flush_keeps_reader [OF fr inv f] reading_ready.IH ds' show ?thesis by auto
  next
    case False
    then show ?thesis using reading_ready by (simp add: poll_ready_def)
  qed
next
  case (reading_flush log t w s t')
  note tr = byte_transport.is_transport [OF framed_reader.axioms(1) [OF fr]]
  from reading_flush.IH obtain ds' where ds': "ds = messages_of log @ ds'"
    and inv: "framed_reader.reader_inv U seen E n ks r later m t ds'" and n: "frame_size (config t) \<noteq> 0" by blast
  have "ws_inv t" using inv by (simp add: framed_reader.reader_inv_def [OF fr])
  with transport.flush_step [OF tr reading_flush.hyps(2)] have "config t' = config t" by (simp add: sends_def)
  with framed_reader.flush_keeps_reader [OF fr inv reading_flush.hyps(2)] reading_flush.IH ds' show ?case by auto
qed

lemma new_reader_inv:
  assumes fr: "framed_reader U A seen E n ks m" and "q \<noteq> r" and "max_payload_len l = m" and "m \<le> usize_MAX"
    and "\<forall>x \<in> set ms. sendable x \<and> length (data (m_payload x)) \<le> m"
    and "buffer gr @ snd (seen (io gr)) @ later = wire_frames ks r k (sent_frames n ms)"
  shows "framed_reader.reader_inv U seen E n ks r later m (from_framed gr q c l) (map received ms)"
proof -
  let ?t = "from_framed gr q c l"
  have aw: "awaits (decoder (inner ?t)) Continuation []"
    by (simp add: awaits_def protocol_new_def)
  have "framed_reader.at_start seen ks r later m ?t (sent_frames n ms)"
    using assms(2,3,6) by (auto simp: framed_reader.at_start_def [OF fr] from_framed_def protocol_new_def)
  from framed_reader.at_start_frames [OF fr this aw] aw
  have "framed_reader.idle U seen E n ks r later m ?t ms" unfolding framed_reader.idle_def [OF fr] by blast
  from framed_reader.idle_expects [OF fr this _ assms(5)] have
    "framed_reader.expects U seen E n ks r later m ?t (map received ms)" by (simp add: from_framed_def)
  moreover have "ws_inv ?t" using assms(3,4) by (intro ws_inv_new) simp
  ultimately show ?thesis using assms(3) by (simp add: framed_reader.reader_inv_def [OF fr])
qed

text \<open>The reader of what a session has sent, before it starts.\<close>

lemma session_reader:
  assumes "transport V D written" and "session D (from_framed fr r c l) ms s"
    and "frame_size c \<noteq> 0" and "max_payload_len l \<le> usize_MAX"
    and "byte_transport U A seen E" and "125 \<le> max_payload_len k" and "max_payload_len k \<le> usize_MAX" and "q \<noteq> r"
    and "\<forall>m \<in> set ms. length (data (m_payload m)) \<le> max_payload_len k"
    and "written (io fr) @ buffer gr @ snd (seen (io gr)) @ later = outgoing written s"
  obtains qs where "framed_reader U A seen E (frame_size c) (masks D) (max_payload_len k)"
    and "framed_reader.reader_inv U seen E (frame_size c) (masks D) r later (max_payload_len k)
      (from_framed gr q d k) (map received qs)"
    and "transmits D written (from_framed fr r c l) ms s qs"
proof -
  let ?s0 = "from_framed fr r c l"
  have "ws_inv ?s0" "masks_drawn ?s0 = 0" "frame_size (config ?s0) = frame_size c" using ws_inv_new(2) [OF assms(4)] by simp_all
  from session_messages [OF assms(1,2) this assms(3,6,9), unfolded new_stream_fields] obtain qs where
    out: "outgoing written s = written (io fr) @ wire_frames (masks D) r 0 (sent_frames (frame_size c) qs)"
    and qs: "\<forall>m \<in> set qs. sendable m \<and> length (data (m_payload m)) \<le> max_payload_len k"
      "transmits D written ?s0 ms s qs" .
  have reader: "framed_reader U A seen E (frame_size c) (masks D) (max_payload_len k)"
    using assms(3,6) by (intro framed_reader.intro assms(5) framed_reader_axioms.intro transport.key_length [OF assms(1)]) simp_all
  have "buffer gr @ snd (seen (io gr)) @ later = wire_frames (masks D) r 0 (sent_frames (frame_size c) qs)" using assms(10) out by simp
  from that [OF reader new_reader_inv [OF reader assms(8) refl assms(7) qs(1) this, of d] qs(2)] show ?thesis .
qed

text \<open>
  What the calls of the reading end have returned. The statement of the property \<open>received_in_order\<close> for ends after a
  handshake, too: \<open>buffer gr\<close> are the bytes that the handshake has read too far.
\<close>

lemma reading_session_receives:
  assumes "transport V D written" and "session D (from_framed fr r c l) ms s"
    and "frame_size c \<noteq> 0" and "max_payload_len l \<le> usize_MAX"
    and "byte_transport U A seen E" and "reading_session E (from_framed gr q d k) log t"
    and "frame_size d \<noteq> 0" and "125 \<le> max_payload_len k" and "max_payload_len k \<le> usize_MAX" and "q \<noteq> r"
    and "\<forall>m \<in> set ms. length (data (m_payload m)) \<le> max_payload_len k"
    and "written (io fr) @ buffer gr @ snd (seen (io gr)) @ later = outgoing written s"
  shows "(\<exists>sent_ms. transmits D written (from_framed fr r c l) ms s sent_ms \<and> prefix (messages_of log) (map received sent_ms))
    \<and> (\<forall>e. Inl e \<in> set log \<longrightarrow> (\<exists>x. e = Io x))"
proof -
  from session_reader [OF assms(1-5,8-12), of d] obtain qs where
    reader: "framed_reader U A seen E (frame_size c) (masks D) (max_payload_len k)"
    and t0: "framed_reader.reader_inv U seen E (frame_size c) (masks D) r later (max_payload_len k)
      (from_framed gr q d k) (map received qs)"
    and qs: "transmits D written (from_framed fr r c l) ms s qs" .
  have "frame_size (config (from_framed gr q d k)) \<noteq> 0" using assms(7) by simp
  from reading_session_inv [OF reader t0 this assms(6)] qs show ?thesis by auto
qed

text \<open>
  C11: Messages are received in order. Let one end be used in any way, and let some of its outgoing bytes
  reach the other end over a byte stream that is free to wait, to give any number of bytes at a time and to
  fail, such as one with TLS; let that end, too, call \<open>start_send\<close>, \<open>poll_ready\<close>, \<open>poll_flush\<close> and \<open>poll_next\<close>
  in any order, and drop or repeat calls as it likes. (It does not call \<open>poll_close\<close>, which reads messages and throws them away.)
  Then what its calls of \<open>poll_next\<close> have returned so far are the first of the messages on the wire:
  the messages of every opcode that the first end has taken for sending, with its own pongs and close messages between
  them (\<open>transmits\<close>), none lost, changed, repeated or put before another, and
  nothing after a close message; and the only errors are errors of the byte stream.
  The reader's payload limit is at least 125 and admits the messages that were sent.
\<close>

theorem received_in_order:
  assumes "transport V D written" and "session D (from_raw_stream i f r c l) ms s"
    and "frame_size c \<noteq> 0" and "max_payload_len l \<le> usize_MAX"
    and "byte_transport U A seen E" and "reading_session E (from_raw_stream j g q d k) log t"
    and "frame_size d \<noteq> 0" and "125 \<le> max_payload_len k" and "max_payload_len k \<le> usize_MAX" and "q \<noteq> r"
    and "\<forall>m \<in> set ms. length (data (m_payload m)) \<le> max_payload_len k"
    and "written i @ snd (seen j) @ later = outgoing written s"
  shows "(\<exists>sent_ms. transmits D written (from_raw_stream i f r c l) ms s sent_ms \<and> prefix (messages_of log) (map received sent_ms))
    \<and> (\<forall>e. Inl e \<in> set log \<longrightarrow> (\<exists>x. e = Io x))"
proof -
  have "written (io (fresh_read i f r l)) @ buffer (fresh_read j g q k) @ snd (seen (io (fresh_read j g q k))) @ later
    = outgoing written s" using assms(12) by simp
  from reading_session_receives [OF assms(1) assms(2) [unfolded from_raw_stream_framed] assms(3-5)
      assms(6) [unfolded from_raw_stream_framed] assms(7-11) this] show ?thesis unfolding from_raw_stream_framed .
qed

text \<open>A server behind TLS that reads what the client of \<open>sample_sender\<close> sends, after a flush of its own.\<close>

interpretation tls_reader: framed_reader std_utf8 tls_pipe "case_maybe_tls_stream id id id" tls_pipe_env
    2 "\<lambda>_. [0x37, 0xFA, 0x21, 0x3D]" Client "[]" 67108864
  by unfold_locales simp_all

definition sample_tls_reader :: "bytes \<Rightarrow> ((bytes \<times> bytes, bytes \<times> bytes, bytes \<times> bytes) maybe_tls_stream, unit) websocket_stream" where
  "sample_tls_reader bs = from_raw_stream (Rustls_Stream ([], bs)) () Server config_default limits_default"

theorem received_in_order_witness:
  "\<exists>s t1 r t. session std_env sample_sender [\<lparr>m_opcode = Ping, m_payload = payload_from_bytes [7]\<rparr>] s
     \<and> poll_flush tls_pipe_env 1 (sample_tls_reader (outgoing sent s)) = Some (Ready (Inr ()), t1)
     \<and> poll_next tls_pipe_env 0 t1 = Some (r, t)
     \<and> prefix (filter initiated (messages_of (case r of Ready (Some x) \<Rightarrow> [x] | _ \<Rightarrow> []))) [message_new Ping [7]]"
proof -
  let ?m = "\<lparr>m_opcode = Ping, m_payload = payload_from_bytes [7]\<rparr>"
  have ok: "sendable ?m" by (simp add: sendable_def legal_control_def frame_from_message_def payload_from_bytes_def)
  have s0: "ws_inv sample_sender" "state sample_sender = Active" "frame_size (config sample_sender) \<noteq> 0"
    unfolding sample_sender_def by (rule ws_inv_new, simp add: limits_default_def) (simp_all add: from_raw_stream_def)
  from std_duplex.start_send_sends [OF s0(1,3), of ?m] s0(2) obtain s where
    s: "start_send std_env sample_sender ?m = Some (Inr (), s)" by auto
  have session: "session std_env sample_sender ([] @ [?m]) s" by (rule session_send [OF session_start ok s])
  let ?t = "sample_tls_reader (outgoing sent s)"
  have t: "ws_inv ?t" unfolding sample_tls_reader_def by (rule ws_inv_new) (simp add: limits_default_def)
  have flush: "poll_flush tls_pipe_env 1 ?t = Some (Ready (Inr ()), ?t)"
    by (subst poll_flush.simps) (simp add: sample_tls_reader_def from_raw_stream_def frame_queue_new_def has_remaining_def remaining_def
        flush_io_def framed_env_def maybe_tls_io_def pipe_io_def set_io_def)
  from finite_transport.poll_next_uses [OF tls_transport.is_finite_transport t, of 0] obtain r t' where
    r: "poll_next tls_pipe_env 0 ?t = Some (r, t')" by blast
  note run = reading_next [OF reading_flush [OF reading_start flush] r]
  from received_in_order [where later = "[]", OF std_duplex.transport_axioms session [unfolded sample_sender_def] _ _
      tls_transport.byte_transport_axioms run [unfolded sample_tls_reader_def]]
  obtain qs where qs: "transmits std_env sent sample_sender [?m] s qs"
    "prefix (messages_of (case r of Ready (Some x) \<Rightarrow> [x] | _ \<Rightarrow> [])) (map received qs)"
    unfolding sample_sender_def [symmetric] by (auto simp: limits_default_def config_default_def payload_from_bytes_def)
  have "initiated ?m" "received ?m = message_new Ping [7]" by (simp_all add: initiated_def received_def payload_from_bytes_def)
  with transmits_initiated(1) [OF qs] session flush r show ?thesis by auto
qed

end
