(* ===== verification/Stream_Text.thy ===== *)
theory Stream_Text
  imports Stream_Messages Receiving
begin

text \<open>
  What the text of the messages that \<open>poll_next\<close> returns can be: the validator and the message
  being assembled agree, from a new connection on, until an error or a message that stops inside a
  code point. A decoder that has taken a part of a frame is related to one that still has all of it.
\<close>

subsection \<open>The validator and the message being assembled\<close>

definition text_sound :: "websocket_protocol \<Rightarrow> bytes \<Rightarrow> bool" where
  "text_sound q pp \<longleftrightarrow> validator_inv (validator q) \<and> payload_processed q = 0 \<and>
     utf8_run Boundary (stored (validator q)) = utf8_run Boundary (if fragmented_message_opcode q = Text then pp else []) \<and>
     utf8_run Boundary (stored (validator q)) \<noteq> None"

lemma text_sound_sim: "proto_sim p q \<Longrightarrow> text_sound q pp \<Longrightarrow> text_sound p pp"
  unfolding text_sound_def proto_sim_def validator_sim_def same_head_state_def by metis

text \<open>The message that a round returns, and the state it leaves for the next one.\<close>

definition text_result :: "(error + message) \<times> ('io, 'f) websocket_stream \<Rightarrow> bool" where
  "text_result xs \<longleftrightarrow> (case fst xs of
      Inl _ \<Rightarrow> True
    | Inr m \<Rightarrow>
        (if m_opcode m = Text then utf8_run Boundary (data (m_payload m)) \<noteq> None \<and>
           (valid_utf8 (data (m_payload m)) \<longrightarrow> text_sound (decoder (inner (snd xs))) (partial_payload (snd xs)))
         else text_sound (decoder (inner (snd xs))) (partial_payload (snd xs))))"

lemma utf8_run_same_start: "utf8_run Boundary xs = utf8_run Boundary ys \<Longrightarrow> utf8_run Boundary (xs @ zs) = utf8_run Boundary (ys @ zs)"
  by (simp add: utf8_run_append)

lemma assemble_text:
  assumes q: "text_sound q (partial_payload s)" and head: "legal_head q (f_is_final f) (f_opcode f) (length (f_payload f))"
    and pay: "legal_payload q f" and took: "took_frame q f q'" and sim: "proto_sim (decoder (inner s)) q'"
    and nc: "\<not> is_control (fragmented_message_opcode q)"
  shows "case assemble max_len s f of Inl xs \<Rightarrow> text_result xs | Inr s' \<Rightarrow> text_sound (decoder (inner s')) (partial_payload s')"
proof -
  let ?v = "validator q" and ?w = "validator (decoder (inner s))" and ?pp = "partial_payload s"
  let ?run = "utf8_run Boundary" and ?p = "decoder (inner s)"
  have p: "validator_inv ?w" "payload_processed ?p = 0" "?run (stored ?w) = ?run (stored (validator q'))"
    "fragmented_message_opcode ?p = fragmented_message_opcode q'"
    using sim took by (simp_all add: proto_sim_def validator_sim_def same_head_state_def took_frame_def)
  have frag: "fragmented_message_opcode q' = (if \<not> f_is_final f \<and> f_opcode f \<noteq> Continuation then f_opcode f
      else fragmented_message_opcode q)" using took by (simp add: took_frame_def)
  have v: "?run (stored ?v) = ?run (if fragmented_message_opcode q = Text then ?pp else [])" "?run (stored ?v) \<noteq> None"
    using q unfolding text_sound_def by blast+
  have other: "?run (stored ?w) = ?run (stored ?v)" if "\<not> text_frame q f"
    using took that p(3) by (simp add: took_frame_def)
  have textf: "?run (stored ?w) = ?run (stored ?v @ f_payload f) \<and> ?run (stored ?w) \<noteq> None \<and>
      (f_is_final f \<and> f_payload f \<noteq> [] \<longrightarrow> valid_utf8 (stored ?v @ f_payload f))" if "text_frame q f"
  proof (cases "f_payload f = []")
    case True
    then show ?thesis using took p(3) v(2) by (simp add: took_frame_def)
  next
    case False
    then have "?run (stored ?w) = ?run (stored ?v @ f_payload f)" using took that p(3) by (simp add: took_frame_def)
    moreover have "if f_is_final f then valid_utf8 (stored ?v @ f_payload f) else ?run (stored ?v @ f_payload f) \<noteq> None"
      using pay that False by (simp add: legal_payload_def)
    ultimately show ?thesis by (auto simp: valid_utf8_def split: if_splits)
  qed
  show ?thesis
  proof (cases "f_opcode f = Continuation")
    case cont: True
    then have ncont: "fragmented_message_opcode q \<noteq> Continuation" using head by (simp add: legal_head_def)
    have fp: "fragmented_message_opcode ?p = fragmented_message_opcode q" using p(4) frag cont by simp
    let ?all = "?pp @ f_payload f"
    show ?thesis
    proof (cases "fragmented_message_opcode q = Text")
      case True
      then have tf: "text_frame q f" using cont by (simp add: text_frame_def)
      have "?run (stored ?v) = ?run ?pp" using v(1) True by simp
      from utf8_run_same_start [OF this, of "f_payload f"] have run: "?run (stored ?w) = ?run ?all" using textf [OF tf] by simp
      from textf [OF tf] have "?run (stored ?w) \<noteq> None" by blast
      then have ne: "?run ?all \<noteq> None" by (simp only: run not_False_eq_True)
      show ?thesis
        using cont True fp run ne p
        by (auto simp: assemble_def Let_def text_result_def text_sound_def take_message_opcode_def message_new_def valid_utf8_def)
    next
      case False
      then have "\<not> text_frame q f" using cont by (simp add: text_frame_def)
      then have "?run (stored ?w) = ?run []" using other v(1) False by simp
      then show ?thesis
        using cont False fp p
        by (auto simp: assemble_def Let_def text_result_def text_sound_def take_message_opcode_def message_new_def)
    qed
  next
    case first: False
    show ?thesis
    proof (cases "is_control (f_opcode f)")
      case True
      then have "\<not> text_frame q f" "f_opcode f \<noteq> Text" "f_is_final f" using first head
        by (auto simp: text_frame_def is_control_def legal_head_def)
      then show ?thesis
        using first p other v frag by (simp add: assemble_def text_result_def text_sound_def message_new_def)
    next
      case False
      then have q0: "fragmented_message_opcode q = Continuation" using head first by (simp add: legal_head_def)
      then have v0: "?run (stored ?v) = ?run []" using v(1) by simp
      show ?thesis
      proof (cases "f_opcode f = Text")
        case True
        then have tf: "text_frame q f" by (simp add: text_frame_def)
        have run: "?run (stored ?w) = ?run (f_payload f)" using textf [OF tf] utf8_run_same_start [OF v0] by simp
        from textf [OF tf] have "?run (stored ?w) \<noteq> None" by blast
        then have ne: "?run (f_payload f) \<noteq> None" by (simp only: run not_False_eq_True)
        show ?thesis
          using True first p frag q0 run ne
          by (auto simp: assemble_def text_result_def text_sound_def message_new_def valid_utf8_def)
      next
        case other_op: False
        then have "\<not> text_frame q f" using first q0 by (simp add: text_frame_def)
        then have "?run (stored ?w) = ?run []" using other v0 by simp
        then show ?thesis
          using other_op first p frag q0
          by (auto simp: assemble_def text_result_def text_sound_def message_new_def)
      qed
    qed
  qed
qed

subsection \<open>Decoders amid a frame\<close>

text \<open>
  Between two reads the decoder goes on as one would that has all bytes of the frame in its buffer
  and has taken none of them.
\<close>

definition tracks :: "simdutf8 \<Rightarrow> platform \<Rightarrow> websocket_protocol \<Rightarrow> bytes \<Rightarrow> websocket_protocol \<Rightarrow> bytes \<Rightarrow> bool" where
  "tracks U pf p b q src \<longleftrightarrow> codec_inv p b \<and> (\<forall>rest. result_sim (decode U pf p (b @ rest)) (decode U pf q (src @ rest)))"

context simdutf8_lib
begin

lemma tracks_refl: "codec_inv p b \<Longrightarrow> tracks U pf p b p b"
  using result_sim_refl [OF decode_total [OF codec_inv_append]] by (simp add: tracks_def)

lemma tracks_reads:
  assumes tr: "tracks U pf p b q src" and q: "codec_inv q src"
    and rd: "decode_reads U pf p b cs = Some (Inr fo, p1, b1)"
  shows "fo = None \<Longrightarrow> tracks U pf p1 b1 q (src @ concat cs)"
    and "fo = Some f \<Longrightarrow> \<exists>q'. decode U pf q (src @ concat cs) = Some (Inr (Some f), q', b1) \<and> proto_sim p1 q'"
proof -
  have p: "codec_inv p b" using tr by (simp add: tracks_def)
  have qa: "codec_inv q (src @ concat cs)" using q by (rule codec_inv_append)
  have "result_sim (Some (Inr fo, p1, b1)) (decode U pf p (b @ concat cs))"
    using decode_reads_sim [OF p, of pf cs] rd by simp
  moreover have "result_sim (decode U pf p (b @ concat cs)) (decode U pf q (src @ concat cs))"
    using tr by (simp add: tracks_def)
  ultimately have "result_sim (Some (Inr fo, p1, b1)) (decode U pf q (src @ concat cs))"
    by (rule result_sim_trans)
  then obtain q' where q': "decode U pf q (src @ concat cs) = Some (Inr fo, q', b1)" "proto_sim p1 q'"
    by (auto simp: result_sim.simps)
  then show "fo = Some f \<Longrightarrow> \<exists>q'. decode U pf q (src @ concat cs) = Some (Inr (Some f), q', b1) \<and> proto_sim p1 q'" by blast
  assume none: "fo = None"
  have p1: "codec_inv p1 b1" using decode_reads_post(3) [OF p rd] by simp
  have "result_sim (decode U pf p1 (b1 @ rest)) (decode U pf q ((src @ concat cs) @ rest))" for rest
  proof -
    have "result_sim (decode U pf p1 (b1 @ rest)) (decode U pf q' (b1 @ rest))"
      by (rule decode_proto_sim [OF q'(2) codec_inv_append [OF p1]])
    moreover have "result_sim (decode U pf q' (b1 @ rest)) (decode U pf q ((src @ concat cs) @ rest))"
      using decode_resume [OF qa, of pf rest] q'(1) none by (simp add: resumes_def)
    ultimately show ?thesis by (rule result_sim_trans)
  qed
  then show "tracks U pf p1 b1 q (src @ concat cs)" using p1 by (simp add: tracks_def)
qed

end

subsection \<open>The stream\<close>

definition utf8_inv :: "simdutf8 \<Rightarrow> platform \<Rightarrow> ('io, 'f) websocket_stream \<Rightarrow> bool" where
  "utf8_inv U pf s \<longleftrightarrow> reading_inv s \<and> (state s \<in> {Active, ClosedByUs} \<longrightarrow>
     (\<exists>q src. text_sound q (partial_payload s) \<and> \<not> is_control (fragmented_message_opcode q)
        \<and> tracks U pf (decoder (inner s)) (buffer (inner s)) q src))"

lemma utf8_inv_new:
  assumes "simdutf8_lib U" and "max_payload_len l \<le> usize_MAX"
  shows "utf8_inv U pf (from_raw_stream i f r c l)" and "utf8_inv U pf (from_framed fr r c l)"
proof -
  have new: "text_sound (protocol_new r l) []" "\<not> is_control (fragmented_message_opcode (protocol_new r l))"
    by (simp_all add: text_sound_def protocol_new_def)
  have ex: "\<exists>q src. text_sound q [] \<and> \<not> is_control (fragmented_message_opcode q) \<and> tracks U pf (protocol_new r l) b q src" for b
    using new simdutf8_lib.tracks_refl [OF assms(1) codec_inv_new] by blast
  show "utf8_inv U pf (from_raw_stream i f r c l)" "utf8_inv U pf (from_framed fr r c l)"
    using ex reading_inv_new [OF assms(2)] unfolding utf8_inv_def by (auto simp: from_raw_stream_def from_framed_def)
qed

context transport
begin

lemma round_text:
  assumes inv: "utf8_inv U (cpu E) s" and max: "max_len = max_payload_len (limits (decoder (inner s)))"
    and pf: "poll_next_frame E w s = Some (r, s1)"
  shows "(\<forall>f. r \<noteq> Ready (Some (Inr f))) \<Longrightarrow> (\<forall>e. r \<noteq> Ready (Some (Inl e))) \<Longrightarrow> utf8_inv U (cpu E) s1"
    and "r = Ready (Some (Inr f)) \<Longrightarrow> (case assemble max_len s1 f of
      Inl xs \<Rightarrow> text_result xs | Inr s' \<Rightarrow> text_sound (decoder (inner s')) (partial_payload s'))"
proof -
  have rinv: "reading_inv s" using inv by (simp add: utf8_inv_def)
  then have ws: "ws_inv s" by (simp add: reading_inv_def)
  note shape = round_shape [OF rinv max pf]
  from poll_next_frame_sends [OF ws, of w] pf have s1: "partial_payload s1 = partial_payload s" "state s \<le> state s1"
    by (auto simp: sends_def)
  have st: "state s \<in> {Active, ClosedByUs}" if "state s1 \<in> {Active, ClosedByUs}"
    using that s1(2) by (cases "state s"; cases "state s1") (simp_all add: less_eq_stream_state_def)
  show "utf8_inv U (cpu E) s1" if no: "\<forall>f. r \<noteq> Ready (Some (Inr f))" "\<forall>e. r \<noteq> Ready (Some (Inl e))"
    unfolding utf8_inv_def
  proof (intro conjI impI shape(3) [OF no])
    assume "state s1 \<in> {Active, ClosedByUs}"
    with inv st obtain q src where q: "text_sound q (partial_payload s)" "\<not> is_control (fragmented_message_opcode q)"
      "tracks U (cpu E) (decoder (inner s)) (buffer (inner s)) q src" unfolding utf8_inv_def by blast
    have cq: "codec_inv q src" using q(1) by (auto simp: text_sound_def intro: codec_inv_fresh)
    from poll_next_frame_read [OF ws pf] no show "\<exists>q src. text_sound q (partial_payload s1) \<and>
        \<not> is_control (fragmented_message_opcode q) \<and> tracks U (cpu E) (decoder (inner s1)) (buffer (inner s1)) q src"
      unfolding frame_read_def
    proof (elim disjE conjE exE)
      fix cs d
      assume d: "decode_reads U (cpu E) (decoder (inner s)) (buffer (inner s)) cs = Some (d, decoder (inner s1), buffer (inner s1))"
        and "case r of Ready (Some (Inr f)) \<Rightarrow> d = Inr (Some f) | Ready (Some (Inl e)) \<Rightarrow> True | _ \<Rightarrow> d = Inr None"
      then have "d = Inr None" using no by (auto split: poll.splits option.splits sum.splits)
      with d tracks_reads(1) [OF q(3) cq] q(1,2) s1(1) show ?thesis by metis
    qed (use q s1(1) in auto)
  qed
  show "case assemble max_len s1 f of Inl xs \<Rightarrow> text_result xs | Inr s' \<Rightarrow> text_sound (decoder (inner s')) (partial_payload s')"
    if r: "r = Ready (Some (Inr f))"
  proof -
    from pf r have "state s \<in> {Active, ClosedByUs}"
      by (cases "state s") (auto simp: poll_next_frame_def split: option.splits poll.splits sum.splits prod.splits)
    with inv obtain q src where q: "text_sound q (partial_payload s)" "\<not> is_control (fragmented_message_opcode q)"
      "tracks U (cpu E) (decoder (inner s)) (buffer (inner s)) q src" unfolding utf8_inv_def by blast
    have cq: "codec_inv q src" using q(1) by (auto simp: text_sound_def intro: codec_inv_fresh)
    from poll_next_frame_read [OF ws pf] r obtain cs where
      "decode_reads U (cpu E) (decoder (inner s)) (buffer (inner s)) cs = Some (Inr (Some f), decoder (inner s1), buffer (inner s1))"
      unfolding frame_read_def by auto
    from tracks_reads(2) [OF q(3) cq this refl] obtain q' where
      q': "decode U (cpu E) q (src @ concat cs) = Some (Inr (Some f), q', buffer (inner s1))" "proto_sim (decoder (inner s1)) q'"
      by blast
    have "payload_processed q = 0" using q(1) by (simp add: text_sound_def)
    from decode_wire_only [OF codec_inv_append [OF cq] this q'(1)] obtain key where
      "legal_head q (f_is_final f) (f_opcode f) (length (f_payload f))" "legal_payload q f" "took_frame q f q'" by blast
    from assemble_text [OF _ this q'(2) q(2)] q(1) s1(1) show ?thesis by simp
  qed
qed

end

lemma utf8_inv_between:
  assumes "simdutf8_lib U" and "reading_inv s" and "text_sound (decoder (inner s)) (partial_payload s)"
  shows "utf8_inv U pf s"
  using assms(2,3) simdutf8_lib.tracks_refl [OF assms(1)] unfolding utf8_inv_def reading_inv_def ws_inv_def by blast

context transport
begin

lemma round_text_inv:
  assumes inv: "utf8_inv U (cpu E) s" and max: "max_len = max_payload_len (limits (decoder (inner s)))"
    and pf: "poll_next_frame E w s = Some (Ready (Some (Inr f)), s1)"
  shows "assemble max_len s1 f = Inr s2 \<Longrightarrow> utf8_inv U (cpu E) s2 \<and> limits (decoder (inner s2)) = limits (decoder (inner s))"
    and "assemble max_len s1 f = Inl (Inr m, s2) \<Longrightarrow> text_result (Inr m, s2) \<and> reading_inv s2"
proof -
  have rinv: "reading_inv s" using inv by (simp add: utf8_inv_def)
  note shape = round_shape [OF rinv max pf] and result = round_text(2) [OF inv max pf refl]
  have p0: "payload_processed (decoder (inner s1)) = 0" using shape(4) [OF refl] by simp
  note sends = assemble_sends [OF shape(1) p0, of max_len f]
  show "assemble max_len s1 f = Inr s2 \<Longrightarrow> utf8_inv U (cpu E) s2 \<and> limits (decoder (inner s2)) = limits (decoder (inner s))"
    using sends shape(2) shape(4) [OF refl] result max
    by (auto simp: reading_inv_def intro!: utf8_inv_between [OF simdutf8_lib_axioms])
  show "assemble max_len s1 f = Inl (Inr m, s2) \<Longrightarrow> text_result (Inr m, s2) \<and> reading_inv s2"
    using sends shape(2) shape(4) [OF refl] result max by (auto simp: reading_inv_def)
qed

end

text \<open>
  One call of \<open>poll_next\<close>: only an error, or a text that stops inside a code point, ends the state in which the
  validator and the message being assembled agree.
\<close>

lemma poll_next_text:
  assumes "transport U E written" and "utf8_inv U (cpu E) s" and "poll_next E w s = Some (r, s')"
  shows "case r of
      Ready (Some (Inr m)) \<Rightarrow>
        if m_opcode m = Text
        then utf8_run Boundary (data (m_payload m)) \<noteq> None \<and> (valid_utf8 (data (m_payload m)) \<longrightarrow> utf8_inv U (cpu E) s')
        else utf8_inv U (cpu E) s'
    | Ready (Some (Inl e)) \<Rightarrow> True
    | _ \<Rightarrow> utf8_inv U (cpu E) s'" (is "?Q r s'")
proof -
  define L where "L = limits (decoder (inner s))"
  have U: "simdutf8_lib U" using assms(1) by (simp add: transport_def)
  have loop: "poll_next_loop E w (max_payload_len L) s = Some (r, s')" using assms(3) by (simp add: poll_next_def L_def)
  show ?thesis
  proof (rule poll_next_loop_rounds [where J = "\<lambda>s. utf8_inv U (cpu E) s \<and> limits (decoder (inner s)) = L" and Q = ?Q, OF loop])
    show "utf8_inv U (cpu E) s \<and> limits (decoder (inner s)) = L" using assms(2) by (simp add: L_def)
  next
    fix t q t1
    assume t: "utf8_inv U (cpu E) t \<and> limits (decoder (inner t)) = L" and q: "poll_next_frame E w t = Some (q, t1)"
      and nf: "\<forall>f. q \<noteq> Ready (Some (Inr f))"
    then show "?Q (case q of Pending \<Rightarrow> Pending | Ready None \<Rightarrow> Ready None | Ready (Some (Inl e)) \<Rightarrow> Ready (Some (Inl e))) t1"
      using transport.round_text(1) [OF assms(1) _ _ q, of "max_payload_len L"]
      by (auto split: poll.splits option.splits sum.splits)
  next
    fix t f t1 x t2
    assume t: "utf8_inv U (cpu E) t \<and> limits (decoder (inner t)) = L"
      and q: "poll_next_frame E w t = Some (Ready (Some (Inr f)), t1)" and a: "assemble (max_payload_len L) t1 f = Inl (x, t2)"
    show "?Q (Ready (Some x)) t2"
    proof (cases x)
      case (Inr m)
      from transport.round_text_inv(2) [OF assms(1) _ _ q, of "max_payload_len L" m t2] t a Inr
      have "text_result (Inr m, t2)" "reading_inv t2" by auto
      then show ?thesis using Inr utf8_inv_between [OF U] by (auto simp: text_result_def)
    qed simp
  next
    fix t f t1 t2
    assume t: "utf8_inv U (cpu E) t \<and> limits (decoder (inner t)) = L"
      and q: "poll_next_frame E w t = Some (Ready (Some (Inr f)), t1)" and a: "assemble (max_payload_len L) t1 f = Inr t2"
    then show "utf8_inv U (cpu E) t2 \<and> limits (decoder (inner t2)) = L"
      using transport.round_text_inv(1) [OF assms(1) _ _ q _, of "max_payload_len L" t2] by auto
  qed
qed

subsection \<open>The text of a connection\<close>

text \<open>Bytes that are well-formed UTF-8, or will be with at most three more.\<close>

definition utf8_or_cut :: "bytes \<Rightarrow> bool" where
  "utf8_or_cut bs \<longleftrightarrow> (\<exists>rest. length rest \<le> 3 \<and> valid_utf8 (bs @ rest))"

lemma utf8_state_completes:
  assumes "utf8_run Boundary bs = Some q"
  shows "\<exists>rest. length rest \<le> 3 \<and> utf8_run q rest = Some Boundary"
proof -
  have "case q of Boundary \<Rightarrow> True | More n lo hi \<Rightarrow> n \<in> {1, 2, 3} \<and> lo \<le> hi"
    if "utf8_run p bs = Some q" "case p of Boundary \<Rightarrow> True | More n lo hi \<Rightarrow> n \<in> {1, 2, 3} \<and> lo \<le> hi" for p
    using that
  proof (induction bs arbitrary: p)
    case (Cons b bs)
    from Cons.prems(1) obtain p' where p': "utf8_step p b = Some p'" "utf8_run p' bs = Some q" by (auto split: option.splits)
    have "case p' of Boundary \<Rightarrow> True | More n lo hi \<Rightarrow> n \<in> {1, 2, 3} \<and> lo \<le> hi"
      using p'(1) Cons.prems(2) by (cases p) (auto split: if_splits)
    from Cons.IH [OF p'(2) this] show ?case .
  qed auto
  from this [of Boundary] assms have q: "case q of Boundary \<Rightarrow> True | More n lo hi \<Rightarrow> n \<in> {1, 2, 3} \<and> lo \<le> hi" by simp
  show ?thesis
  proof (cases q)
    case (More n lo hi)
    then consider "q = More 1 lo hi" | "q = More 2 lo hi" | "q = More 3 lo hi" using q by auto
    then show ?thesis
    proof cases
      case 1
      then show ?thesis using q by (intro exI [of _ "[lo]"]) simp
    next
      case 2
      then show ?thesis using q by (intro exI [of _ "[lo, 0x80]"]) simp
    next
      case 3
      then show ?thesis using q by (intro exI [of _ "[lo, 0x80, 0x80]"]) simp
    qed
  qed (auto intro: exI [of _ "[]"])
qed

lemma utf8_or_cut_iff: "utf8_or_cut bs \<longleftrightarrow> utf8_run Boundary bs \<noteq> None"
  using utf8_state_completes [of bs] utf8_run_prefix [of Boundary bs]
  by (auto simp: utf8_or_cut_def valid_utf8_def utf8_run_append split: option.splits)

text \<open>Results of \<open>poll_next\<close> without an error and without a text that is cut off.\<close>

definition unbroken :: "(error + message) list \<Rightarrow> bool" where
  "unbroken log \<longleftrightarrow> (\<forall>x \<in> set log. case x of Inl e \<Rightarrow> False | Inr m \<Rightarrow> m_opcode m = Text \<longrightarrow> valid_utf8 (data (m_payload m)))"

definition text_log :: "(error + message) list \<Rightarrow> bool" where
  "text_log log \<longleftrightarrow> (\<forall>before m after. log = before @ Inr m # after \<longrightarrow> unbroken before \<longrightarrow> m_opcode m = Text
     \<longrightarrow> utf8_or_cut (data (m_payload m)))"

lemma unbroken_simps [simp]:
  "unbroken []" "unbroken (log @ [Inl e]) \<longleftrightarrow> False"
  "unbroken (log @ [Inr m]) \<longleftrightarrow> unbroken log \<and> (m_opcode m = Text \<longrightarrow> valid_utf8 (data (m_payload m)))"
  by (auto simp: unbroken_def)

lemma broken_log [simp]:
  "\<not> unbroken log \<Longrightarrow> \<not> unbroken (log @ [x])" "\<not> unbroken log \<Longrightarrow> text_log log \<Longrightarrow> text_log (log @ [x])"
  by (auto simp: unbroken_def text_log_def append_eq_append_conv2 append_eq_Cons_conv Cons_eq_append_conv)

lemma text_log_simps [simp]:
  "text_log []" "text_log log \<Longrightarrow> text_log (log @ [Inl e])"
  "text_log log \<Longrightarrow> (unbroken log \<Longrightarrow> m_opcode m = Text \<Longrightarrow> utf8_or_cut (data (m_payload m))) \<Longrightarrow> text_log (log @ [Inr m])"
  by (auto simp: text_log_def append_eq_append_conv2 append_eq_Cons_conv Cons_eq_append_conv)

lemma utf8_inv_kept:
  assumes "utf8_inv U pf s" and "ws_inv s'" and "decoder (inner s') = decoder (inner s)" and "buffer (inner s') = buffer (inner s)"
    and "partial_payload s' = partial_payload s" and "state s \<le> state s'"
  shows "utf8_inv U pf s'"
proof -
  have "state s \<in> {Active, ClosedByUs}" if "state s' \<in> {Active, ClosedByUs}"
    using that assms(6) by (cases "state s"; cases "state s'") (simp_all add: less_eq_stream_state_def)
  then show ?thesis using assms by (auto simp: utf8_inv_def reading_inv_def)
qed

context transport
begin

lemma utf8_inv_ws: "utf8_inv U pf s \<Longrightarrow> ws_inv s"
  by (simp add: utf8_inv_def reading_inv_def)

lemma flush_text:
  assumes "utf8_inv U (cpu E) s" and "poll_flush E w s = Some (r, s')"
  shows "utf8_inv U (cpu E) s' \<and> config s' = config s"
proof -
  note ws = utf8_inv_ws [OF assms(1)]
  have "fq_inv (frame_queue s)" using ws by (simp add: ws_inv_def)
  from poll_flush_total [OF this, of w] assms(2) have post: "flush_post written w s r s'" by auto
  from flush_step [OF assms(2) ws] post utf8_inv_kept [OF assms(1), of s'] show ?thesis
    by (simp add: sends_def flush_post_def same_besides_io_def)
qed

lemma send_text:
  assumes "utf8_inv U (cpu E) s" and "start_send E s m = Some (r, s')" and n: "frame_size (config s) \<noteq> 0"
  shows "utf8_inv U (cpu E) s' \<and> config s' = config s"
proof -
  from start_send_sends [OF utf8_inv_ws [OF assms(1)] n, of m] assms(2) have s': "ws_inv s'" "state s \<le> state s'" "config s' = config s"
    by (auto simp: sends_def)
  then show ?thesis using utf8_inv_kept [OF assms(1), of s'] start_send_inner [OF assms(2) n] by simp
qed

lemma reading_session_text:
  assumes "reading_session E t0 log t" and "utf8_inv U (cpu E) t0" and "frame_size (config t0) \<noteq> 0"
  shows "text_log log \<and> (unbroken log \<longrightarrow> utf8_inv U (cpu E) t \<and> frame_size (config t) \<noteq> 0)"
  using assms(1)
proof (induction rule: reading_session.induct)
  case (reading_next log t w r t')
  show ?case
  proof (cases "unbroken log")
    case True
    then have t: "utf8_inv U (cpu E) t" "frame_size (config t) \<noteq> 0" using reading_next.IH by simp_all
    from poll_next_text [OF transport_axioms t(1) reading_next.hyps(2)]
      poll_next_config [OF transport_axioms utf8_inv_ws [OF t(1)] reading_next.hyps(2)] t(2) reading_next.IH show ?thesis
      by (auto simp: utf8_or_cut_iff split: poll.splits option.splits sum.splits if_splits)
  next
    case False
    then show ?thesis using reading_next.IH by (auto split: poll.split option.split)
  qed
next
  case (reading_ready log t w r t')
  then show ?case using flush_text [of t w r t'] by (auto simp: poll_ready_def split: if_splits)
next
  case (reading_send log t m r t')
  then show ?case using send_text [of t m r t'] by auto
next
  case (reading_flush log t w r t')
  then show ?case using flush_text [of t w r t'] by auto
qed (use assms(2,3) in simp)

end

text \<open>
  C25: The text of a connection, from a new stream on, whatever the peer sends and however it arrives: the application
  calls \<open>poll_next\<close>, \<open>start_send\<close>, \<open>poll_ready\<close> and \<open>poll_flush\<close> in any order. As long as \<open>poll_next\<close> has returned no error, and no
  text that was cut off, the next text message that it returns is well-formed UTF-8, or cut off inside its last code
  point, at most three bytes short (as a message with an empty last frame can be). Nothing is said of the
  text after an error or after a text that was cut off, nor if messages were thrown away by \<open>poll_close\<close>.
\<close>

theorem delivered_text_is_utf8_or_cut:
  assumes "transport U E written" and "reading_session E (from_framed fr r c l) log t"
    and "frame_size c \<noteq> 0" and "max_payload_len l \<le> usize_MAX"
    and "log = before @ Inr m # after" and "m_opcode m = Text"
    and "\<forall>x \<in> set before. case x of Inl e \<Rightarrow> False | Inr d \<Rightarrow> m_opcode d = Text \<longrightarrow> valid_utf8 (data (m_payload d))"
  shows "\<exists>rest. length rest \<le> 3 \<and> valid_utf8 (data (m_payload m) @ rest)"
proof -
  have "simdutf8_lib U" using assms(1) by (simp add: transport_def)
  from transport.reading_session_text [OF assms(1,2) utf8_inv_new(2) [OF this assms(4)]] assms(3)
  have "text_log log" by simp
  moreover have "unbroken before" using assms(7) by (simp add: unbroken_def)
  ultimately show ?thesis using assms(5,6) by (auto simp: text_log_def utf8_or_cut_def)
qed

text \<open>A client that reads, byte by byte, a text message in frames of two bytes from a server.\<close>

definition sample_reader :: "bytes \<Rightarrow> (duplex, unit) websocket_stream" where
  "sample_reader bs = from_raw_stream
     \<lparr>incoming = map (\<lambda>b. [b]) (wire_frames (\<lambda>_. [0, 0, 0, 0]) Server 0 (frames_of 2 Text bs)), eof = False, room = [], sent = []\<rparr>
     () Client config_default limits_default"

lemma sample_reader_simps [simp]:
  "utf8_inv std_utf8 (cpu std_env) (sample_reader bs)" "reading_inv (sample_reader bs)"
  "limits (decoder (inner (sample_reader bs))) = limits_default"
  using utf8_inv_new(1) [OF std.simdutf8_lib_axioms, of limits_default] reading_inv_new(1) [of limits_default]
  by (simp_all add: sample_reader_def limits_default_def)
    (simp_all add: from_raw_stream_def protocol_new_def limits_default_def)

lemma sample_read:
  assumes "valid_utf8 bs" and "length bs < 1000"
  shows "\<exists>t'. poll_next std_env w (sample_reader bs) = Some (Ready (Some (Inr (message_new Text bs))), t')"
proof -
  have concat: "concat (map (\<lambda>b. [b]) xs) = xs" for xs :: bytes by (induction xs) simp_all
  have t: "listening (sample_reader bs) Continuation []" "Server \<noteq> role (decoder (inner (sample_reader bs)))"
    "unread (inner (sample_reader bs)) = wire_frames (\<lambda>_. [0, 0, 0, 0]) Server 0 (frames_of 2 Text bs) @ []"
    by (simp_all add: sample_reader_def listening_new) (simp_all add: from_raw_stream_def protocol_new_def unread_def concat)
  have lim: "max_payload_len (limits (decoder (inner (sample_reader bs)))) = 67108864"
    by (simp only: sample_reader_simps) (simp add: limits_default_def)
  show ?thesis
    using poll_next_loop_frames [where ks = "\<lambda>_. [0, 0, 0, 0]" and n = 2 and op = Text and op' = Continuation and acc = "[]"
        and t = "sample_reader bs" and bs = bs and r = Server and k = 0 and rest = "[]" and max_len = 67108864
        and pf = scalar_platform and keys = "\<lambda>_. [0x37, 0xFA, 0x21, 0x3D]" and w = w, OF std.simdutf8_lib_axioms] t assms
    unfolding poll_next_def lim by auto
qed

theorem delivered_text_is_utf8_or_cut_witness:
  "\<exists>m t'. poll_next std_env 0 (sample_reader [0x68, 0xC3, 0xA9]) = Some (Ready (Some (Inr m)), t') \<and>
     m_opcode m = Text \<and> (\<exists>rest. length rest \<le> 3 \<and> valid_utf8 (data (m_payload m) @ rest))"
proof -
  have valid: "valid_utf8 [0x68, 0xC3, 0xA9]" by code_simp
  then obtain t' where t': "poll_next std_env 0 (sample_reader [0x68, 0xC3, 0xA9]) =
      Some (Ready (Some (Inr (message_new Text [0x68, 0xC3, 0xA9]))), t')" using sample_read [OF valid] by auto
  from reading_next [OF reading_start t'] have run:
    "reading_session std_env (sample_reader [0x68, 0xC3, 0xA9]) [Inr (message_new Text [0x68, 0xC3, 0xA9])] t'" by simp
  from delivered_text_is_utf8_or_cut [OF std_duplex.transport_axioms run [unfolded sample_reader_def from_raw_stream_framed], of "[]"] t'
  show ?thesis by (auto simp: message_new_def config_default_def limits_default_def)
qed

theorem delivered_message_shape_witness:
  "\<exists>m t'. poll_next std_env 0 (sample_reader [0x68, 0x69, 0x21]) = Some (Ready (Some (Inr m)), t') \<and>
     message_shape 67108864 m \<and> reading_inv t'"
proof -
  have "valid_utf8 [0x68, 0x69, 0x21]" by code_simp
  then obtain m t' where t': "poll_next std_env 0 (sample_reader [0x68, 0x69, 0x21]) = Some (Ready (Some (Inr m)), t')"
    using sample_read by fastforce
  from delivered_message_shape [OF std_duplex.transport_axioms sample_reader_simps(2) t'] t'
  show ?thesis by (auto simp: limits_default_def)
qed

end
