(* ===== verification/Http_Interface.thy ===== *)
theory Http_Interface
  imports Upgrade
begin

text \<open>
  What the handshake relies on outside the repository, as two locales: \<open>crypto_lib\<close> for SHA-1 and
  base64, \<open>http_library\<close> for \<open>httparse\<close> and \<open>http\<close>. Both are stated for the plain heads that the
  two ends write: a start line, one line for each header, an empty line. The lemmas of the second
  show what the two codecs do with such heads.
\<close>

subsection \<open>Plain HTTP heads\<close>

definition is_alnum :: "byte \<Rightarrow> bool" where
  "is_alnum b = ((0x30 \<le> b \<and> b \<le> 0x39) \<or> (0x41 \<le> b \<and> b \<le> 0x5A) \<or> (0x61 \<le> b \<and> b \<le> 0x7A))"

definition legal_name :: "bytes \<Rightarrow> bool" where
  "legal_name n = (n \<noteq> [] \<and> length n < 2 ^ 15 \<and> list_all (\<lambda>b. is_alnum b \<or> b \<in> set (ascii ''-_'')) n)"

text \<open>Printable ASCII that neither begins nor ends with a space.\<close>

definition legal_value :: "bytes \<Rightarrow> bool" where
  "legal_value v = (list_all (\<lambda>b. 0x20 \<le> b \<and> b \<le> 0x7E) v \<and> (v \<noteq> [] \<longrightarrow> v ! 0 \<noteq> 0x20 \<and> v ! (length v - 1) \<noteq> 0x20))"

definition legal_header :: "bytes \<times> bytes \<Rightarrow> bool" where
  "legal_header h = (legal_name (fst h) \<and> legal_value (snd h))"

definition legal_target :: "bytes \<Rightarrow> bool" where
  "legal_target p = (p \<noteq> [] \<and> p ! 0 = 0x2F \<and> length p < 2 ^ 15 \<and>
     list_all (\<lambda>b. is_alnum b \<or> b \<in> set (ascii ''/-._~!$&()*+,;=:@?'')) p)"

definition header_line :: "bytes \<times> bytes \<Rightarrow> bytes" where
  "header_line h = fst h @ ascii '': '' @ snd h @ crlf"

definition header_lines :: "(bytes \<times> bytes) list \<Rightarrow> bytes" where
  "header_lines hs = concat (map header_line hs)"

definition request_text :: "bytes \<Rightarrow> (bytes \<times> bytes) list \<Rightarrow> bytes" where
  "request_text p hs = ascii ''GET '' @ p @ ascii '' HTTP/1.1'' @ crlf @ header_lines hs @ crlf"

definition decimal3 :: "nat \<Rightarrow> bytes" where
  "decimal3 c = [of_nat (48 + c div 100), of_nat (48 + c div 10 mod 10), of_nat (48 + c mod 10)]"

definition response_text :: "nat \<Rightarrow> bytes \<Rightarrow> (bytes \<times> bytes) list \<Rightarrow> bytes" where
  "response_text c reason hs =
     ascii ''HTTP/1.1 '' @ decimal3 c @ ascii '' '' @ reason @ crlf @ header_lines hs @ crlf"

abbreviation lower :: "bytes \<Rightarrow> bytes" where
  "lower \<equiv> map to_ascii_lowercase"

definition lower_headers :: "(bytes \<times> bytes) list \<Rightarrow> (bytes \<times> bytes) list" where
  "lower_headers = map (\<lambda>(n, v). (lower n, v))"

lemma header_lines_simps [simp]:
  "header_lines [] = []" "header_lines (h # hs) = header_line h @ header_lines hs"
  "header_lines (hs @ hs') = header_lines hs @ header_lines hs'"
  by (simp_all add: header_lines_def)

lemma lower_headers_simps [simp]:
  "lower_headers [] = []" "lower_headers ((n, v) # hs) = (lower n, v) # lower_headers hs"
  "lower_headers (hs @ hs') = lower_headers hs @ lower_headers hs'"
  by (simp_all add: lower_headers_def)

lemma eq_ignore_ascii_case_iff: "eq_ignore_ascii_case a b \<longleftrightarrow> lower a = lower b"
  by (metis eq_ignore_ascii_case_def length_map)

lemma eq_ignore_ascii_case_refl [simp]: "eq_ignore_ascii_case a a"
  by (simp add: eq_ignore_ascii_case_iff)

lemma to_ascii_lowercase_idem [simp]: "to_ascii_lowercase (to_ascii_lowercase b) = to_ascii_lowercase b"
proof -
  have "\<not> (0x41 \<le> b + 32 \<and> b + 32 \<le> 0x5A)" if "0x41 \<le> b" "b \<le> 0x5A"
    using that by (simp add: word_le_nat_alt unat_word_ariths)
  then show ?thesis by (auto simp: to_ascii_lowercase_def)
qed

lemma lower_idem [simp]: "lower (lower n) = lower n"
  by simp

subsection \<open>SHA-1 and base64\<close>

locale crypto_lib =
  fixes K :: crypto
  assumes sha1_length: "length (sha1 K m) = 20"
    and base64_length: "length (base64_encode K d) = (length d + 2) div 3 * 4"
    and base64_alphabet: "list_all (\<lambda>b. is_alnum b \<or> b \<in> set (ascii ''+/='')) (base64_encode K d)"
    and base64_decode_encode:
      "base64_decode_slice K (base64_encode K d) n = (if length d \<le> n then Some (Inr d) else None)"
begin

lemma digest_length: "length (digest K key) = 20"
  by (simp add: digest_def sha1_length)

lemma base64_legal_value: "legal_value (base64_encode K d)"
proof -
  have ok: "0x21 \<le> b \<and> b \<le> 0x7E" if "b \<in> set (base64_encode K d)" for b
  proof -
    have "is_alnum b \<or> b \<in> {0x2B, 0x2F, 0x3D}"
      using that base64_alphabet [of d] by (auto simp: list_all_iff ascii_def)
    then show ?thesis by (auto simp: is_alnum_def word_le_nat_alt)
  qed
  have "b \<noteq> 0x20 \<and> 0x20 \<le> b" if "b \<in> set (base64_encode K d)" for b
    using ok [OF that] by (auto simp: word_le_nat_alt)
  then show ?thesis using ok by (auto simp: legal_value_def list_all_iff)
qed

text \<open>The value the server sends is the one that the client asked for.\<close>

lemma check_accept_ws_accept: "check_accept K (digest K key) (ws_accept K (digest K key)) = Some (Inr ())"
  by (simp add: check_accept_ok ws_accept_def base64_decode_encode digest_length splice_def)

lemma check_accept_long:
  assumes "20 < length d"
  shows "check_accept K expected (base64_encode K d) = None"
  using assms by (simp add: check_accept_def base64_decode_encode)

lemma check_accept_wrong:
  assumes "length d = 20" and "d \<noteq> expected"
  shows "check_accept K expected (base64_encode K d) = Some (Inl WrongWebSocketAccept)"
  using assms by (auto simp: check_accept_def base64_decode_encode splice_def)

end

subsection \<open>HTTP\<close>

lemma client_request_parse_cong:
  assumes "\<And>k. k \<in> {''Upgrade'', ''Connection'', ''Sec-WebSocket-Version'', ''Sec-WebSocket-Key''} \<Longrightarrow> f k = g k"
  shows "client_request_parse K f = client_request_parse K g"
  using assms by (simp add: client_request_parse_def check_header_def check_header_contains_def find_header_def)

locale http_library =
  fixes H :: "'h http_lib"
  assumes request_complete:
    "\<lbrakk>legal_target p; list_all legal_header hs; length hs \<le> n\<rbrakk> \<Longrightarrow>
     request_parse H n (request_text p hs @ rest) = Inr (Some \<lparr>pq_method = Some (ascii ''GET''), pq_path = Some p,
       pq_version = Some 1, pq_headers = hs, pq_len = length (request_text p hs)\<rparr>)"
    and request_partial:
    "\<lbrakk>legal_target p; list_all legal_header hs; length hs \<le> n; strict_prefix s (request_text p hs)\<rbrakk> \<Longrightarrow>
     request_parse H n s = Inr None"
    and response_complete:
    "\<lbrakk>100 \<le> c; c < 1000; legal_value reason; list_all legal_header hs; length hs \<le> n\<rbrakk> \<Longrightarrow>
     response_parse H n (response_text c reason hs @ rest) = Inr (Some \<lparr>pr_version = Some 1,
       pr_code = Some (of_nat c), pr_headers = hs, pr_len = length (response_text c reason hs)\<rparr>)"
    and response_partial:
    "\<lbrakk>100 \<le> c; c < 1000; legal_value reason; list_all legal_header hs; length hs \<le> n;
      strict_prefix s (response_text c reason hs)\<rbrakk> \<Longrightarrow> response_parse H n s = Inr None"
    and method_get: "method_from_bytes H (ascii ''GET'') = Some (ascii ''GET'')"
    and uri_target: "legal_target p \<Longrightarrow> uri_from_str H p = Some p"
    and status_ok: "100 \<le> c \<Longrightarrow> c < 1000 \<Longrightarrow> status_from_u16 H (of_nat c) = Some (of_nat c)"
    and header_name_ok: "legal_name m \<Longrightarrow> header_name H m = Some (lower m)"
    and header_value_ok: "legal_value v \<Longrightarrow> header_value H v = Some v"
    and to_str_ok: "legal_value v \<Longrightarrow> to_str H v = Some v"
    and get_new: "hm_get H (hm_new H) m = None"
    and get_insert:
    "legal_name m \<Longrightarrow> legal_name k \<Longrightarrow> hm_get H (hm_insert H h (lower m) v) k =
       (if lower k = lower m then Some v else hm_get H h k)"
    and keys_new: "hm_keys H (hm_new H) = []"
    and keys_insert: "set (hm_keys H (hm_insert H h m v)) = insert m (set (hm_keys H h))"
    and keys_distinct: "distinct (hm_keys H h)"
    and get_all_insert: "hm_get_all H (hm_insert H h m v) k = (if k = m then [v] else hm_get_all H h k)"
    and iter_new: "hm_iter H (hm_new H) = []"
    and iter_set: "set (hm_iter H h) = {(k, v). k \<in> set (hm_keys H h) \<and> v \<in> set (hm_get_all H h k)}"
    and iter_length: "length (hm_iter H h) = (\<Sum>k\<leftarrow>hm_keys H h. length (hm_get_all H h k))"
begin

text \<open>The header map of a head: the last value of each name, whatever its case.\<close>

lemma collect_legal:
  assumes "list_all legal_header hs"
  shows "\<exists>hm. collect_headers H h hs = Inr hm \<and>
    (\<forall>k. legal_name k \<longrightarrow> hm_get H hm k =
       (case map_of (rev (lower_headers hs)) (lower k) of Some v \<Rightarrow> Some v | None \<Rightarrow> hm_get H h k))"
  using assms
proof (induction hs arbitrary: h)
  case Nil
  then show ?case by simp
next
  case (Cons x hs)
  obtain n v where x: "x = (n, v)" by (cases x)
  with Cons.prems have l: "legal_name n" "legal_value v" "list_all legal_header hs"
    by (simp_all add: legal_header_def [of "(n, v)"])
  from Cons.IH [OF l(3), of "hm_insert H h (lower n) v"] obtain hm where
    hm: "collect_headers H (hm_insert H h (lower n) v) hs = Inr hm" and
    get: "\<And>k. legal_name k \<Longrightarrow> hm_get H hm k = (case map_of (rev (lower_headers hs)) (lower k) of Some v \<Rightarrow> Some v
       | None \<Rightarrow> hm_get H (hm_insert H h (lower n) v) k)" by blast
  have "collect_headers H h (x # hs) = Inr hm" using hm l by (simp add: x header_name_ok header_value_ok)
  moreover have "hm_get H hm k = (case map_of (rev (lower_headers (x # hs))) (lower k) of Some v \<Rightarrow> Some v
     | None \<Rightarrow> hm_get H h k)" if "legal_name k" for k
    using get [OF that] get_insert [OF l(1) that, of h v] by (auto simp: x map_add_def split: option.splits)
  ultimately show ?case by blast
qed

lemma request_decode_plain:
  assumes "legal_target p" and "list_all legal_header hs" and "length hs \<le> 64"
  shows "\<exists>hm. \<forall>rest. request_decode H K rhs (request_text p hs @ rest) =
    Some (case client_request_parse K (\<lambda>k. map_of (rev (lower_headers hs)) (lower (ascii k))) of
        Inl e \<Rightarrow> (Inl (Upgrade e), request_text p hs @ rest)
      | Inr d \<Rightarrow> (Inr (Some (\<lparr>rq_method = ascii ''GET'', rq_uri = p, rq_version = HTTP_11, rq_headers = hm\<rparr>,
          switching_protocols_response H rhs (ws_accept K d))), rest))"
proof -
  from collect_legal [OF assms(2), of "hm_new H"] obtain hm where hm: "collect_headers H (hm_new H) hs = Inr hm"
    and get0: "\<forall>k. legal_name k \<longrightarrow> hm_get H hm k =
      (case map_of (rev (lower_headers hs)) (lower k) of Some v \<Rightarrow> Some v | None \<Rightarrow> hm_get H (hm_new H) k)"
    by blast
  have get: "Option.bind (hm_get H hm k) (to_str H) = map_of (rev (lower_headers hs)) (lower k)" if "legal_name k" for k
  proof (cases "map_of (rev (lower_headers hs)) (lower k)")
    case None
    then show ?thesis using get0 that by (simp add: get_new)
  next
    case (Some v)
    then have "(lower k, v) \<in> set (lower_headers hs)" by (auto dest: map_of_SomeD)
    then have "legal_value v" using assms(2) by (auto simp: lower_headers_def list_all_iff legal_header_def)
    then show ?thesis using get0 that Some by (simp add: to_str_ok)
  qed
  have "client_request_parse K (\<lambda>k. Option.bind (hm_get H hm (ascii k)) (to_str H)) =
      client_request_parse K (\<lambda>k. map_of (rev (lower_headers hs)) (lower (ascii k)))"
    by (rule client_request_parse_cong, rule get) (auto simp: legal_name_def ascii_def is_alnum_def)
  then show ?thesis
    using hm by (intro exI [of _ hm]) (simp add: request_decode_def request_complete [OF assms] request_head_def method_get
        http_version_of_def uri_target [OF assms(1)] split: sum.split)
qed

end

end
