(* ===== verification/Http_Endpoints.thy ===== *)
theory Http_Endpoints
  imports Http_Interface Tls
begin

text \<open>
  The two ends of a connection before it is a WebSocket: \<open>src/client.rs\<close> and
  \<open>src/server.rs\<close>. An asynchronous function is a function to its final result; \<open>None\<close> as the
  whole result is a panic or a future that is never ready. What it awaits outside the repository
  is an argument: \<open>write_all\<close>, \<open>flush\<close> and the first item of a \<open>FramedRead\<close> in the record
  \<open>net\<close>, name resolution, TCP in \<open>dialer\<close>. A handshake that fails returns
  the transport beside its error, to say what was written before it is dropped.
\<close>

subsection \<open>Libraries\<close>

text \<open>The decoder of a codec: the result and the rest of the read buffer, \<open>None\<close> if it panics.\<close>

type_synonym 'i decoder = "bytes \<Rightarrow> ((error + 'i option) \<times> bytes) option"

record ('io, 'f, 'h) net =
  write_all :: "'io \<Rightarrow> bytes \<Rightarrow> (io_error + unit) \<times> 'io"
  io_flush :: "'io \<Rightarrow> (io_error + unit) \<times> 'io"
  next_request ::
    "('h http_request \<times> bytes) decoder \<Rightarrow> 'io
       \<Rightarrow> ((error + 'h http_request \<times> bytes) option \<times> 'io \<times> 'f \<times> bytes) option"
  next_response ::
    "'h http_response decoder \<Rightarrow> 'io \<Rightarrow> ((error + 'h http_response) option \<times> 'io \<times> 'f \<times> bytes) option"

text \<open>A parsed URI, as the accessors of \<open>http::Uri\<close> show it.\<close>

record uri =
  uri_scheme_str :: "bytes option"
  uri_host :: "bytes option"
  uri_port_u16 :: "u16 option"
  uri_path :: bytes
  uri_query :: "bytes option"

subsection \<open>The server\<close>

definition BAD_REQUEST :: bytes where
  "BAD_REQUEST = ascii ''HTTP/1.1 400 Bad Request'' @ crlf @ crlf"

definition SERVER_DISALLOWED_HEADERS :: "bytes list" where
  "SERVER_DISALLOWED_HEADERS = [ascii ''upgrade'', ascii ''connection'', ascii ''sec-websocket-accept'']"

record 'h server_builder =
  sb_config :: config
  sb_limits :: limits
  sb_headers :: 'h

definition server_new :: "'h http_lib \<Rightarrow> 'h server_builder" where
  "server_new H = \<lparr>sb_config = config_default, sb_limits = limits_default, sb_headers = hm_new H\<rparr>"

definition server_config :: "'h server_builder \<Rightarrow> config \<Rightarrow> 'h server_builder" where
  "server_config b c = b\<lparr>sb_config := c\<rparr>"

definition server_limits :: "'h server_builder \<Rightarrow> limits \<Rightarrow> 'h server_builder" where
  "server_limits b l = b\<lparr>sb_limits := l\<rparr>"

definition server_add_header ::
  "'h http_lib \<Rightarrow> 'h server_builder \<Rightarrow> bytes \<Rightarrow> bytes \<Rightarrow> error + 'h server_builder" where
  "server_add_header H b name value =
     (if name \<in> set SERVER_DISALLOWED_HEADERS then Inl DisallowedHeader
      else Inr (b\<lparr>sb_headers := hm_insert H (sb_headers b) name value\<rparr>))"

text \<open>A stream over a transport that a handshake has read from.\<close>

definition after_handshake ::
  "'io \<Rightarrow> 'f \<Rightarrow> bytes \<Rightarrow> role \<Rightarrow> config \<Rightarrow> limits \<Rightarrow> ('io, 'f) websocket_stream" where
  "after_handshake i f rb r c l =
     from_framed \<lparr>io = i, reader_state = f, decoder = protocol_new r l, buffer = rb\<rparr> r c l"

definition accept ::
  "'h http_lib \<Rightarrow> crypto \<Rightarrow> ('io, 'f, 'h) net \<Rightarrow> 'h server_builder \<Rightarrow> 'io
     \<Rightarrow> (error \<times> 'io + 'h http_request \<times> ('io, 'f) websocket_stream) option" where
  "accept H K N b stream =
     (case next_request N (request_decode H K (sb_headers b)) stream of
        None \<Rightarrow> None
      | Some (reply, framed, f, rb) \<Rightarrow>
          (case reply of
             Some (Inr (request, response)) \<Rightarrow>
               (case write_all N framed response of
                  (Inl e, i) \<Rightarrow> Some (Inl (Io e, i))
                | (Inr _, i) \<Rightarrow> Some (Inr (request, after_handshake i f rb Server (sb_config b) (sb_limits b))))
           | Some (Inl e) \<Rightarrow>
               (case write_all N framed BAD_REQUEST of
                  (Inl e', i) \<Rightarrow> Some (Inl (Io e', i))
                | (Inr _, i) \<Rightarrow> Some (Inl (e, i)))
           | None \<Rightarrow> Some (Inl (Io UnexpectedEof, framed))))"

definition serve :: "'h server_builder \<Rightarrow> 'io \<Rightarrow> 'f \<Rightarrow> ('io, 'f) websocket_stream" where
  "serve b stream f = from_raw_stream stream f Server (sb_config b) (sb_limits b)"

subsection \<open>Reaching a server\<close>

text \<open>Name resolution and TCP.\<close>

record ('addr, 's) dialer =
  resolve :: "bytes \<Rightarrow> u16 \<Rightarrow> error + 'addr"
  tcp_connect :: "'addr \<Rightarrow> io_error + 's"

text \<open>The resolver \<open>Gai\<close>, over \<open>lookup_host\<close> of tokio.\<close>

definition gai_resolve :: "(bytes \<Rightarrow> u16 \<Rightarrow> unit + 'addr list) \<Rightarrow> bytes \<Rightarrow> u16 \<Rightarrow> error + 'addr" where
  "gai_resolve lookup_host host port =
     (case lookup_host host port of
        Inl _ \<Rightarrow> Inl CannotResolveHost
      | Inr [] \<Rightarrow> Inl CannotResolveHost
      | Inr (a # _) \<Rightarrow> Inr a)"

subsection \<open>The client\<close>

definition CLIENT_DISALLOWED_HEADERS :: "bytes list" where
  "CLIENT_DISALLOWED_HEADERS = [ascii ''host'', ascii ''upgrade'', ascii ''connection'',
     ascii ''sec-websocket-key'', ascii ''sec-websocket-version'']"

record ('c, 'h) client_builder =
  cb_uri :: "uri option"
  cb_connector :: "'c connector option"
  cb_config :: config
  cb_limits :: limits
  cb_headers :: 'h

definition client_new :: "'h http_lib \<Rightarrow> ('c, 'h) client_builder" where
  "client_new H = \<lparr>cb_uri = None, cb_connector = None, cb_config = config_default, cb_limits = limits_default,
     cb_headers = hm_new H\<rparr>"

definition client_from_uri :: "'h http_lib \<Rightarrow> uri \<Rightarrow> ('c, 'h) client_builder" where
  "client_from_uri H u = \<lparr>cb_uri = Some u, cb_connector = None, cb_config = config_default,
     cb_limits = limits_default, cb_headers = hm_new H\<rparr>"

text \<open>\<open>Uri::from_str\<close> is an argument of \<open>client_uri\<close>.\<close>

definition client_uri :: "(bytes \<Rightarrow> 'e + uri) \<Rightarrow> ('c, 'h) client_builder \<Rightarrow> bytes \<Rightarrow> 'e + ('c, 'h) client_builder" where
  "client_uri from_str b u = and_then (from_str u) (\<lambda>u. Inr (b\<lparr>cb_uri := Some u\<rparr>))"

definition client_connector :: "('c, 'h) client_builder \<Rightarrow> 'c connector \<Rightarrow> ('c, 'h) client_builder" where
  "client_connector b c = b\<lparr>cb_connector := Some c\<rparr>"

definition client_config :: "('c, 'h) client_builder \<Rightarrow> config \<Rightarrow> ('c, 'h) client_builder" where
  "client_config b c = b\<lparr>cb_config := c\<rparr>"

definition client_limits :: "('c, 'h) client_builder \<Rightarrow> limits \<Rightarrow> ('c, 'h) client_builder" where
  "client_limits b l = b\<lparr>cb_limits := l\<rparr>"

definition client_add_header ::
  "'h http_lib \<Rightarrow> ('c, 'h) client_builder \<Rightarrow> bytes \<Rightarrow> bytes \<Rightarrow> error + ('c, 'h) client_builder" where
  "client_add_header H b name value =
     (if name \<in> set CLIENT_DISALLOWED_HEADERS then Inl DisallowedHeader
      else Inr (b\<lparr>cb_headers := hm_insert H (cb_headers b) name value\<rparr>))"

text \<open>\<open>encode_slice\<close> into 24 bytes, where a failure would be undefined behaviour.\<close>

definition make_key :: "crypto \<Rightarrow> bytes \<Rightarrow> bytes option" where
  "make_key K key_bytes =
     (let e = base64_encode K key_bytes in if length e \<le> 24 then Some (splice (replicate 24 0) 0 e) else None)"

definition default_port :: "uri \<Rightarrow> u16 option" where
  "default_port u =
     (case uri_port_u16 u of
        Some p \<Rightarrow> Some p
      | None \<Rightarrow>
          (case uri_scheme_str u of
             Some s \<Rightarrow> if s = ascii ''https'' \<or> s = ascii ''wss'' then Some 443
                       else if s = ascii ''http'' \<or> s = ascii ''ws'' then Some 80 else None
           | None \<Rightarrow> None))"

definition build_request :: "'h http_lib \<Rightarrow> uri \<Rightarrow> bytes \<Rightarrow> 'h \<Rightarrow> bytes" where
  "build_request H u key headers =
     ascii ''GET '' @ uri_path u @ (case uri_query u of Some q \<Rightarrow> ascii ''?'' @ q | None \<Rightarrow> [])
     @ ascii '' HTTP/1.1'' @ crlf
     @ (case uri_host u of
          Some h \<Rightarrow> ascii ''Host: '' @ h
            @ (case uri_port_u16 u of Some p \<Rightarrow> ascii '':'' @ ascii (show_nat (unat p)) | None \<Rightarrow> []) @ crlf
        | None \<Rightarrow> [])
     @ ascii ''Upgrade: websocket'' @ crlf @ ascii ''Connection: Upgrade'' @ crlf @ ascii ''Sec-WebSocket-Key: ''
     @ key @ crlf @ ascii ''Sec-WebSocket-Version: 13'' @ crlf
     @ concat (map (\<lambda>(name, value). name @ ascii '': '' @ value @ crlf) (hm_iter H headers)) @ crlf"

text \<open>The 16 random bytes of the key are an argument.\<close>

definition connect_on ::
  "'h http_lib \<Rightarrow> crypto \<Rightarrow> ('io, 'f, 'h) net \<Rightarrow> bytes \<Rightarrow> ('c, 'h) client_builder \<Rightarrow> 'io
     \<Rightarrow> (error \<times> 'io + ('io, 'f) websocket_stream \<times> 'h http_response) option" where
  "connect_on H K N key_bytes b stream =
     (case cb_uri b of
        None \<Rightarrow> Some (Inl (NoUriConfigured, stream))
      | Some u \<Rightarrow>
          (case make_key K key_bytes of
             None \<Rightarrow> None
           | Some key \<Rightarrow>
               (case write_all N stream (build_request H u key (cb_headers b)) of
                  (Inl e, i) \<Rightarrow> Some (Inl (Io e, i))
                | (Inr _, i) \<Rightarrow>
                    (case io_flush N i of
                       (Inl e, i') \<Rightarrow> Some (Inl (Io e, i'))
                     | (Inr _, i') \<Rightarrow>
                         (case next_response N (response_decode H K (digest K key)) i' of
                            None \<Rightarrow> None
                          | Some (res, framed, f, rb) \<Rightarrow>
                              (case res of
                                 None \<Rightarrow> Some (Inl (Io UnexpectedEof, framed))
                               | Some (Inl e) \<Rightarrow> Some (Inl (e, framed))
                               | Some (Inr r) \<Rightarrow>
                                   Some (Inr (after_handshake framed f rb Client (cb_config b) (cb_limits b), r))))))))"

definition take_over :: "('c, 'h) client_builder \<Rightarrow> 'io \<Rightarrow> 'f \<Rightarrow> ('io, 'f) websocket_stream" where
  "take_over b stream f = from_raw_stream stream f Client (cb_config b) (cb_limits b)"

definition trim_brackets :: "bytes \<Rightarrow> bytes" where
  "trim_brackets h = rev (dropWhile (\<lambda>b. b = 0x5D) (rev (dropWhile (\<lambda>b. b = 0x5B) h)))"

text \<open>\<open>connect\<close> up to the call of \<open>connect_on\<close>: the stream it makes.\<close>

definition connect_stream ::
  "tls_feature set \<Rightarrow> ('c, 's, 'n, 'r, 'roots, 'cert) tls_lib \<Rightarrow> ('addr, 's) dialer \<Rightarrow> ('c, 'h) client_builder
     \<Rightarrow> error + ('s, 'n, 'r) maybe_tls_stream" where
  "connect_stream features T D b =
     and_then (ok_or (cb_uri b) NoUriConfigured) (\<lambda>u.
     and_then (ok_or (uri_host u) CannotResolveHost) (\<lambda>h.
     let host = trim_brackets h;
         port = (case default_port u of Some p \<Rightarrow> p | None \<Rightarrow> 80)
     in and_then (resolve D host port) (\<lambda>addr.
        case tcp_connect D addr of
          Inl e \<Rightarrow> Inl (Io e)
        | Inr stream \<Rightarrow>
            if uri_scheme_str u = Some (ascii ''wss'')
            then (case cb_connector b of
                    Some c \<Rightarrow> wrap T c host stream
                  | None \<Rightarrow> and_then (connector_new features T) (\<lambda>c. wrap T c host stream))
            else if uri_scheme_str u = Some (ascii ''ws'') then wrap T Plain_Connector host stream
            else Inl UnsupportedScheme)))"

definition connect ::
  "tls_feature set \<Rightarrow> ('c, 's, 'n, 'r, 'roots, 'cert) tls_lib \<Rightarrow> ('addr, 's) dialer \<Rightarrow> 'h http_lib \<Rightarrow> crypto
     \<Rightarrow> (('s, 'n, 'r) maybe_tls_stream, 'f, 'h) net \<Rightarrow> bytes \<Rightarrow> ('c, 'h) client_builder
     \<Rightarrow> (error + (('s, 'n, 'r) maybe_tls_stream, 'f) websocket_stream \<times> 'h http_response) option" where
  "connect features T D H K N key_bytes b =
     (case connect_stream features T D b of
        Inl e \<Rightarrow> Some (Inl e)
      | Inr stream \<Rightarrow>
          (case connect_on H K N key_bytes b stream of
             None \<Rightarrow> None
           | Some (Inl (e, _)) \<Rightarrow> Some (Inl e)
           | Some (Inr x) \<Rightarrow> Some (Inr x)))"

end
