(* ===== verification/Handshake.thy ===== *)
theory Handshake
  imports Http_Endpoints
begin

text \<open>
  The handshake as a whole: how a \<open>FramedRead\<close> runs a codec over the reads of a transport, the
  locale \<open>handshake_io\<close> that says so of the argument \<open>net\<close>, what each end writes, and the
  handshake of one end with the other.
\<close>

subsection \<open>Reading with a codec\<close>

text \<open>What a read of the transport can give.\<close>

datatype read_event = Chunk bytes | End_Of_Stream | Read_Error io_error

text \<open>
  The first item of a \<open>FramedRead\<close> and the read buffer and reads that are left, \<open>None\<close> if the codec
  panics or the reads end without an answer. An end of stream amid a head is an error of the reader.
\<close>

fun framed_run ::
  "'i decoder \<Rightarrow> bytes \<Rightarrow> read_event list \<Rightarrow> ((error + 'i) option \<times> bytes \<times> read_event list) option" where
  "framed_run dec b [] =
     (case dec b of
        Some (Inr (Some i), b') \<Rightarrow> Some (Some (Inr i), b', [])
      | Some (Inl e, b') \<Rightarrow> Some (Some (Inl e), b', [])
      | _ \<Rightarrow> None)"
| "framed_run dec b (ev # evs) =
     (case dec b of
        Some (Inr (Some i), b') \<Rightarrow> Some (Some (Inr i), b', ev # evs)
      | Some (Inl e, b') \<Rightarrow> Some (Some (Inl e), b', ev # evs)
      | None \<Rightarrow> None
      | Some (Inr None, b') \<Rightarrow>
          (case ev of
             Chunk c \<Rightarrow> framed_run dec (b' @ c) evs
           | End_Of_Stream \<Rightarrow> Some (if b' = [] then None else Some (Inl (Io (TransportError 0))), b', evs)
           | Read_Error e \<Rightarrow> Some (Some (Inl (Io e)), b', evs)))"

text \<open>
  A codec for the text \<open>t\<close>: it waits for all of it and then takes it, whatever follows. Any cutting
  of the text into reads gives the same item, and what follows stays in the buffer.
\<close>

lemma framed_run_chunks:
  assumes wait: "\<And>p. strict_prefix p t \<Longrightarrow> dec p = Some (Inr None, p)"
    and take: "\<And>rest. dec (t @ rest) = Some (r, after rest)" and r: "r \<noteq> Inr None"
    and all: "b @ concat cs = t @ extra" and b: "prefix b t"
  shows "\<exists>k rest. framed_run dec b (map Chunk cs @ evs) = Some (Some (case r of Inl e \<Rightarrow> Inl e | Inr i \<Rightarrow> Inr (the i)),
      after rest, map Chunk (drop k cs) @ evs) \<and> rest @ concat (drop k cs) = extra"
  using all b
proof (induction cs arbitrary: b)
  case Nil
  then have "b = t" "extra = []" by (auto simp: prefix_def)
  then show ?case using take [of "[]"] r
    by (cases evs; cases r) (auto split: sum.splits option.splits)
next
  case (Cons c cs)
  show ?case
  proof (cases "b = t")
    case True
    then have "concat (c # cs) = extra" using Cons.prems(1) by simp
    moreover have "framed_run dec b (map Chunk (c # cs) @ evs) = Some (Some (case r of Inl e \<Rightarrow> Inl e | Inr i \<Rightarrow> Inr (the i)),
      after [], map Chunk (drop 0 (c # cs)) @ evs)"
      using take [of "[]"] r True by (cases r) (auto split: sum.splits option.splits)
    ultimately show ?thesis by (intro exI [of _ 0] exI [of _ "[]"]) simp
  next
    case False
    then have d: "dec b = Some (Inr None, b)" using Cons.prems(2) by (intro wait) (simp add: strict_prefix_def)
    show ?thesis
    proof (cases "prefix (b @ c) t")
      case True
      with Cons.prems(1) Cons.IH [of "b @ c"] obtain k rest where
        "framed_run dec (b @ c) (map Chunk cs @ evs) = Some (Some (case r of Inl e \<Rightarrow> Inl e | Inr i \<Rightarrow> Inr (the i)),
          after rest, map Chunk (drop k cs) @ evs)" "rest @ concat (drop k cs) = extra" by auto
      then show ?thesis using d by (intro exI [of _ "Suc k"] exI [of _ rest]) simp
    next
      case pre: False
      have "prefix t (b @ c)"
      proof -
        have "prefix t (b @ concat (c # cs))" "prefix (b @ c) (b @ concat (c # cs))"
          using Cons.prems(1) by (simp, metis append.assoc concat.simps(2) prefixI)
        then show ?thesis using pre prefix_same_cases by blast
      qed
      then obtain rest where rest: "b @ c = t @ rest" by (auto simp: prefix_def)
      then have extra: "rest @ concat cs = extra"
        using Cons.prems(1) by (metis append.assoc concat.simps(2) same_append_eq)
      have "framed_run dec (b @ c) (map Chunk cs @ evs) = Some (Some (case r of Inl e \<Rightarrow> Inl e | Inr i \<Rightarrow> Inr (the i)),
        after rest, map Chunk cs @ evs)"
        using take [of rest] r rest
        by (cases "map Chunk cs @ evs"; cases r) (auto split: sum.splits option.splits)
      then show ?thesis using d extra by (intro exI [of _ 1] exI [of _ rest]) simp
    qed
  qed
qed

subsection \<open>The transport during the handshake\<close>

text \<open>A codec that answers nothing on an empty buffer and takes nothing while it waits.\<close>

definition patient :: "'i decoder \<Rightarrow> bool" where
  "patient dec \<longleftrightarrow> dec [] = Some (Inr None, []) \<and> (\<forall>b b'. dec b = Some (Inr None, b') \<longrightarrow> b' = b)"

locale handshake_io =
  fixes N :: "('io, 'f, 'h) net" and sent :: "'io \<Rightarrow> bytes" and reads :: "'io \<Rightarrow> read_event list"
  assumes write_done: "write_all N s bs = (Inr u, s') \<Longrightarrow> sent s' = sent s @ bs \<and> reads s' = reads s"
    and write_failed: "write_all N s bs = (Inl e, s') \<Longrightarrow> \<exists>k. sent s' = sent s @ take k bs"
    and flush_keeps: "io_flush N s = (r, s') \<Longrightarrow> sent s' = sent s \<and> reads s' = reads s"
    and next_request_run:
    "patient dec \<Longrightarrow> (case framed_run dec [] (reads s) of
        None \<Rightarrow> next_request N dec s = None
      | Some (r, b, evs) \<Rightarrow> \<exists>s' f. next_request N dec s = Some (r, s', f, b) \<and> reads s' = evs \<and> sent s' = sent s)"
    and next_response_run:
    "patient dec' \<Longrightarrow> (case framed_run dec' [] (reads s) of
        None \<Rightarrow> next_response N dec' s = None
      | Some (r', b, evs) \<Rightarrow> \<exists>s' f. next_response N dec' s = Some (r', s', f, b) \<and> reads s' = evs \<and> sent s' = sent s)"

subsection \<open>What the two ends write\<close>

definition uri_target :: "uri \<Rightarrow> bytes" where
  "uri_target u = uri_path u @ (case uri_query u of Some q \<Rightarrow> ascii ''?'' @ q | None \<Rightarrow> [])"

definition host_headers :: "uri \<Rightarrow> (bytes \<times> bytes) list" where
  "host_headers u =
     (case uri_host u of
        Some h \<Rightarrow> [(ascii ''Host'', h @ (case uri_port_u16 u of Some p \<Rightarrow> ascii '':'' @ ascii (show_nat (unat p)) | None \<Rightarrow> []))]
      | None \<Rightarrow> [])"

definition request_headers :: "uri \<Rightarrow> bytes \<Rightarrow> (bytes \<times> bytes) list \<Rightarrow> (bytes \<times> bytes) list" where
  "request_headers u key hs = host_headers u
     @ [(ascii ''Upgrade'', ascii ''websocket''), (ascii ''Connection'', ascii ''Upgrade''),
        (ascii ''Sec-WebSocket-Key'', key), (ascii ''Sec-WebSocket-Version'', ascii ''13'')] @ hs"

lemma build_request_text:
  "build_request H u key h = request_text (uri_target u) (request_headers u key (hm_iter H h))"
proof -
  have "(\<lambda>(name, value). name @ ascii '': '' @ value @ crlf) = header_line"
    by (rule ext) (simp add: header_line_def split: prod.split)
  then show ?thesis
    by (simp add: build_request_def request_text_def uri_target_def request_headers_def host_headers_def
        header_lines_def)
      (simp add: header_line_def ascii_def split: option.split)
qed

definition extra_headers :: "'h http_lib \<Rightarrow> 'h \<Rightarrow> (bytes \<times> bytes) list" where
  "extra_headers H h = concat (map (\<lambda>k.
     if k = ascii ''set-cookie'' then map (\<lambda>v. (k, v)) (hm_get_all H h k)
     else [(k, join_values (hm_get_all H h k))]) (hm_keys H h))"

definition response_headers :: "'h http_lib \<Rightarrow> 'h \<Rightarrow> bytes \<Rightarrow> (bytes \<times> bytes) list" where
  "response_headers H h acc =
     [(ascii ''Upgrade'', ascii ''websocket''), (ascii ''Connection'', ascii ''Upgrade''),
      (ascii ''Sec-WebSocket-Accept'', acc)] @ extra_headers H h"

lemma header_lines_concat: "header_lines (concat hss) = concat (map header_lines hss)"
  by (induction hss) simp_all

lemma switching_protocols_text:
  "switching_protocols_response H h acc =
     response_text 101 (ascii ''Switching Protocols'') (response_headers H h acc)"
proof -
  have line: "response_header H h k = header_lines (if k = ascii ''set-cookie'' then map (\<lambda>v. (k, v)) (hm_get_all H h k)
     else [(k, join_values (hm_get_all H h k))])" for k
    by (simp add: response_header_def header_lines_def header_line_def comp_def)
  have "concat (map (response_header H h) (hm_keys H h)) = header_lines (extra_headers H h)"
    unfolding extra_headers_def header_lines_concat map_map comp_def
    by (rule arg_cong [where f = concat], rule map_cong [OF refl], rule line)
  then show ?thesis
    by (simp add: switching_protocols_response_def SWITCHING_PROTOCOLS_BODY_def response_text_def
        response_headers_def header_line_def ascii_def decimal3_def)
qed

lemma bad_request_text: "BAD_REQUEST = response_text 400 (ascii ''Bad Request'') []"
  by (simp add: BAD_REQUEST_def response_text_def ascii_def decimal3_def)

subsection \<open>Headers of a builder\<close>

text \<open>The header maps that \<open>add_header\<close> makes of plain headers, \<open>dis\<close> being those it refuses.\<close>

inductive built :: "'h http_lib \<Rightarrow> bytes list \<Rightarrow> 'h \<Rightarrow> bool" for H dis where
  built_new: "built H dis (hm_new H)"
| built_add: "built H dis h \<Longrightarrow> legal_name n \<Longrightarrow> lower n = n \<Longrightarrow> legal_value v \<Longrightarrow> n \<notin> set dis
    \<Longrightarrow> built H dis (hm_insert H h n v)"

lemma server_new_built: "built H SERVER_DISALLOWED_HEADERS (sb_headers (server_new H))"
  by (simp add: server_new_def built_new)

lemma server_add_header_built:
  assumes "built H SERVER_DISALLOWED_HEADERS (sb_headers b)" and "server_add_header H b n v = Inr b'"
    and "legal_name n" "lower n = n" "legal_value v"
  shows "built H SERVER_DISALLOWED_HEADERS (sb_headers b')"
  using assms by (auto simp: server_add_header_def intro: built_add split: if_splits)

lemma client_new_built: "built H CLIENT_DISALLOWED_HEADERS (cb_headers (client_from_uri H u))"
  by (simp add: client_from_uri_def built_new)

lemma client_add_header_built:
  assumes "built H CLIENT_DISALLOWED_HEADERS (cb_headers b)" and "client_add_header H b n v = Inr b'"
    and "legal_name n" "lower n = n" "legal_value v"
  shows "built H CLIENT_DISALLOWED_HEADERS (cb_headers b')"
  using assms by (auto simp: client_add_header_def intro: built_add split: if_splits)

context http_library
begin

lemma built_keys:
  assumes "built H dis h" and "k \<in> set (hm_keys H h)"
  shows "legal_name k \<and> lower k = k \<and> k \<notin> set dis \<and> (\<exists>v. hm_get_all H h k = [v] \<and> legal_value v)"
  using assms
proof (induction rule: built.induct)
  case built_new
  then show ?case by (simp add: keys_new)
next
  case (built_add h n v)
  then show ?case by (cases "k = n") (auto simp: keys_insert get_all_insert)
qed

lemma built_iter:
  assumes "built H dis h"
  shows "list_all legal_header (hm_iter H h)" and "length (hm_iter H h) = length (hm_keys H h)"
    and "k \<in> set dis \<Longrightarrow> lower k = k \<Longrightarrow> map_of (rev (lower_headers (hm_iter H h))) k = None"
proof -
  have in_iter: "legal_name k \<and> lower k = k \<and> k \<notin> set dis \<and> legal_value v" if "(k, v) \<in> set (hm_iter H h)" for k v
    using that built_keys [OF assms, of k] by (auto simp: iter_set)
  show "list_all legal_header (hm_iter H h)"
    using in_iter by (auto simp: list_all_iff legal_header_def)
  have "length (hm_get_all H h k) = 1" if "k \<in> set (hm_keys H h)" for k
    using built_keys [OF assms that] by auto
  moreover have "(\<Sum>k\<leftarrow>ks. length (hm_get_all H h k)) = length ks"
    if "\<And>k. k \<in> set ks \<Longrightarrow> length (hm_get_all H h k) = 1" for ks
    using that by (induction ks) auto
  ultimately show "length (hm_iter H h) = length (hm_keys H h)"
    by (simp only: iter_length)
  show "map_of (rev (lower_headers (hm_iter H h))) k = None" if "k \<in> set dis" "lower k = k" for k
  proof -
    have "k \<noteq> lower n" if "(n, v) \<in> set (hm_iter H h)" for n v
      using in_iter [OF that] \<open>k \<in> set dis\<close> by auto
    then show ?thesis by (auto simp: map_of_eq_None_iff lower_headers_def) blast
  qed
qed

lemma built_extra:
  assumes "built H dis h"
  shows "list_all legal_header (extra_headers H h)" and "length (extra_headers H h) = length (hm_keys H h)"
proof -
  have one: "(if k = ascii ''set-cookie'' then map (\<lambda>v. (k, v)) (hm_get_all H h k)
      else [(k, join_values (hm_get_all H h k))]) = [(k, (hm_get_all H h k) ! 0)]" if "k \<in> set (hm_keys H h)" for k
    using built_keys [OF assms that] by auto
  have ex: "extra_headers H h = map (\<lambda>k. (k, (hm_get_all H h k) ! 0)) (hm_keys H h)"
  proof -
    have "extra_headers H h = concat (map (\<lambda>k. [(k, (hm_get_all H h k) ! 0)]) (hm_keys H h))"
      unfolding extra_headers_def by (rule arg_cong [where f = concat], rule map_cong [OF refl], rule one)
    then show ?thesis by simp
  qed
  then show "length (extra_headers H h) = length (hm_keys H h)" by simp
  show "list_all legal_header (extra_headers H h)"
    using built_keys [OF assms] by (force simp: ex list_all_iff legal_header_def)
qed

end

subsection \<open>Plain texts\<close>

lemma legal_value_ascii:
  "legal_value (ascii ''websocket'')" "legal_value (ascii ''Upgrade'')" "legal_value (ascii ''13'')"
  "legal_value (ascii ''Switching Protocols'')" "legal_value (ascii ''Bad Request'')"
  by (simp_all add: legal_value_def ascii_def)

lemma legal_name_ascii:
  "legal_name (ascii ''Host'')" "legal_name (ascii ''Upgrade'')" "legal_name (ascii ''Connection'')"
  "legal_name (ascii ''Sec-WebSocket-Key'')" "legal_name (ascii ''Sec-WebSocket-Version'')"
  "legal_name (ascii ''Sec-WebSocket-Accept'')"
  by (simp_all add: legal_name_def ascii_def is_alnum_def)

lemma lower_ascii:
  "lower (ascii ''Host'') = ascii ''host''" "lower (ascii ''Upgrade'') = ascii ''upgrade''"
  "lower (ascii ''Connection'') = ascii ''connection''"
  "lower (ascii ''Sec-WebSocket-Key'') = ascii ''sec-websocket-key''"
  "lower (ascii ''Sec-WebSocket-Version'') = ascii ''sec-websocket-version''"
  "lower (ascii ''Sec-WebSocket-Accept'') = ascii ''sec-websocket-accept''"
  by (simp_all add: ascii_def to_ascii_lowercase_def)

lemma ascii_eq_iff: "ascii s = ascii t \<longleftrightarrow> map (of_char :: char \<Rightarrow> byte) s = map of_char t"
  by (simp add: ascii_def)

subsection \<open>One end\<close>

lemma response_decode_waits: "response_parse H 25 src = Inr None \<Longrightarrow> response_decode H K d src = Some (Inr None, src)"
  by (simp add: response_decode_def)

lemma request_decode_waits: "request_parse H 64 src = Inr None \<Longrightarrow> request_decode H K hs src = Some (Inr None, src)"
  by (simp add: request_decode_def)

lemma response_decode_none: "response_decode H K d src = Some (Inr None, src') \<Longrightarrow> src' = src"
  by (auto simp: response_decode_def split: option.splits sum.splits if_splits)

text \<open>The client's request as the server needs it, and the server's headers as the client needs them.\<close>

definition legal_request :: "'h http_lib \<Rightarrow> uri \<Rightarrow> 'h \<Rightarrow> bool" where
  "legal_request H u h \<longleftrightarrow> legal_target (uri_target u) \<and> list_all legal_header (host_headers u) \<and>
     built H CLIENT_DISALLOWED_HEADERS h \<and> length (hm_keys H h) \<le> 59"

definition legal_answer :: "'h http_lib \<Rightarrow> 'h \<Rightarrow> bool" where
  "legal_answer H h \<longleftrightarrow> built H SERVER_DISALLOWED_HEADERS h \<and> length (hm_keys H h) \<le> 22"

lemma contains_ignore_ascii_case_refl: "contains_ignore_ascii_case a a"
  by (cases a) (simp_all add: contains_ignore_ascii_case_def)

context http_library
begin

lemma request_decode_patient: "patient (request_decode H K hs)"
proof -
  have "legal_target (ascii ''/'')" by (simp add: legal_target_def ascii_def is_alnum_def)
  from request_partial [OF this, of "[]" 64 "[]"] have "request_parse H 64 [] = Inr None"
    by (simp add: request_text_def ascii_def strict_prefix_def)
  then show ?thesis
    by (auto simp: patient_def request_decode_waits dest: request_decode_buffer)
qed

lemma response_decode_patient: "patient (response_decode H K d)"
proof -
  from response_partial [of 101 "[]" "[]" 25 "[]"] have "response_parse H 25 [] = Inr None"
    by (simp add: response_text_def ascii_def strict_prefix_def legal_value_def)
  then show ?thesis
    by (auto simp: patient_def response_decode_waits dest: response_decode_none)
qed

lemma request_headers_legal:
  assumes "legal_request H u h" and "legal_value key"
  shows "list_all legal_header (request_headers u key (hm_iter H h))"
    and "length (request_headers u key (hm_iter H h)) \<le> 64"
proof -
  from assms have b: "built H CLIENT_DISALLOWED_HEADERS h" and host: "list_all legal_header (host_headers u)"
    and len: "length (hm_keys H h) \<le> 59" by (simp_all add: legal_request_def)
  show "list_all legal_header (request_headers u key (hm_iter H h))"
    using host assms(2) built_iter(1) [OF b]
    by (simp add: request_headers_def legal_header_def legal_name_ascii legal_value_ascii)
  have "length (host_headers u) \<le> 1" by (simp add: host_headers_def split: option.split)
  then show "length (request_headers u key (hm_iter H h)) \<le> 64"
    using built_iter(2) [OF b] len by (simp add: request_headers_def)
qed

lemma request_headers_lookup:
  assumes "built H CLIENT_DISALLOWED_HEADERS h"
  shows "map_of (rev (lower_headers (request_headers u key (hm_iter H h)))) (ascii ''upgrade'') = Some (ascii ''websocket'')"
    and "map_of (rev (lower_headers (request_headers u key (hm_iter H h)))) (ascii ''connection'') = Some (ascii ''Upgrade'')"
    and "map_of (rev (lower_headers (request_headers u key (hm_iter H h)))) (ascii ''sec-websocket-version'') = Some (ascii ''13'')"
    and "map_of (rev (lower_headers (request_headers u key (hm_iter H h)))) (ascii ''sec-websocket-key'') = Some key"
proof -
  have none: "map_of (rev (lower_headers (hm_iter H h))) k = None"
    if "k \<in> {ascii ''upgrade'', ascii ''connection'', ascii ''sec-websocket-version'', ascii ''sec-websocket-key''}" for k
    using that by (intro built_iter(3) [OF assms]) (auto simp: CLIENT_DISALLOWED_HEADERS_def ascii_def to_ascii_lowercase_def)
  note simps = request_headers_def none lower_ascii map_add_def ascii_eq_iff
  show "map_of (rev (lower_headers (request_headers u key (hm_iter H h)))) (ascii ''upgrade'') = Some (ascii ''websocket'')"
    "map_of (rev (lower_headers (request_headers u key (hm_iter H h)))) (ascii ''connection'') = Some (ascii ''Upgrade'')"
    "map_of (rev (lower_headers (request_headers u key (hm_iter H h)))) (ascii ''sec-websocket-version'') = Some (ascii ''13'')"
    "map_of (rev (lower_headers (request_headers u key (hm_iter H h)))) (ascii ''sec-websocket-key'') = Some key"
    by (simp_all add: simps)
qed

text \<open>The server's codec on a request of the client.\<close>

lemma request_decode_client:
  assumes "legal_request H u h" and "legal_value key"
  shows "\<exists>hm. \<forall>rest. request_decode H K rhs (build_request H u key h @ rest) =
    Some (Inr (Some (\<lparr>rq_method = ascii ''GET'', rq_uri = uri_target u, rq_version = HTTP_11, rq_headers = hm\<rparr>,
       switching_protocols_response H rhs (ws_accept K (digest K key)))), rest)"
proof -
  from assms(1) have b: "built H CLIENT_DISALLOWED_HEADERS h" and t: "legal_target (uri_target u)"
    by (simp_all add: legal_request_def)
  have "client_request_parse K (\<lambda>k. map_of (rev (lower_headers (request_headers u key (hm_iter H h)))) (lower (ascii k)))
      = Inr (digest K key)"
    by (simp add: client_request_parse_def check_header_def check_header_contains_def find_header_def lower_ascii
        request_headers_lookup [OF b] contains_ignore_ascii_case_refl)
  then show ?thesis
    using request_decode_plain [OF t request_headers_legal [OF assms], of K rhs]
    by (simp add: build_request_text)
qed

text \<open>The client's codec on an answer of the server.\<close>

lemma answer_parsed:
  assumes "legal_answer H h" and "legal_value acc"
  shows "\<exists>pr hm. (\<forall>rest. response_parse H 25 (switching_protocols_response H h acc @ rest) = Inr (Some pr)) \<and>
    pr_code pr = Some 101 \<and> http_version_of (pr_version pr) = Inr HTTP_11 \<and>
    response_header_value (pr_headers pr) ''Sec-WebSocket-Accept'' = Inr acc \<and>
    collect_headers H (hm_new H) (pr_headers pr) = Inr hm \<and>
    pr_len pr = length (switching_protocols_response H h acc)"
proof -
  let ?hs = "response_headers H h acc"
  from assms(1) have b: "built H SERVER_DISALLOWED_HEADERS h" and len: "length (hm_keys H h) \<le> 22"
    by (simp_all add: legal_answer_def)
  have hs: "list_all legal_header ?hs" "length ?hs \<le> 25"
    using built_extra [OF b] len assms(2)
    by (simp_all add: response_headers_def legal_header_def legal_name_ascii legal_value_ascii)
  from collect_legal [OF hs(1), of "hm_new H"] obtain hm where hm: "collect_headers H (hm_new H) ?hs = Inr hm" by blast
  have find: "response_header_value ?hs ''Sec-WebSocket-Accept'' = Inr acc"
    by (simp add: response_header_value_def response_headers_def eq_ignore_ascii_case_iff lower_ascii ascii_eq_iff)
  show ?thesis
    using response_complete [of 101 "ascii ''Switching Protocols''" ?hs 25] hs legal_value_ascii hm find
    by (simp add: switching_protocols_text http_version_of_def)
qed

lemma response_decode_server:
  assumes "legal_answer H h" and "crypto_lib K"
  shows "\<exists>hm. \<forall>rest. response_decode H K (digest K key) (switching_protocols_response H h (ws_accept K (digest K key)) @ rest) =
    Some (Inr (Some \<lparr>rs_status = 101, rs_version = HTTP_11, rs_headers = hm\<rparr>), rest)"
proof -
  have "legal_value (ws_accept K (digest K key))"
    by (simp add: ws_accept_def crypto_lib.base64_legal_value [OF assms(2)])
  from answer_parsed [OF assms(1) this] show ?thesis
    using status_ok [of 101]
    by (auto simp: response_decode_def crypto_lib.check_accept_ws_accept [OF assms(2)])
qed

text \<open>Answers with another accept value.\<close>

lemma response_decode_rejects:
  assumes "legal_answer H h" and "legal_value acc" and "check_accept K d acc = Some (Inl e)"
  shows "response_decode H K d (switching_protocols_response H h acc @ rest) =
    Some (Inl (Upgrade e), switching_protocols_response H h acc @ rest)"
  using answer_parsed [OF assms(1,2)] assms(3) by (auto simp: response_decode_def)

lemma response_decode_panics:
  assumes "legal_answer H h" and "legal_value acc" and "check_accept K d acc = None"
  shows "response_decode H K d (switching_protocols_response H h acc @ rest) = None"
  using answer_parsed [OF assms(1,2)] assms(3) by (auto simp: response_decode_def)

lemma response_decode_bad_request:
  "response_decode H K d (BAD_REQUEST @ rest) = Some (Inl (Upgrade (DidNotSwitchProtocols 400)), BAD_REQUEST @ rest)"
  using response_complete [of 400 "ascii ''Bad Request''" "[]" 25 rest] legal_value_ascii
  by (simp add: response_decode_def bad_request_text)

end

subsection \<open>Runs of the two ends\<close>

definition writes_succeed :: "('io, 'f, 'h) net \<Rightarrow> bool" where
  "writes_succeed N \<longleftrightarrow> (\<forall>s bs. fst (write_all N s bs) = Inr ()) \<and> (\<forall>s. fst (io_flush N s) = Inr ())"

lemma writes_succeedD:
  assumes "writes_succeed N"
  obtains s' s'' where "write_all N s bs = (Inr (), s')" and "io_flush N s' = (Inr (), s'')"
  using assms by (metis prod.collapse writes_succeed_def)

lemma accept_run:
  assumes "handshake_io N sent reads" and "http_library H" and "writes_succeed N"
    and run: "framed_run (request_decode H K (sb_headers b)) [] (reads s) = Some (r, rb, evs)"
  shows "case r of
      Some (Inr (rq, resp)) \<Rightarrow> \<exists>i f. accept H K N b s = Some (Inr (rq, after_handshake i f rb Server (sb_config b) (sb_limits b))) \<and>
        sent i = sent s @ resp \<and> reads i = evs
    | Some (Inl e) \<Rightarrow> \<exists>i. accept H K N b s = Some (Inl (e, i)) \<and> sent i = sent s @ BAD_REQUEST
    | None \<Rightarrow> \<exists>i. accept H K N b s = Some (Inl (Io UnexpectedEof, i)) \<and> sent i = sent s"
proof -
  from handshake_io.next_request_run [OF assms(1) http_library.request_decode_patient [OF assms(2), of K "sb_headers b"], of s] run
  obtain s' f where n: "next_request N (request_decode H K (sb_headers b)) s = Some (r, s', f, rb)"
    "reads s' = evs" "sent s' = sent s" by auto
  have w: "\<exists>i. write_all N s' bs = (Inr (), i) \<and> sent i = sent s @ bs \<and> reads i = evs" for bs
    using writes_succeedD [OF assms(3), of s' bs] handshake_io.write_done [OF assms(1)] n by metis
  show ?thesis
  proof (cases r)
    case None
    then show ?thesis using n by (simp add: accept_def)
  next
    case (Some x)
    show ?thesis
    proof (cases x)
      case (Inl e)
      then show ?thesis using n w [of BAD_REQUEST] Some by (auto simp: accept_def)
    next
      case (Inr y)
      obtain rq resp where "y = (rq, resp)" by (cases y)
      then show ?thesis using n w [of resp] Some Inr by (fastforce simp: accept_def)
    qed
  qed
qed

lemma make_key_base64:
  assumes "crypto_lib K" and "length key_bytes = 16"
  shows "make_key K key_bytes = Some (base64_encode K key_bytes)"
  using assms crypto_lib.base64_length [OF assms(1), of key_bytes] by (simp add: make_key_def splice_def)

lemma connect_run:
  assumes "handshake_io N sent reads" and "http_library H" and "crypto_lib K" and "writes_succeed N"
    and "cb_uri b = Some u" and "length key_bytes = 16" and key: "key = base64_encode K key_bytes"
    and run: "framed_run (response_decode H K (digest K key)) [] (reads s) = Some (r, rb, evs)"
  shows "case r of
      Some (Inr rs) \<Rightarrow> \<exists>i f. connect_on H K N key_bytes b s =
          Some (Inr (after_handshake i f rb Client (cb_config b) (cb_limits b), rs)) \<and>
        sent i = sent s @ build_request H u key (cb_headers b) \<and> reads i = evs
    | Some (Inl e) \<Rightarrow> \<exists>i. connect_on H K N key_bytes b s = Some (Inl (e, i)) \<and>
        sent i = sent s @ build_request H u key (cb_headers b)
    | None \<Rightarrow> \<exists>i. connect_on H K N key_bytes b s = Some (Inl (Io UnexpectedEof, i)) \<and>
        sent i = sent s @ build_request H u key (cb_headers b)"
proof -
  let ?req = "build_request H u key (cb_headers b)"
  obtain s1 s2 where w: "write_all N s ?req = (Inr (), s1)" "io_flush N s1 = (Inr (), s2)"
    by (rule writes_succeedD [OF assms(4)])
  then have s2: "sent s2 = sent s @ ?req" "reads s2 = reads s"
    using handshake_io.write_done [OF assms(1) w(1)] handshake_io.flush_keeps [OF assms(1) w(2)] by simp_all
  with handshake_io.next_response_run [OF assms(1) http_library.response_decode_patient [OF assms(2), of K "digest K key"], of s2] run
  obtain s' f where n: "next_response N (response_decode H K (digest K key)) s2 = Some (r, s', f, rb)"
    "reads s' = evs" "sent s' = sent s @ ?req" by auto
  show ?thesis
    using n w make_key_base64 [OF assms(3,6)] by (auto simp: connect_on_def assms(5) key split: option.split sum.split)
qed

lemma connect_panics:
  assumes "handshake_io N sent reads" and "http_library H" and "crypto_lib K" and "writes_succeed N"
    and "cb_uri b = Some u" and "length key_bytes = 16" and key: "key = base64_encode K key_bytes"
    and run: "framed_run (response_decode H K (digest K key)) [] (reads s) = None"
  shows "connect_on H K N key_bytes b s = None"
proof -
  let ?req = "build_request H u key (cb_headers b)"
  obtain s1 s2 where w: "write_all N s ?req = (Inr (), s1)" "io_flush N s1 = (Inr (), s2)"
    by (rule writes_succeedD [OF assms(4)])
  then have s2: "reads s2 = reads s"
    using handshake_io.write_done [OF assms(1) w(1)] handshake_io.flush_keeps [OF assms(1) w(2)] by simp_all
  with handshake_io.next_response_run [OF assms(1) http_library.response_decode_patient [OF assms(2), of K "digest K key"], of s2] run
  have "next_response N (response_decode H K (digest K key)) s2 = None" by simp
  then show ?thesis using w make_key_base64 [OF assms(3,6)] by (simp add: connect_on_def assms(5) key)
qed

lemma framed_run_panics:
  assumes wait: "\<And>p. strict_prefix p t \<Longrightarrow> dec p = Some (Inr None, p)"
    and panic: "\<And>rest. dec (t @ rest) = None" and all: "b @ concat cs = t @ extra" and b: "prefix b t"
  shows "framed_run dec b (map Chunk cs @ evs) = None"
  using all b
proof (induction cs arbitrary: b)
  case Nil
  then have "b = t" by (auto simp: prefix_def)
  then show ?case using panic [of "[]"] by (cases evs) simp_all
next
  case (Cons c cs)
  show ?case
  proof (cases "b = t")
    case True
    then show ?thesis using panic [of "[]"] by simp
  next
    case False
    then have d: "dec b = Some (Inr None, b)" using Cons.prems(2) by (intro wait) (simp add: strict_prefix_def)
    show ?thesis
    proof (cases "prefix (b @ c) t")
      case True
      then show ?thesis using Cons.IH [of "b @ c"] Cons.prems(1) d by simp
    next
      case pre: False
      have "prefix t (b @ concat (c # cs))" "prefix (b @ c) (b @ concat (c # cs))"
        using Cons.prems(1) by (simp, metis append.assoc concat.simps(2) prefixI)
      then obtain rest where "b @ c = t @ rest" using pre prefix_same_cases by (metis prefix_def)
      then show ?thesis using d panic [of rest] by (cases "map Chunk cs @ evs") simp_all
    qed
  qed
qed

context http_library
begin

lemma request_run:
  assumes "legal_target p" and "list_all legal_header hs" and "length hs \<le> 64"
    and "\<And>rest. request_decode H K rhs (request_text p hs @ rest) = Some (r, after rest)" and "r \<noteq> Inr None"
    and "concat cs = request_text p hs @ extra"
  shows "\<exists>k rest. framed_run (request_decode H K rhs) [] (map Chunk cs @ evs) =
      Some (Some (case r of Inl e \<Rightarrow> Inl e | Inr i \<Rightarrow> Inr (the i)), after rest, map Chunk (drop k cs) @ evs) \<and>
      rest @ concat (drop k cs) = extra"
  by (rule framed_run_chunks [OF request_decode_waits [OF request_partial [OF assms(1-3)]] assms(4,5)])
    (simp_all add: assms(6))

lemma response_waits:
  assumes "legal_answer H h" and "legal_value acc" and "strict_prefix p (switching_protocols_response H h acc)"
  shows "response_decode H K d p = Some (Inr None, p)"
proof -
  have "built H SERVER_DISALLOWED_HEADERS h" "length (hm_keys H h) \<le> 22"
    using assms(1) by (simp_all add: legal_answer_def)
  then have "list_all legal_header (response_headers H h acc)" "length (response_headers H h acc) \<le> 25"
    using built_extra [of SERVER_DISALLOWED_HEADERS h] assms(2)
    by (simp_all add: response_headers_def legal_header_def legal_name_ascii legal_value_ascii)
  then show ?thesis
    using response_partial [of 101 "ascii ''Switching Protocols''" _ 25 p] assms(3) legal_value_ascii
    by (simp add: response_decode_waits switching_protocols_text)
qed

lemma bad_request_waits:
  assumes "strict_prefix p BAD_REQUEST"
  shows "response_decode H K d p = Some (Inr None, p)"
  using response_partial [of 400 "ascii ''Bad Request''" "[]" 25 p] assms legal_value_ascii
  by (simp add: response_decode_waits bad_request_text)

end

end
