(* ===== verification/Rfc_Crypto.thy ===== *)
theory Rfc_Crypto
  imports Http_Interface
begin

text \<open>
  SHA-1 (RFC 3174) and base64 with padding (RFC 4648) as functions: they show that the locale
  \<open>crypto_lib\<close> describes the two algorithms the handshake uses, and let concrete handshakes be
  computed. They stand for libraries and are not part of the repository.
\<close>

subsection \<open>Base64\<close>

definition enc6 :: "nat \<Rightarrow> byte" where
  "enc6 n = (if n < 26 then of_nat (65 + n) else if n < 52 then of_nat (71 + n) else if n < 62 then of_nat (n - 4)
     else if n = 62 then 43 else 47)"

definition dec6 :: "byte \<Rightarrow> nat option" where
  "dec6 b = (let n = unat b in if 65 \<le> n \<and> n < 91 then Some (n - 65) else if 97 \<le> n \<and> n < 123 then Some (n - 71)
     else if 48 \<le> n \<and> n < 58 then Some (n + 4) else if n = 43 then Some 62 else if n = 47 then Some 63 else None)"

fun b64_encode :: "bytes \<Rightarrow> bytes" where
  "b64_encode [] = []"
| "b64_encode [a] = [enc6 (unat a div 4), enc6 (unat a mod 4 * 16), 61, 61]"
| "b64_encode [a, b] =
     [enc6 (unat a div 4), enc6 (unat a mod 4 * 16 + unat b div 16), enc6 (unat b mod 16 * 4), 61]"
| "b64_encode (a # b # c # r) =
     [enc6 (unat a div 4), enc6 (unat a mod 4 * 16 + unat b div 16), enc6 (unat b mod 16 * 4 + unat c div 64),
      enc6 (unat c mod 64)] @ b64_encode r"

fun b64_decode :: "bytes \<Rightarrow> bytes option" where
  "b64_decode [] = Some []"
| "b64_decode (w # x # y # z # r) =
     (case (dec6 w, dec6 x, dec6 y, dec6 z) of
        (Some i, Some j, Some k, Some l) \<Rightarrow>
          map_option (\<lambda>d. [of_nat (i * 4 + j div 16), of_nat (j mod 16 * 16 + k div 4), of_nat (k mod 4 * 64 + l)] @ d)
            (b64_decode r)
      | (Some i, Some j, Some k, None) \<Rightarrow>
          if z = 61 \<and> r = [] then Some [of_nat (i * 4 + j div 16), of_nat (j mod 16 * 16 + k div 4)] else None
      | (Some i, Some j, None, _) \<Rightarrow>
          if y = 61 \<and> z = 61 \<and> r = [] then Some [of_nat (i * 4 + j div 16)] else None
      | _ \<Rightarrow> None)"
| "b64_decode _ = None"

lemma dec6_enc6_all: "list_all (\<lambda>n. dec6 (enc6 n) = Some n) [0..<64]"
  by code_simp

lemma dec6_enc6 [simp]: "n < 64 \<Longrightarrow> dec6 (enc6 n) = Some n"
  using dec6_enc6_all by (simp add: list_all_iff)

lemma enc6_alphabet_all: "list_all (\<lambda>n. is_alnum (enc6 n) \<or> enc6 n \<in> set (ascii ''+/='')) [0..<64]"
  by code_simp

lemma enc6_alphabet: "n < 64 \<Longrightarrow> is_alnum (enc6 n) \<or> enc6 n \<in> set (ascii ''+/='')"
  using enc6_alphabet_all by (simp add: list_all_iff)

lemma dec6_pad [simp]: "dec6 61 = None"
  by code_simp

lemma unat_byte: "unat (b :: byte) < 256"
proof -
  have "unat b < 2 ^ LENGTH(8)" by (rule unsigned_less)
  then show ?thesis by simp
qed

lemma six_bits [simp]:
  "unat (a :: byte) div 4 < 64" "unat a mod 4 * 16 < 64" "unat a mod 4 * 16 + unat (b :: byte) div 16 < 64"
  "unat b mod 16 * 4 < 64" "unat b mod 16 * 4 + unat (c :: byte) div 64 < 64" "unat c mod 64 < 64"
proof -
  have "unat b div 16 < 16" "unat c div 64 < 4" "unat a mod 4 < 4" "unat b mod 16 < 16"
    using unat_byte [of b] unat_byte [of c] by auto
  then show "unat a mod 4 * 16 < 64" "unat a mod 4 * 16 + unat b div 16 < 64"
    "unat b mod 16 * 4 < 64" "unat b mod 16 * 4 + unat c div 64 < 64" by linarith+
  show "unat a div 4 < 64" "unat c mod 64 < 64" using unat_byte [of a] by simp_all
qed

lemma high_bits [simp]:
  "unat (b :: byte) div 256 = 0" "unat b div 16 mod 16 = unat b div 16" "unat b div 64 mod 4 = unat b div 64"
  using unat_byte [of b] by simp_all

lemma regroup [simp]:
  "(of_nat (unat (b :: byte) div 16) * 16 + of_nat (unat b mod 16) :: byte) = b"
  "(of_nat (unat b div 64) * 64 + of_nat (unat b mod 64) :: byte) = b"
proof -
  have *: "(of_nat (unat b div n) * of_nat n + of_nat (unat b mod n) :: byte) = b" for n
  proof -
    have "(of_nat (unat b div n * n + unat b mod n) :: byte) = b" by (simp only: div_mult_mod_eq) simp
    then show ?thesis by (simp only: of_nat_add of_nat_mult)
  qed
  show "(of_nat (unat b div 16) * 16 + of_nat (unat b mod 16) :: byte) = b"
    "(of_nat (unat b div 64) * 64 + of_nat (unat b mod 64) :: byte) = b" using * [of 16] * [of 64] by simp_all
qed

lemma b64_decode_encode: "b64_decode (b64_encode d) = Some d"
  by (induction d rule: b64_encode.induct) (simp_all add: div_mult2_eq [symmetric])

lemma b64_length: "length (b64_encode d) = (length d + 2) div 3 * 4"
proof (induction d rule: b64_encode.induct)
  case (4 a b c r)
  have "(length (a # b # c # r) + 2) div 3 = Suc ((length r + 2) div 3)" by simp
  then show ?case using 4 by simp
qed simp_all

lemma b64_alphabet: "list_all (\<lambda>b. is_alnum b \<or> b \<in> set (ascii ''+/='')) (b64_encode d)"
  by (induction d rule: b64_encode.induct) (simp_all add: enc6_alphabet, simp_all add: ascii_def)

subsection \<open>SHA-1\<close>

definition sha1_pad :: "bytes \<Rightarrow> bytes" where
  "sha1_pad m = m @ [0x80] @ replicate ((119 - length m mod 64) mod 64) 0
     @ map (\<lambda>i. of_nat (8 * length m div 256 ^ (7 - i))) [0..<8]"

fun be_words :: "bytes \<Rightarrow> u32 list" where
  "be_words (a # b # c # d # r) = (push_bit 24 (ucast a) OR push_bit 16 (ucast b) OR push_bit 8 (ucast c) OR ucast d) # be_words r"
| "be_words _ = []"

text \<open>The schedule, newest word first.\<close>

fun sha1_extend :: "nat \<Rightarrow> u32 list \<Rightarrow> u32 list" where
  "sha1_extend 0 ws = ws"
| "sha1_extend (Suc n) ws = sha1_extend n (word_rotl 1 (ws ! 2 XOR ws ! 7 XOR ws ! 13 XOR ws ! 15) # ws)"

definition sha1_f :: "nat \<Rightarrow> u32 \<Rightarrow> u32 \<Rightarrow> u32 \<Rightarrow> u32 \<times> u32" where
  "sha1_f t b c d =
     (if t < 20 then ((b AND c) OR (NOT b AND d), 0x5A827999)
      else if t < 40 then (b XOR c XOR d, 0x6ED9EBA1)
      else if t < 60 then ((b AND c) OR (b AND d) OR (c AND d), 0x8F1BBCDC)
      else (b XOR c XOR d, 0xCA62C1D6))"

fun sha1_rounds :: "nat \<Rightarrow> u32 list \<Rightarrow> u32 \<times> u32 \<times> u32 \<times> u32 \<times> u32 \<Rightarrow> u32 \<times> u32 \<times> u32 \<times> u32 \<times> u32" where
  "sha1_rounds t [] s = s"
| "sha1_rounds t (w # ws) (a, b, c, d, e) =
     (let (f, k) = sha1_f t b c d
      in sha1_rounds (t + 1) ws (word_rotl 5 a + f + e + w + k, a, word_rotl 30 b, c, d))"

definition sha1_block ::
  "u32 list \<Rightarrow> u32 \<times> u32 \<times> u32 \<times> u32 \<times> u32 \<Rightarrow> u32 \<times> u32 \<times> u32 \<times> u32 \<times> u32" where
  "sha1_block ws s =
     (let (a, b, c, d, e) = s; (a', b', c', d', e') = sha1_rounds 0 (rev (sha1_extend 64 (rev ws))) s
      in (a + a', b + b', c + c', d + d', e + e'))"

fun sha1_blocks ::
  "nat \<Rightarrow> u32 list \<Rightarrow> u32 \<times> u32 \<times> u32 \<times> u32 \<times> u32 \<Rightarrow> u32 \<times> u32 \<times> u32 \<times> u32 \<times> u32" where
  "sha1_blocks 0 ws s = s"
| "sha1_blocks (Suc n) ws s = sha1_blocks n (drop 16 ws) (sha1_block (take 16 ws) s)"

definition be_bytes32 :: "u32 \<Rightarrow> bytes" where
  "be_bytes32 w = [ucast (drop_bit 24 w), ucast (drop_bit 16 w), ucast (drop_bit 8 w), ucast w]"

definition sha1_digest :: "bytes \<Rightarrow> bytes" where
  "sha1_digest m =
     (let ws = be_words (sha1_pad m);
          (a, b, c, d, e) = sha1_blocks (length ws div 16) ws
            (0x67452301, 0xEFCDAB89, 0x98BADCFE, 0x10325476, 0xC3D2E1F0)
      in be_bytes32 a @ be_bytes32 b @ be_bytes32 c @ be_bytes32 d @ be_bytes32 e)"

lemma sha1_digest_length: "length (sha1_digest m) = 20"
  by (simp add: sha1_digest_def be_bytes32_def Let_def split: prod.split)

definition rfc_crypto :: crypto where
  "rfc_crypto = \<lparr>sha1 = sha1_digest, base64_encode = b64_encode,
     base64_decode_slice = (\<lambda>v n. case b64_decode v of
        None \<Rightarrow> Some (Inl ()) | Some d \<Rightarrow> if length d \<le> n then Some (Inr d) else None)\<rparr>"

interpretation rfc: crypto_lib rfc_crypto
  by unfold_locales (simp_all add: rfc_crypto_def sha1_digest_length b64_length b64_alphabet b64_decode_encode)

end
