(* ===== verification/Plain_Http.thy ===== *)
theory Plain_Http
  imports Rfc_Crypto Handshake
begin

text \<open>
  A small HTTP/1.x head parser with a header map, and a transport in memory: they show that the
  assumptions of \<open>http_library\<close> and \<open>handshake_io\<close> hold together, and concrete handshakes use them.
  They stand for libraries and are not part of the repository.
\<close>

subsection \<open>Lines\<close>

fun take_line :: "bytes \<Rightarrow> (bytes \<times> bytes) option" where
  "take_line [] = None"
| "take_line [b] = None"
| "take_line (a # b # r) =
     (if a = 13 \<and> b = 10 then Some ([], r) else map_option (\<lambda>(l, s). (a # l, s)) (take_line (b # r)))"

lemma take_line_full: "13 \<notin> set l \<Longrightarrow> take_line (l @ crlf @ r) = Some (l, r)"
proof (induction l)
  case (Cons a l)
  then show ?case by (cases l) auto
qed simp

lemma take_line_none:
  assumes "13 \<notin> set l" and "prefix p (l @ [13])"
  shows "take_line p = None"
  using assms
proof (induction p arbitrary: l rule: take_line.induct)
  case (3 a b r)
  then obtain l' where l: "l = a # l'" by (cases l) auto
  then have "13 \<notin> set l'" "prefix (b # r) (l' @ [13])" using 3 by auto
  with 3(1) [OF _ this] l 3(2) show ?case by auto
qed auto

lemma prefix_line_cases:
  assumes "prefix p (l @ crlf @ r)"
  obtains "prefix p (l @ [13])" | p' where "p = l @ crlf @ p'" "prefix p' r"
proof -
  have "prefix (l @ crlf) (l @ crlf @ r)" by (metis append.assoc prefixI)
  with assms consider "prefix (l @ crlf) p" | "strict_prefix p (l @ crlf)"
    using prefix_same_cases [OF assms, of "l @ crlf"] by (auto simp: strict_prefix_def)
  then show ?thesis
  proof cases
    case 1
    then obtain p' where "p = l @ crlf @ p'" by (auto simp: prefix_def)
    then show ?thesis using assms that(2) [of p'] by (simp add: prefix_def)
  next
    case 2
    then obtain z where z: "l @ crlf = p @ z" "z \<noteq> []" by (auto simp: strict_prefix_def prefix_def)
    have "l @ [13] = butlast (l @ crlf)" by (simp add: butlast_append)
    also have "\<dots> = p @ butlast z" using z by (simp add: butlast_append)
    finally have "prefix p (l @ [13])" by simp
    then show ?thesis by (rule that(1))
  qed
qed

subsection \<open>Headers\<close>

definition trim_spaces :: "bytes \<Rightarrow> bytes" where
  "trim_spaces v = rev (dropWhile (\<lambda>b. b = 32) (rev (dropWhile (\<lambda>b. b = 32) v)))"

definition parse_header :: "bytes \<Rightarrow> httparse_error + bytes \<times> bytes" where
  "parse_header l =
     (let n = takeWhile (\<lambda>b. b \<noteq> 58) l; v = trim_spaces (drop (length n + 1) l)
      in if n = l \<or> \<not> legal_name n then Inl HeaderName else if \<not> legal_value v then Inl HeaderValue
         else Inr (n, v))"

primrec parse_headers :: "nat \<Rightarrow> bytes \<Rightarrow> httparse_error + ((bytes \<times> bytes) list \<times> bytes) option" where
  "parse_headers 0 src =
     (case take_line src of
        None \<Rightarrow> Inr None
      | Some (l, r) \<Rightarrow> if l = [] then Inr (Some ([], r)) else Inl (OtherParseError 0))"
| "parse_headers (Suc n) src =
     (case take_line src of
        None \<Rightarrow> Inr None
      | Some (l, r) \<Rightarrow>
          if l = [] then Inr (Some ([], r))
          else (case parse_header l of
                  Inl e \<Rightarrow> Inl e
                | Inr h \<Rightarrow> map_sum id (map_option (\<lambda>(hs, s). (h # hs, s))) (parse_headers n r)))"

lemma trim_spaces_legal: "legal_value v \<Longrightarrow> trim_spaces (32 # v) = v"
proof (cases v rule: rev_cases)
  case (snoc w b)
  assume v: "legal_value v"
  then have "v ! 0 \<noteq> 32" "b \<noteq> 32" using snoc by (auto simp: legal_value_def)
  moreover have "dropWhile (\<lambda>b. b = 32) v = v" using calculation(1) snoc
    by (auto simp: dropWhile_eq_self_iff hd_conv_nth)
  ultimately show ?thesis using snoc by (simp add: trim_spaces_def)
qed (simp add: trim_spaces_def)

lemma legal_name_bytes: "legal_name n \<Longrightarrow> b \<in> set n \<Longrightarrow> b \<noteq> 13 \<and> b \<noteq> 58"
  by (auto simp: legal_name_def list_all_iff is_alnum_def ascii_def word_le_nat_alt)

lemma legal_value_bytes: "legal_value v \<Longrightarrow> b \<in> set v \<Longrightarrow> b \<noteq> 13"
  by (auto simp: legal_value_def list_all_iff word_le_nat_alt)

lemma parse_header_line:
  assumes "legal_header h"
  shows "parse_header (fst h @ ascii '': '' @ snd h) = Inr h" and "13 \<notin> set (fst h @ ascii '': '' @ snd h)"
    and "header_line h = (fst h @ ascii '': '' @ snd h) @ crlf" and "fst h @ ascii '': '' @ snd h \<noteq> []"
proof -
  from assms have n: "legal_name (fst h)" and v: "legal_value (snd h)" by (simp_all add: legal_header_def)
  have "takeWhile (\<lambda>b. b \<noteq> 58) (fst h @ ascii '': '' @ snd h) = fst h"
    using legal_name_bytes [OF n] by (subst takeWhile_append2) (auto simp: ascii_def)
  then show "parse_header (fst h @ ascii '': '' @ snd h) = Inr h"
    using n v trim_spaces_legal [OF v] by (simp add: parse_header_def ascii_def)
  show "13 \<notin> set (fst h @ ascii '': '' @ snd h)"
    using legal_name_bytes [OF n] legal_value_bytes [OF v] by (auto simp: ascii_def)
qed (simp_all add: header_line_def ascii_def)

lemma parse_headers_complete:
  assumes "list_all legal_header hs" and "length hs \<le> n"
  shows "parse_headers n (header_lines hs @ crlf @ rest) = Inr (Some (hs, rest))"
  using assms
proof (induction hs arbitrary: n)
  case Nil
  show ?case using take_line_full [of "[]" rest] by (cases n) simp_all
next
  case (Cons h hs)
  from Cons.prems obtain m where n: "n = Suc m" by (cases n) auto
  from Cons.prems have h: "legal_header h" by simp
  note p = parse_header_line [OF h]
  have "take_line (header_lines (h # hs) @ crlf @ rest) = Some (fst h @ ascii '': '' @ snd h, header_lines hs @ crlf @ rest)"
    using take_line_full [OF p(2), of "header_lines hs @ crlf @ rest"] p(3) by simp
  then show ?case using Cons.IH [of m] Cons.prems p(1,4) n by simp
qed

lemma parse_headers_partial:
  assumes "list_all legal_header hs" and "length hs \<le> n" and "strict_prefix p (header_lines hs @ crlf)"
  shows "parse_headers n p = Inr None"
  using assms
proof (induction hs arbitrary: n p)
  case Nil
  then have "prefix p ([] @ [13])"
    by (cases p; cases "tl p") (auto simp: strict_prefix_def prefix_def Cons_eq_append_conv)
  then have "take_line p = None" by (intro take_line_none [of "[]"]) simp_all
  then show ?case by (cases n) simp_all
next
  case (Cons h hs)
  from Cons.prems obtain m where n: "n = Suc m" by (cases n) auto
  from Cons.prems have h: "legal_header h" by simp
  note q = parse_header_line [OF h]
  from Cons.prems(3) have sp: "strict_prefix p ((fst h @ ascii '': '' @ snd h) @ crlf @ header_lines hs @ crlf)"
    using q(3) by simp
  from prefix_line_cases [OF prefix_order.less_imp_le [OF sp]] show ?case
  proof cases
    case 1
    then show ?thesis using take_line_none [OF q(2)] n by simp
  next
    case (2 p')
    then have "strict_prefix p' (header_lines hs @ crlf)" using sp by (auto simp: strict_prefix_def)
    then have "parse_headers m p' = Inr None" using Cons.IH Cons.prems n by simp
    then show ?thesis using take_line_full [OF q(2), of p'] 2(1) q(1,4) n by simp
  qed
qed

subsection \<open>Start lines\<close>

definition parse_version :: "bytes \<Rightarrow> nat option" where
  "parse_version v = (if v = ascii ''HTTP/1.1'' then Some 1 else if v = ascii ''HTTP/1.0'' then Some 0 else None)"

definition parse_request :: "nat \<Rightarrow> bytes \<Rightarrow> httparse_error + parsed_request option" where
  "parse_request n src =
     (case take_line src of
        None \<Rightarrow> Inr None
      | Some (l, r) \<Rightarrow>
          let m = takeWhile (\<lambda>b. b \<noteq> 32) l; l1 = drop (length m + 1) l;
              p = takeWhile (\<lambda>b. b \<noteq> 32) l1; v = drop (length p + 1) l1
          in (case parse_version v of
                None \<Rightarrow> Inl Version
              | Some v \<Rightarrow> map_sum id (map_option (\<lambda>(hs, s). \<lparr>pq_method = Some m, pq_path = Some p,
                    pq_version = Some v, pq_headers = hs, pq_len = length src - length s\<rparr>)) (parse_headers n r)))"

definition parse_decimal3 :: "bytes \<Rightarrow> nat option" where
  "parse_decimal3 ds = (if length ds = 3 \<and> list_all (\<lambda>b. 48 \<le> b \<and> b \<le> 57) ds
     then Some (foldl (\<lambda>n b. n * 10 + (unat b - 48)) 0 ds) else None)"

definition parse_response :: "nat \<Rightarrow> bytes \<Rightarrow> httparse_error + parsed_response option" where
  "parse_response n src =
     (case take_line src of
        None \<Rightarrow> Inr None
      | Some (l, r) \<Rightarrow>
          (case (parse_version (take 8 l), parse_decimal3 (take 3 (drop 9 l))) of
             (None, _) \<Rightarrow> Inl Version
           | (Some v, None) \<Rightarrow> Inl Status
           | (Some v, Some c) \<Rightarrow> map_sum id (map_option (\<lambda>(hs, s). \<lparr>pr_version = Some v,
                 pr_code = Some (of_nat c), pr_headers = hs, pr_len = length src - length s\<rparr>)) (parse_headers n r)))"

text \<open>The parser takes any target without a space and a carriage return.\<close>

definition one_word :: "bytes \<Rightarrow> bool" where
  "one_word p \<longleftrightarrow> 13 \<notin> set p \<and> 32 \<notin> set p"

lemma legal_target_one_word: "legal_target p \<Longrightarrow> one_word p"
  by (auto simp: one_word_def legal_target_def list_all_iff is_alnum_def ascii_def word_le_nat_alt)

lemma request_line:
  assumes "one_word p"
  shows "take_line (ascii ''GET '' @ p @ ascii '' HTTP/1.1'' @ crlf @ r) = Some (ascii ''GET '' @ p @ ascii '' HTTP/1.1'', r)"
    and "prefix q ((ascii ''GET '' @ p @ ascii '' HTTP/1.1'') @ [13]) \<Longrightarrow> take_line q = None"
    and "takeWhile (\<lambda>b. b \<noteq> 32) (ascii ''GET '' @ p @ ascii '' HTTP/1.1'') = ascii ''GET''"
    and "takeWhile (\<lambda>b. b \<noteq> 32) (p @ ascii '' HTTP/1.1'') = p"
proof -
  have no: "13 \<notin> set (ascii ''GET '' @ p @ ascii '' HTTP/1.1'')"
    using assms by (auto simp: one_word_def ascii_def)
  from take_line_full [OF this, of r] show
    "take_line (ascii ''GET '' @ p @ ascii '' HTTP/1.1'' @ crlf @ r) = Some (ascii ''GET '' @ p @ ascii '' HTTP/1.1'', r)"
    by simp
  show "take_line q = None" if "prefix q ((ascii ''GET '' @ p @ ascii '' HTTP/1.1'') @ [13])"
    by (rule take_line_none [OF no that])
  show "takeWhile (\<lambda>b. b \<noteq> 32) (p @ ascii '' HTTP/1.1'') = p"
    using assms by (subst takeWhile_append2) (auto simp: one_word_def ascii_def)
qed (simp add: ascii_def)

lemma parse_request_complete:
  assumes "one_word p" and "list_all legal_header hs" and "length hs \<le> n"
  shows "parse_request n (request_text p hs @ rest) = Inr (Some \<lparr>pq_method = Some (ascii ''GET''), pq_path = Some p,
       pq_version = Some 1, pq_headers = hs, pq_len = length (request_text p hs)\<rparr>)"
proof -
  have "drop (length (ascii ''GET'') + 1) (ascii ''GET '' @ p @ ascii '' HTTP/1.1'') = p @ ascii '' HTTP/1.1''"
    by (simp add: ascii_def)
  moreover have "drop (length p + 1) (p @ ascii '' HTTP/1.1'') = ascii ''HTTP/1.1''"
    by (simp add: ascii_def)
  ultimately show ?thesis
    using request_line [OF assms(1)] parse_headers_complete [OF assms(2,3), of rest]
    by (simp add: parse_request_def request_text_def parse_version_def Let_def)
qed

lemma parse_request_partial:
  assumes "one_word p" and "list_all legal_header hs" and "length hs \<le> n" and "strict_prefix s (request_text p hs)"
  shows "parse_request n s = Inr None"
proof -
  from assms(4) have sp: "strict_prefix s ((ascii ''GET '' @ p @ ascii '' HTTP/1.1'') @ crlf @ header_lines hs @ crlf)"
    by (simp add: request_text_def)
  from prefix_line_cases [OF prefix_order.less_imp_le [OF sp]] show ?thesis
  proof cases
    case 1
    then show ?thesis using request_line(2) [OF assms(1)] by (simp add: parse_request_def)
  next
    case (2 p')
    then have "strict_prefix p' (header_lines hs @ crlf)" using sp by (auto simp: strict_prefix_def)
    from parse_headers_partial [OF assms(2,3) this] have h: "parse_headers n p' = Inr None" .
    have "drop (length (ascii ''GET'') + 1) (ascii ''GET '' @ p @ ascii '' HTTP/1.1'') = p @ ascii '' HTTP/1.1''"
      by (simp add: ascii_def)
    moreover have "drop (length p + 1) (p @ ascii '' HTTP/1.1'') = ascii ''HTTP/1.1''"
      by (simp add: ascii_def)
    ultimately show ?thesis
      using request_line [OF assms(1)] h 2(1) by (simp add: parse_request_def parse_version_def Let_def)
  qed
qed

lemma parse_decimal3_decimal3:
  assumes "100 \<le> c" and "c < 1000"
  shows "parse_decimal3 (decimal3 c) = Some c" and "13 \<notin> set (decimal3 c)"
proof -
  have digits: "c div 100 < 10" "c div 10 mod 10 < 10" "c mod 10 < 10" using assms by auto
  have u: "unat (word_of_nat (48 + k) :: byte) = 48 + k" if "k < 10" for k
    using that by (simp add: unat_of_nat del: of_nat_add)
  have ne: "word_of_nat (48 + k) \<noteq> (13 :: byte)" if "k < 10" for k
  proof
    assume "word_of_nat (48 + k) = (13 :: byte)"
    from arg_cong [OF this, of unat] u [OF that] show False by (simp del: of_nat_add)
  qed
  have le: "(48 :: byte) \<le> word_of_nat (48 + k) \<and> word_of_nat (48 + k) \<le> (57 :: byte)" if "k < 10" for k
    using u [OF that] that by (simp add: word_le_nat_alt del: of_nat_add)
  have "c div 100 = c div 10 div 10" by (simp add: div_mult2_eq [symmetric])
  then have sum: "(c div 100 * 10 + c div 10 mod 10) * 10 + c mod 10 = c" by (simp only: div_mult_mod_eq)
  show "parse_decimal3 (decimal3 c) = Some c"
    using le [OF digits(1)] le [OF digits(2)] le [OF digits(3)] u [OF digits(1)] u [OF digits(2)] u [OF digits(3)] sum
    by (simp add: parse_decimal3_def decimal3_def del: of_nat_add)
  show "13 \<notin> set (decimal3 c)"
    using ne [OF digits(1)] ne [OF digits(2)] ne [OF digits(3)] by (auto simp: decimal3_def simp del: of_nat_add)
qed

lemma status_line:
  assumes "100 \<le> c" and "c < 1000" and "legal_value reason"
  defines "l \<equiv> ascii ''HTTP/1.1 '' @ decimal3 c @ ascii '' '' @ reason"
  shows "take_line (l @ crlf @ r) = Some (l, r)" and "prefix q (l @ [13]) \<Longrightarrow> take_line q = None"
    and "parse_version (take 8 l) = Some 1" and "parse_decimal3 (take 3 (drop 9 l)) = Some c"
proof -
  have no: "13 \<notin> set l"
    using parse_decimal3_decimal3(2) [OF assms(1,2)] legal_value_bytes [OF assms(3)] by (auto simp: l_def ascii_def)
  show "take_line (l @ crlf @ r) = Some (l, r)" by (rule take_line_full [OF no])
  show "take_line q = None" if "prefix q (l @ [13])" by (rule take_line_none [OF no that])
  show "parse_version (take 8 l) = Some 1" by (simp add: l_def parse_version_def ascii_def)
  have "take 3 (drop 9 l) = decimal3 c" by (simp add: l_def ascii_def decimal3_def)
  then show "parse_decimal3 (take 3 (drop 9 l)) = Some c" using parse_decimal3_decimal3(1) [OF assms(1,2)] by simp
qed

lemma parse_response_complete:
  assumes "100 \<le> c" and "c < 1000" and "legal_value reason" and "list_all legal_header hs" and "length hs \<le> n"
  shows "parse_response n (response_text c reason hs @ rest) = Inr (Some \<lparr>pr_version = Some 1, pr_code = Some (of_nat c),
       pr_headers = hs, pr_len = length (response_text c reason hs)\<rparr>)"
  using status_line [OF assms(1-3)] parse_headers_complete [OF assms(4,5), of rest]
  by (simp add: parse_response_def response_text_def)

lemma parse_response_partial:
  assumes "100 \<le> c" and "c < 1000" and "legal_value reason" and "list_all legal_header hs" and "length hs \<le> n"
    and "strict_prefix s (response_text c reason hs)"
  shows "parse_response n s = Inr None"
proof -
  note st = status_line [OF assms(1-3)]
  from assms(6) have sp: "strict_prefix s ((ascii ''HTTP/1.1 '' @ decimal3 c @ ascii '' '' @ reason) @ crlf @ header_lines hs @ crlf)"
    by (simp add: response_text_def)
  from prefix_line_cases [OF prefix_order.less_imp_le [OF sp]] show ?thesis
  proof cases
    case 1
    then show ?thesis using st(2) by (simp add: parse_response_def)
  next
    case (2 p')
    then have "strict_prefix p' (header_lines hs @ crlf)" using sp by (auto simp: strict_prefix_def)
    from parse_headers_partial [OF assms(4,5) this] show ?thesis
      using st(1,3,4) 2(1) by (simp add: parse_response_def)
  qed
qed

subsection \<open>The library\<close>

text \<open>A header map is an association list from lower-case names, the newest entry first.\<close>

type_synonym header_list = "(bytes \<times> bytes) list"

definition list_keys :: "header_list \<Rightarrow> bytes list" where
  "list_keys h = rev (remdups (map fst h))"

definition list_get_all :: "header_list \<Rightarrow> bytes \<Rightarrow> bytes list" where
  "list_get_all h k = (case map_of h k of None \<Rightarrow> [] | Some v \<Rightarrow> [v])"

definition plain_http :: "header_list http_lib" where
  "plain_http = \<lparr>request_parse = parse_request, response_parse = parse_response, method_from_bytes = Some,
     uri_from_str = (\<lambda>p. if legal_target p then Some p else None), status_from_u16 = Some,
     header_name = (\<lambda>n. if legal_name n then Some (lower n) else None),
     header_value = (\<lambda>v. if legal_value v then Some v else None), to_str = Some,
     hm_new = [], hm_insert = (\<lambda>h n v. (n, v) # h), hm_get = (\<lambda>h n. map_of h (lower n)), hm_keys = list_keys,
     hm_get_all = list_get_all, hm_iter = (\<lambda>h. map (\<lambda>k. (k, the (map_of h k))) (list_keys h))\<rparr>"

lemma list_keys_get_all: "k \<in> set (list_keys h) \<Longrightarrow> list_get_all h k = [the (map_of h k)]"
  by (auto simp: list_keys_def list_get_all_def map_of_eq_None_iff split: option.split)

interpretation plain: http_library plain_http
proof unfold_locales
  show "length (hm_iter plain_http h) = (\<Sum>k\<leftarrow>hm_keys plain_http h. length (hm_get_all plain_http h k))" for h
  proof -
    have "(\<Sum>k\<leftarrow>ks. length (list_get_all h k)) = length ks" if "set ks \<subseteq> set (list_keys h)" for ks
      using that by (induction ks) (auto simp: list_keys_get_all)
    then show ?thesis by (simp add: plain_http_def)
  qed
  show "set (hm_iter plain_http h) = {(k, v). k \<in> set (hm_keys plain_http h) \<and> v \<in> set (hm_get_all plain_http h k)}" for h
    by (auto simp: plain_http_def list_keys_get_all)
qed (simp_all add: plain_http_def parse_request_complete [OF legal_target_one_word] parse_request_partial [OF legal_target_one_word]
    parse_response_complete parse_response_partial list_keys_def list_get_all_def insert_absorb)

subsection \<open>A transport in memory\<close>

record memory_io =
  mem_reads :: "read_event list"
  mem_sent :: bytes

definition memory_next ::
  "'i decoder \<Rightarrow> memory_io \<Rightarrow> ((error + 'i) option \<times> memory_io \<times> unit \<times> bytes) option" where
  "memory_next dec s = map_option (\<lambda>(r, b, evs). (r, s\<lparr>mem_reads := evs\<rparr>, (), b)) (framed_run dec [] (mem_reads s))"

definition memory_net :: "(memory_io, unit, header_list) net" where
  "memory_net = \<lparr>write_all = (\<lambda>s bs. (Inr (), s\<lparr>mem_sent := mem_sent s @ bs\<rparr>)), io_flush = (\<lambda>s. (Inr (), s)),
     next_request = memory_next, next_response = memory_next\<rparr>"

interpretation memory: handshake_io memory_net mem_sent mem_reads
  by unfold_locales (auto simp: memory_net_def memory_next_def split: option.split)

lemma memory_writes_succeed: "writes_succeed memory_net"
  by (simp add: writes_succeed_def memory_net_def)

end
