(* ===== verification/Opening.thy ===== *)
theory Opening
  imports Plain_Http
begin

text \<open>
  The properties of the opening handshake, each with a run of it on the parser, the header map and
  the transport of \<open>Plain_Http\<close>.
\<close>

subsection \<open>Concrete ends\<close>

definition example_uri :: uri where
  "example_uri = \<lparr>uri_scheme_str = Some (ascii ''ws''), uri_host = Some (ascii ''example.org''), uri_port_u16 = None,
     uri_path = ascii ''/chat'', uri_query = Some (ascii ''room=1'')\<rparr>"

definition example_client :: "(unit, header_list) client_builder" where
  "example_client = client_from_uri plain_http example_uri"

definition example_server :: "header_list server_builder" where
  "example_server = server_new plain_http"

definition example_key :: bytes where
  "example_key = [1, 2, 3, 4, 5, 6, 7, 8, 9, 10, 11, 12, 13, 14, 15, 16]"

definition memory_of :: "bytes list \<Rightarrow> memory_io" where
  "memory_of cs = \<lparr>mem_reads = map Chunk cs @ [End_Of_Stream], mem_sent = []\<rparr>"

lemma example_request: "legal_request plain_http example_uri (cb_headers example_client)"
  using client_new_built [of plain_http example_uri]
  by (simp add: legal_request_def example_client_def example_uri_def uri_target_def host_headers_def legal_target_def
      legal_header_def legal_name_ascii legal_value_def ascii_def is_alnum_def legal_name_def)
    (simp add: client_from_uri_def plain_http_def list_keys_def)

lemma example_answer: "legal_answer plain_http (sb_headers example_server)"
  using server_new_built [of plain_http] by (simp add: legal_answer_def example_server_def)
    (simp add: server_new_def plain_http_def list_keys_def)

lemma example_simps [simp]:
  "cb_uri example_client = Some example_uri" "length example_key = 16"
  "mem_reads (memory_of cs) = map Chunk cs @ [End_Of_Stream]" "mem_sent (memory_of cs) = []"
  by (simp_all add: example_client_def client_from_uri_def example_key_def memory_of_def)

lemmas example_world = plain.http_library_axioms rfc.crypto_lib_axioms memory.handshake_io_axioms

subsection \<open>The handshake\<close>

text \<open>The handshake of the two ends, with the streams it makes.\<close>

lemma handshake_run:
  assumes "http_library H" and "crypto_lib K"
    and "handshake_io Nc sentc readsc" and "handshake_io Ns sents readss"
    and "writes_succeed Nc" and "writes_succeed Ns"
    and "cb_uri cb = Some u" and "legal_request H u (cb_headers cb)" and "legal_answer H (sb_headers sb)"
    and "length key_bytes = 16" and key: "key = base64_encode K key_bytes"
    and resp: "resp = switching_protocols_response H (sb_headers sb) (ws_accept K (digest K key))"
    and sread: "readss st = map Chunk cs @ evs" "concat cs = build_request H u key (cb_headers cb) @ early"
    and cread: "readsc ct = map Chunk cs' @ evs'" "concat cs' = resp @ early'"
  shows "\<exists>rq rs i f rest i' f' rest' k k'.
    accept H K Ns sb st = Some (Inr (rq, after_handshake i f rest Server (sb_config sb) (sb_limits sb))) \<and>
    connect_on H K Nc key_bytes cb ct = Some (Inr (after_handshake i' f' rest' Client (cb_config cb) (cb_limits cb), rs)) \<and>
    rq_uri rq = uri_target u \<and> rs_status rs = 101 \<and> sents i = sents st @ resp \<and>
    sentc i' = sentc ct @ build_request H u key (cb_headers cb) \<and>
    readss i = map Chunk (drop k cs) @ evs \<and> rest @ concat (drop k cs) = early \<and>
    readsc i' = map Chunk (drop k' cs') @ evs' \<and> rest' @ concat (drop k' cs') = early'"
proof -
  note H = assms(1) and K = assms(2)
  have key_ok: "legal_value key" by (simp add: key crypto_lib.base64_legal_value [OF K])
  have acc_ok: "legal_value (ws_accept K (digest K key))"
    by (simp add: ws_accept_def crypto_lib.base64_legal_value [OF K])
  have target: "legal_target (uri_target u)" using assms(8) by (simp add: legal_request_def)
  note hs = http_library.request_headers_legal [OF H assms(8) key_ok]
  obtain hm where hm: "\<And>rest. request_decode H K (sb_headers sb) (build_request H u key (cb_headers cb) @ rest) =
    Some (Inr (Some (\<lparr>rq_method = ascii ''GET'', rq_uri = uri_target u, rq_version = HTTP_11, rq_headers = hm\<rparr>, resp)), rest)"
    using http_library.request_decode_client [OF H assms(8) key_ok] resp by blast
  obtain k rest where "framed_run (request_decode H K (sb_headers sb)) [] (readss st) =
      Some (Some (Inr (\<lparr>rq_method = ascii ''GET'', rq_uri = uri_target u, rq_version = HTTP_11, rq_headers = hm\<rparr>, resp)),
        rest, map Chunk (drop k cs) @ evs)" and rest: "rest @ concat (drop k cs) = early"
    using http_library.request_run [OF H target hs hm [unfolded build_request_text] _ sread(2) [unfolded build_request_text]]
    unfolding sread(1) by fastforce
  from accept_run [OF assms(4) H assms(6) this(1)] obtain i f where
    srv: "accept H K Ns sb st = Some (Inr (\<lparr>rq_method = ascii ''GET'', rq_uri = uri_target u, rq_version = HTTP_11,
        rq_headers = hm\<rparr>, after_handshake i f rest Server (sb_config sb) (sb_limits sb)))"
      "sents i = sents st @ resp" "readss i = map Chunk (drop k cs) @ evs" by auto
  obtain hm' where hm': "\<And>rest. response_decode H K (digest K key) (resp @ rest) =
    Some (Inr (Some \<lparr>rs_status = 101, rs_version = HTTP_11, rs_headers = hm'\<rparr>), rest)"
    using http_library.response_decode_server [OF H assms(9) K] resp by blast
  have "\<exists>k' rest'. framed_run (response_decode H K (digest K key)) [] (map Chunk cs' @ evs') =
      Some (Some (case Inr (Some \<lparr>rs_status = 101, rs_version = HTTP_11, rs_headers = hm'\<rparr>) of Inl e \<Rightarrow> Inl e | Inr i \<Rightarrow> Inr (the i)),
        rest', map Chunk (drop k' cs') @ evs') \<and> rest' @ concat (drop k' cs') = early'"
    by (rule framed_run_chunks [OF http_library.response_waits [OF H assms(9) acc_ok] hm' [unfolded resp]])
      (simp_all add: cread(2) resp)
  then obtain k' rest' where "framed_run (response_decode H K (digest K key)) [] (readsc ct) =
      Some (Some (Inr \<lparr>rs_status = 101, rs_version = HTTP_11, rs_headers = hm'\<rparr>), rest', map Chunk (drop k' cs') @ evs')"
    and rest': "rest' @ concat (drop k' cs') = early'" unfolding cread(1) by auto
  from connect_run [OF assms(3) H K assms(5,7,10) key this(1)] obtain i' f' where
    cli: "connect_on H K Nc key_bytes cb ct = Some (Inr (after_handshake i' f' rest' Client (cb_config cb) (cb_limits cb),
        \<lparr>rs_status = 101, rs_version = HTTP_11, rs_headers = hm'\<rparr>))"
      "sentc i' = sentc ct @ build_request H u key (cb_headers cb)" "readsc i' = map Chunk (drop k' cs') @ evs'" by auto
  show ?thesis
    by (rule exI, rule exI, intro exI conjI) (rule srv cli rest rest' | simp)+
qed

text \<open>
  C13: The two ends of the handshake fit each other. For every URI with a plain host and target, every key, any plain headers that the
  two builders accept (of at most 59 and 22 names, so that the heads fit into the 64 and 25 headers the parsers have room for) and
  any cutting of the bytes into reads, the server answers the request of
  the client, the client takes the answer, each end writes exactly its head, and what follows the
  heads on the wire is kept for the WebSocket streams: a first part of it is in their read buffers, and the rest is still unread.
\<close>

theorem handshake_connects:
  assumes "http_library H" and "crypto_lib K"
    and "handshake_io Nc sentc readsc" and "handshake_io Ns sents readss"
    and "writes_succeed Nc" and "writes_succeed Ns"
    and "cb_uri cb = Some u" and "legal_request H u (cb_headers cb)" and "legal_answer H (sb_headers sb)"
    and "length key_bytes = 16" and key: "key = base64_encode K key_bytes"
    and resp: "resp = switching_protocols_response H (sb_headers sb) (ws_accept K (digest K key))"
    and sread: "readss st = map Chunk cs @ evs" "concat cs = build_request H u key (cb_headers cb) @ early"
    and cread: "readsc ct = map Chunk cs' @ evs'" "concat cs' = resp @ early'"
  shows "\<exists>rq wss rs wsc k k'.
    accept H K Ns sb st = Some (Inr (rq, wss)) \<and> connect_on H K Nc key_bytes cb ct = Some (Inr (wsc, rs)) \<and>
    rq_uri rq = uri_target u \<and> rs_status rs = 101 \<and> state wss = Active \<and> state wsc = Active \<and>
    decoder (inner wss) = protocol_new Server (sb_limits sb) \<and> decoder (inner wsc) = protocol_new Client (cb_limits cb) \<and>
    sents (io (inner wss)) = sents st @ resp \<and>
    sentc (io (inner wsc)) = sentc ct @ build_request H u key (cb_headers cb) \<and>
    readss (io (inner wss)) = map Chunk (drop k cs) @ evs \<and> buffer (inner wss) @ concat (drop k cs) = early \<and>
    readsc (io (inner wsc)) = map Chunk (drop k' cs') @ evs' \<and> buffer (inner wsc) @ concat (drop k' cs') = early'"
proof -
  from handshake_run [OF assms] show ?thesis by (fastforce simp: after_handshake_def from_framed_def)
qed

theorem handshake_connects_witness:
  "\<exists>rq wss rs wsc. let req = build_request plain_http example_uri (b64_encode example_key) (cb_headers example_client);
       resp = switching_protocols_response plain_http (sb_headers example_server)
         (ws_accept rfc_crypto (digest rfc_crypto (b64_encode example_key))) in
     accept plain_http rfc_crypto memory_net example_server (memory_of [take 7 req, drop 7 req @ [0x89, 0x80]]) = Some (Inr (rq, wss)) \<and>
     connect_on plain_http rfc_crypto memory_net example_key example_client (memory_of [resp]) = Some (Inr (wsc, rs)) \<and>
     rq_uri rq = ascii ''/chat?room=1'' \<and> rs_status rs = 101 \<and> mem_sent (io (inner wss)) = resp \<and>
     mem_sent (io (inner wsc)) = req \<and> buffer (inner wsc) = []"
proof -
  have b64: "base64_encode rfc_crypto = b64_encode" by (simp add: rfc_crypto_def)
  define req where "req = build_request plain_http example_uri (b64_encode example_key) (cb_headers example_client)"
  define resp where "resp = switching_protocols_response plain_http (sb_headers example_server)
    (ws_accept rfc_crypto (digest rfc_crypto (b64_encode example_key)))"
  have target: "uri_target example_uri = ascii ''/chat?room=1''" by (simp add: uri_target_def example_uri_def ascii_def)
  show ?thesis
    using handshake_connects [OF example_world(1,2,3,3) memory_writes_succeed memory_writes_succeed example_simps(1)
        example_request example_answer example_simps(2) refl refl example_simps(3), of "[take 7 req, drop 7 req @ [0x89, 0x80]]"
        "[0x89, 0x80]" "memory_of [resp]" "[resp]" "[End_Of_Stream]" "[]"]
    by (auto simp: b64 target Let_def simp flip: req_def resp_def)
qed

text \<open>
  C36: A plain request that fails one of the server's checks is answered with \<open>400 Bad Request\<close> and
  nothing else, and \<open>accept\<close> returns the error of the check. A client that reads this answer, however
  it is cut, fails with the status 400.
\<close>

theorem refused_handshake:
  assumes "http_library H" and "crypto_lib K"
    and "handshake_io Nc sentc readsc" and "handshake_io Ns sents readss"
    and "writes_succeed Nc" and "writes_succeed Ns"
    and plain: "legal_target p" "list_all legal_header hs" "length hs \<le> 64"
    and bad: "client_request_parse K (\<lambda>k. map_of (rev (lower_headers hs)) (lower (ascii k))) = Inl e"
    and sread: "readss st = map Chunk cs @ evs" "concat cs = request_text p hs @ early"
    and "cb_uri cb = Some u" and "length key_bytes = 16"
    and cread: "readsc ct = map Chunk cs' @ evs'" "concat cs' = BAD_REQUEST @ early'"
  shows "\<exists>i i'. accept H K Ns sb st = Some (Inl (Upgrade e, i)) \<and> sents i = sents st @ BAD_REQUEST \<and>
    connect_on H K Nc key_bytes cb ct = Some (Inl (Upgrade (DidNotSwitchProtocols 400), i'))"
proof -
  note H = assms(1)
  have dec: "request_decode H K (sb_headers sb) (request_text p hs @ rest) = Some (Inl (Upgrade e), request_text p hs @ rest)"
    for rest using http_library.request_decode_plain [OF H plain, of K "sb_headers sb"] bad by simp
  obtain rb evs1 where run: "framed_run (request_decode H K (sb_headers sb)) [] (readss st) = Some (Some (Inl (Upgrade e)), rb, evs1)"
    using http_library.request_run [OF H plain dec _ sread(2)] unfolding sread(1) by fastforce
  define d where "d = digest K (base64_encode K key_bytes)"
  have "\<exists>k' rest'. framed_run (response_decode H K d) [] (map Chunk cs' @ evs') =
      Some (Some (case Inl (Upgrade (DidNotSwitchProtocols 400)) of Inl e \<Rightarrow> Inl e | Inr i \<Rightarrow> Inr (the i)),
        BAD_REQUEST @ rest', map Chunk (drop k' cs') @ evs') \<and> rest' @ concat (drop k' cs') = early'"
    by (rule framed_run_chunks [OF http_library.bad_request_waits [OF H] http_library.response_decode_bad_request [OF H]])
      (simp_all add: cread(2))
  then obtain rb' evs2 where run': "framed_run (response_decode H K d) [] (readsc ct) =
      Some (Some (Inl (Upgrade (DidNotSwitchProtocols 400))), rb', evs2)" unfolding cread(1) by auto
  show ?thesis
    using accept_run [OF assms(4) H assms(6) run]
      connect_run [OF assms(3) H assms(2) assms(5) assms(13,14) refl run' [unfolded d_def]] by auto
qed

theorem refused_handshake_witness:
  "\<exists>i i'. accept plain_http rfc_crypto memory_net example_server
       (memory_of [request_text (ascii ''/chat'') [(ascii ''Upgrade'', ascii ''h2c'')]]) = Some (Inl (Upgrade UpgradeNotWebSocket, i)) \<and>
     mem_sent i = BAD_REQUEST \<and>
     connect_on plain_http rfc_crypto memory_net example_key example_client (memory_of [BAD_REQUEST]) =
       Some (Inl (Upgrade (DidNotSwitchProtocols 400), i'))"
proof -
  have plain: "legal_target (ascii ''/chat'')" "list_all legal_header [(ascii ''Upgrade'', ascii ''h2c'')]"
    by (simp_all add: legal_target_def legal_header_def legal_name_def legal_value_def ascii_def is_alnum_def)
  have bad: "client_request_parse rfc_crypto (\<lambda>k. map_of (rev (lower_headers [(ascii ''Upgrade'', ascii ''h2c'')])) (lower (ascii k)))
      = Inl UpgradeNotWebSocket"
    by (simp add: client_request_parse_def check_header_def find_header_def lower_ascii eq_ignore_ascii_case_def ascii_def
        to_ascii_lowercase_def)
  show ?thesis
    using refused_handshake [where sb = example_server and early = "[]" and early' = "[]" and
        st = "memory_of [request_text (ascii ''/chat'') [(ascii ''Upgrade'', ascii ''h2c'')]]" and ct = "memory_of [BAD_REQUEST]",
        OF example_world(1,2,3,3) memory_writes_succeed memory_writes_succeed plain _ bad example_simps(3) _
        example_simps(1,2,3)] by simp
qed

text \<open>
  A client does not take the answer to another client's key, if the digests of the two keys
  differ: however the answer is cut, \<open>connect_on\<close> fails with \<open>WrongWebSocketAccept\<close>.
\<close>

lemma other_key_rejected:
  assumes "http_library H" and "crypto_lib K" and "handshake_io N sent reads" and "writes_succeed N"
    and "cb_uri b = Some u" and "length key_bytes = 16" and "legal_answer H h"
    and other: "digest K key' \<noteq> digest K (base64_encode K key_bytes)"
    and rd: "reads s = map Chunk cs @ evs"
      "concat cs = switching_protocols_response H h (ws_accept K (digest K key')) @ early"
  shows "\<exists>i. connect_on H K N key_bytes b s = Some (Inl (Upgrade WrongWebSocketAccept, i))"
proof -
  note H = assms(1) and K = assms(2)
  let ?acc = "ws_accept K (digest K key')" and ?d = "digest K (base64_encode K key_bytes)"
  have acc: "legal_value ?acc" by (simp add: ws_accept_def crypto_lib.base64_legal_value [OF K])
  have wrong: "check_accept K ?d ?acc = Some (Inl WrongWebSocketAccept)"
    unfolding ws_accept_def
    by (rule crypto_lib.check_accept_wrong [OF K crypto_lib.digest_length [OF K] other])
  have "\<exists>k' rest'. framed_run (response_decode H K ?d) [] (map Chunk cs @ evs) =
      Some (Some (case Inl (Upgrade WrongWebSocketAccept) of Inl e \<Rightarrow> Inl e | Inr i \<Rightarrow> Inr (the i)),
        switching_protocols_response H h ?acc @ rest', map Chunk (drop k' cs) @ evs) \<and> rest' @ concat (drop k' cs) = early"
    by (rule framed_run_chunks [OF http_library.response_waits [OF H assms(7) acc]
          http_library.response_decode_rejects [OF H assms(7) acc wrong]]) (simp_all add: rd(2))
  then obtain rb evs1 where "framed_run (response_decode H K ?d) [] (reads s) =
      Some (Some (Inl (Upgrade WrongWebSocketAccept)), rb, evs1)" unfolding rd(1) by auto
  from connect_run [OF assms(3) H K assms(4-6) refl this] show ?thesis by auto
qed

text \<open>
  C38: An answer with an accept value of more than 20 bytes in base64 aborts the client: the value is
  decoded into a buffer of 20 bytes by the variant of the decoder that panics if they do not suffice.
\<close>

theorem long_accept_value_aborts_client:
  assumes "http_library H" and "crypto_lib K" and "handshake_io N sent reads" and "writes_succeed N"
    and "cb_uri b = Some u" and "length key_bytes = 16" and "legal_answer H h" and "20 < length d"
    and rd: "reads s = map Chunk cs @ evs" "concat cs = switching_protocols_response H h (base64_encode K d) @ early"
  shows "connect_on H K N key_bytes b s = None"
proof -
  note H = assms(1) and K = assms(2)
  have acc: "legal_value (base64_encode K d)" by (rule crypto_lib.base64_legal_value [OF K])
  have "framed_run (response_decode H K (digest K (base64_encode K key_bytes))) [] (map Chunk cs @ evs) = None"
    by (rule framed_run_panics [OF http_library.response_waits [OF H assms(7) acc]
          http_library.response_decode_panics [OF H assms(7) acc crypto_lib.check_accept_long [OF K assms(8)]]])
      (simp_all add: rd(2))
  then have "framed_run (response_decode H K (digest K (base64_encode K key_bytes))) [] (reads s) = None"
    by (simp add: rd(1))
  from connect_panics [OF assms(3) H K assms(4-6) refl this] show ?thesis .
qed

theorem long_accept_value_aborts_client_witness:
  "connect_on plain_http rfc_crypto memory_net example_key example_client
     (memory_of [switching_protocols_response plain_http (sb_headers example_server) (b64_encode (replicate 21 0))]) = None"
  using long_accept_value_aborts_client [OF example_world memory_writes_succeed example_simps(1,2) example_answer _
      example_simps(3), of "replicate 21 0" _ "[]"] by (simp add: rfc_crypto_def)


end
