(* ===== verification/Upgrade_Checks.thy ===== *)
theory Upgrade_Checks
  imports Opening
begin

text \<open>
  What the two codecs of the handshake decide, on the bytes of a head: which requests the server
  accepts and with which error it refuses the others, which responses the client accepts, and a request that
  makes the server panic. The heads are plain (\<open>request_text\<close>, \<open>response_text\<close>): a start line, any legal
  headers in any order, and whatever follows.
\<close>

subsection \<open>Requests\<close>

text \<open>A field of a head by its name in any case; of several lines the last one counts.\<close>

definition last_field :: "(bytes \<times> bytes) list \<Rightarrow> string \<Rightarrow> bytes option" where
  "last_field hs name = map_of (rev (lower_headers hs)) (lower (ascii name))"

text \<open>Why a request is refused, if it is.\<close>

definition refusal :: "(bytes \<times> bytes) list \<Rightarrow> upgrade_error option" where
  "refusal hs =
     (case last_field hs ''Upgrade'' of
        None \<Rightarrow> Some (MissingHeader ''Upgrade'')
      | Some upgrade \<Rightarrow> if lower upgrade \<noteq> ascii ''websocket'' then Some UpgradeNotWebSocket else
     (case last_field hs ''Connection'' of
        None \<Rightarrow> Some (MissingHeader ''Connection'')
      | Some connection \<Rightarrow> if \<not> sublist (ascii ''upgrade'') (lower connection) then Some ConnectionNotUpgrade else
     (case last_field hs ''Sec-WebSocket-Version'' of
        None \<Rightarrow> Some (MissingHeader ''Sec-WebSocket-Version'')
      | Some version \<Rightarrow> if version \<noteq> ascii ''13'' then Some UnsupportedWebSocketVersion else
     (case last_field hs ''Sec-WebSocket-Key'' of
        None \<Rightarrow> Some (MissingHeader ''Sec-WebSocket-Key'')
      | Some key \<Rightarrow> None))))"

text \<open>
  The fields that RFC 6455 asks of a client (4.2.1): \<open>Connection\<close> is a list, and one of its members is
  \<open>Upgrade\<close>; the key is 16 bytes in base64.
\<close>

fun split_commas :: "bytes \<Rightarrow> bytes list" where
  "split_commas [] = [[]]"
| "split_commas (b # bs) =
     (if b = 0x2C then [] # split_commas bs
      else (case split_commas bs of [] \<Rightarrow> [[b]] | w # ws \<Rightarrow> (b # w) # ws))"

definition list_members :: "bytes \<Rightarrow> bytes list" where
  "list_members v = map trim_spaces (split_commas v)"

definition rfc_request :: "crypto \<Rightarrow> (bytes \<times> bytes) list \<Rightarrow> bytes \<Rightarrow> bool" where
  "rfc_request K hs nonce \<longleftrightarrow>
     map_option lower (last_field hs ''Upgrade'') = Some (ascii ''websocket'')
     \<and> (\<exists>connection member. last_field hs ''Connection'' = Some connection \<and> member \<in> set (list_members connection)
          \<and> lower member = ascii ''upgrade'')
     \<and> last_field hs ''Sec-WebSocket-Version'' = Some (ascii ''13'')
     \<and> length nonce = 16 \<and> last_field hs ''Sec-WebSocket-Key'' = Some (base64_encode K nonce)"

lemma split_commas_nonempty [simp]: "split_commas v \<noteq> []"
  by (cases v) (simp_all split: list.split)

lemma split_commas_parts:
  "prefix (hd (split_commas v)) v \<and> (\<forall>t \<in> set (split_commas v). sublist t v)"
proof (induction v)
  case (Cons b v)
  obtain w ws where w: "split_commas v = w # ws" by (cases "split_commas v") simp_all
  have "sublist t (b # v)" if "t \<in> set (split_commas v)" for t
    using Cons.IH that by (simp add: sublist_Cons_right)
  moreover have "prefix (b # w) (b # v)" using Cons.IH w by simp
  moreover from this have "sublist (b # w) (b # v)" by (rule prefix_imp_sublist)
  ultimately show ?case using w by auto
qed simp

lemma trim_spaces_part: "sublist (trim_spaces v) v"
proof -
  have "sublist (rev (dropWhile P (rev xs))) xs" for P :: "byte \<Rightarrow> bool" and xs
    by (simp only: sublist_rev_left) (rule suffix_imp_sublist [OF suffix_dropWhile])
  then show ?thesis unfolding trim_spaces_def
    by (rule sublist_order.order.trans) (rule suffix_imp_sublist [OF suffix_dropWhile])
qed

lemma sublist_lower: "sublist xs ys \<Longrightarrow> sublist (lower xs) (lower ys)"
  unfolding sublist_def by (metis map_append)

lemma list_member_part:
  assumes "m \<in> set (list_members v)"
  shows "sublist (lower m) (lower v)"
proof -
  from assms obtain t where "t \<in> set (split_commas v)" "m = trim_spaces t" by (auto simp: list_members_def)
  then have "sublist m v" using split_commas_parts [of v] trim_spaces_part [of t] sublist_order.order.trans by blast
  then show ?thesis by (rule sublist_lower)
qed

lemma rfc_request_not_refused: "rfc_request K hs nonce \<Longrightarrow> refusal hs = None"
  using list_member_part by (fastforce simp: rfc_request_def refusal_def)

lemma contains_upgrade: "contains_ignore_ascii_case v (ascii ''Upgrade'') \<longleftrightarrow> sublist (ascii ''upgrade'') (lower v)"
proof -
  have "lower (ascii ''Upgrade'') = ascii ''upgrade''" by (simp add: lower_ascii)
  moreover have "(\<exists>p m s. v = p @ m @ s \<and> lower m = x) \<longleftrightarrow> sublist x (lower v)" for x
  proof
    assume "sublist x (lower v)"
    then obtain ps ss where "lower v = ps @ x @ ss" by (auto simp: sublist_def)
    from this [unfolded map_eq_append_conv [of _ v]] obtain p t where "v = p @ t" and t: "x @ ss = lower t" by blast
    moreover from t [symmetric, unfolded map_eq_append_conv [of _ t]] obtain m s where "t = m @ s" "lower m = x" by blast
    ultimately show "\<exists>p m s. v = p @ m @ s \<and> lower m = x" by blast
  next
    assume "\<exists>p m s. v = p @ m @ s \<and> lower m = x"
    then obtain p m s where "v = p @ m @ s" "lower m = x" by blast
    then have "lower v = lower p @ x @ lower s" by auto
    then show "sublist x (lower v)" unfolding sublist_def by blast
  qed
  ultimately show ?thesis by (simp add: contains_ignore_ascii_case_iff eq_ignore_ascii_case_iff)
qed

lemma lower_13: "lower v = ascii ''13'' \<longleftrightarrow> v = ascii ''13''"
proof -
  have letter: "b + 32 \<noteq> c" if "0x41 \<le> b" "b \<le> 0x5A" "c \<le> 0x39" for b c :: byte
    using that by (auto simp: word_le_nat_alt unat_word_ariths)
  have "to_ascii_lowercase b = 0x31 \<longleftrightarrow> b = 0x31" "to_ascii_lowercase b = 0x33 \<longleftrightarrow> b = 0x33" for b
    using letter [where b = b and c = "0x31"] letter [where b = b and c = "0x33"] by (auto simp: to_ascii_lowercase_def)
  then show ?thesis by (auto simp: ascii_def map_eq_Cons_conv)
qed

text \<open>The checks of the code give these refusals.\<close>

lemma parse_refuses:
  "client_request_parse K (\<lambda>k. map_of (rev (lower_headers hs)) (lower (ascii k))) =
     (case refusal hs of Some e \<Rightarrow> Inl e | None \<Rightarrow> Inr (digest K (the (last_field hs ''Sec-WebSocket-Key''))))"
proof -
  have low: "lower (ascii ''websocket'') = ascii ''websocket''" "lower (ascii ''13'') = ascii ''13''"
    by (simp_all add: ascii_def to_ascii_lowercase_def)
  show ?thesis
    unfolding client_request_parse_def check_header_def check_header_contains_def find_header_def refusal_def
      last_field_def [symmetric] eq_ignore_ascii_case_iff contains_upgrade low lower_13
    by (simp split: option.split)
qed

text \<open>
  C7: What the server makes of a request. For every plain request, with any legal headers in any order
  and whatever follows it: the codec refuses it with the first of these errors and takes nothing from the buffer (\<open>refusal\<close>):
  \<open>Upgrade\<close> is missing or not \<open>websocket\<close>, \<open>Connection\<close> is missing or has no part \<open>upgrade\<close>, \<open>Sec-WebSocket-Version\<close> is missing
  or not \<open>13\<close>, \<open>Sec-WebSocket-Key\<close> is missing (words in any case; of several lines with one name the last one counts). Otherwise it takes exactly
  the request, and answers with status 101 and base64 of SHA-1 of the key, as it is, with the GUID. A request with the fields that
  RFC 6455 asks for, where \<open>Upgrade\<close> is a member of the list in (the last) \<open>Connection\<close> and the key is base64 of 16 bytes,
  is among those that are accepted.
\<close>

theorem client_request_accepted_iff:
  assumes "http_library H" and "legal_target p" and "list_all legal_header hs" and "length hs \<le> 64"
  shows "(\<exists>rq. rq_uri rq = p \<and> (\<forall>rest. request_decode H K rhs (request_text p hs @ rest) = Some (case refusal hs of
        Some e \<Rightarrow> (Inl (Upgrade e), request_text p hs @ rest)
      | None \<Rightarrow> (Inr (Some (rq, switching_protocols_response H rhs (base64_encode K (sha1 K
          (the (last_field hs ''Sec-WebSocket-Key'') @ ascii ''258EAFA5-E914-47DA-95CA-C5AB0DC85B11''))))), rest))))
    \<and> (rfc_request K hs nonce \<longrightarrow> refusal hs = None)"
proof -
  from http_library.request_decode_plain [OF assms, of K rhs] obtain hm where
    hm: "\<And>rest. request_decode H K rhs (request_text p hs @ rest) =
      Some (case client_request_parse K (\<lambda>k. map_of (rev (lower_headers hs)) (lower (ascii k))) of
        Inl e \<Rightarrow> (Inl (Upgrade e), request_text p hs @ rest)
      | Inr d \<Rightarrow> (Inr (Some (\<lparr>rq_method = ascii ''GET'', rq_uri = p, rq_version = HTTP_11, rq_headers = hm\<rparr>,
          switching_protocols_response H rhs (ws_accept K d))), rest))" by blast
  show ?thesis
    by (intro conjI exI [of _ "\<lparr>rq_method = ascii ''GET'', rq_uri = p, rq_version = HTTP_11, rq_headers = hm\<rparr>"])
      (simp_all add: hm parse_refuses ws_accept_def digest_def GUID_def rfc_request_not_refused split: option.split)
qed

text \<open>
  A request as a browser sends it, with two members in \<open>Connection\<close>.
\<close>

definition browser_headers :: "(bytes \<times> bytes) list" where
  "browser_headers = [(ascii ''Host'', ascii ''example.org''), (ascii ''Connection'', ascii ''keep-alive, Upgrade''),
     (ascii ''Upgrade'', ascii ''WebSocket''), (ascii ''Sec-WebSocket-Version'', ascii ''13''),
     (ascii ''Sec-WebSocket-Key'', b64_encode example_key)]"

lemma browser_headers_legal: "list_all legal_header browser_headers" "length browser_headers \<le> 64"
proof -
  have "base64_encode rfc_crypto = b64_encode" by (simp add: rfc_crypto_def)
  then have "legal_value (b64_encode example_key)" using rfc.base64_legal_value [of example_key] by simp
  then show "list_all legal_header browser_headers"
    by (simp add: browser_headers_def legal_header_def legal_name_ascii)
      (simp add: legal_value_def ascii_def)
qed (simp add: browser_headers_def)

lemma browser_request: "rfc_request rfc_crypto browser_headers example_key"
proof -
  have members: "list_members (ascii ''keep-alive, Upgrade'') = [ascii ''keep-alive'', ascii ''Upgrade'']"
    by (simp add: list_members_def trim_spaces_def ascii_def)
  have "lower (ascii ''WebSocket'') = ascii ''websocket''" "lower (ascii ''Upgrade'') = ascii ''upgrade''"
    by (simp_all add: ascii_def to_ascii_lowercase_def)
  then show ?thesis
    by (simp add: rfc_request_def browser_headers_def last_field_def lower_ascii ascii_eq_iff members map_add_def)
      (auto simp: rfc_crypto_def lower_ascii intro!: exI [of _ "ascii ''Upgrade''"])
qed

theorem client_request_accepted_iff_witness:
  "\<exists>rq. rq_uri rq = ascii ''/chat'' \<and>
     request_decode plain_http rfc_crypto [] (request_text (ascii ''/chat'') browser_headers @ [0x89, 0x80]) =
       Some (Inr (Some (rq, switching_protocols_response plain_http [] (b64_encode (sha1_digest
         (b64_encode example_key @ ascii ''258EAFA5-E914-47DA-95CA-C5AB0DC85B11''))))), [0x89, 0x80])"
proof -
  have target: "legal_target (ascii ''/chat'')" by (simp add: legal_target_def ascii_def is_alnum_def)
  have key: "last_field browser_headers ''Sec-WebSocket-Key'' = Some (b64_encode example_key)"
    using browser_request by (simp add: rfc_request_def) (simp add: rfc_crypto_def)
  from client_request_accepted_iff [where K = rfc_crypto and rhs = "[]" and nonce = example_key,
      OF plain.http_library_axioms target browser_headers_legal] browser_request
  have "refusal browser_headers = None"
    and all: "\<exists>rq. rq_uri rq = ascii ''/chat'' \<and> (\<forall>rest. request_decode plain_http rfc_crypto [] (request_text (ascii ''/chat'') browser_headers @ rest) =
      Some (case refusal browser_headers of
        Some e \<Rightarrow> (Inl (Upgrade e), request_text (ascii ''/chat'') browser_headers @ rest)
      | None \<Rightarrow> (Inr (Some (rq, switching_protocols_response plain_http [] (base64_encode rfc_crypto (sha1 rfc_crypto
          (the (last_field browser_headers ''Sec-WebSocket-Key'') @ ascii ''258EAFA5-E914-47DA-95CA-C5AB0DC85B11''))))), rest)))"
    by blast+
  then show ?thesis unfolding key by (auto simp: rfc_crypto_def)
qed

text \<open>
  Beyond what RFC 6455 asks for, a key of any form and a \<open>Connection\<close> with \<open>upgrade\<close> inside another word are accepted; and a
  \<open>Connection\<close> in two lines, which means the same as one list, is refused if \<open>Upgrade\<close> is in the first of them.
\<close>

lemma unusual_requests:
  "refusal [(ascii ''Upgrade'', ascii ''websocket''), (ascii ''Connection'', ascii ''no-upgrades''),
     (ascii ''Sec-WebSocket-Version'', ascii ''13''), (ascii ''Sec-WebSocket-Key'', ascii ''x'')] = None"
  "refusal [(ascii ''Upgrade'', ascii ''websocket''), (ascii ''Connection'', ascii ''Upgrade''), (ascii ''Connection'', ascii ''keep-alive''),
     (ascii ''Sec-WebSocket-Version'', ascii ''13''), (ascii ''Sec-WebSocket-Key'', ascii ''x'')] = Some ConnectionNotUpgrade"
  by (code_simp, code_simp)

subsection \<open>Responses\<close>

lemma find_lower:
  "map_option snd (find (\<lambda>(n, _). eq_ignore_ascii_case n m) hs) = map_of (lower_headers hs) (lower m)"
  by (induction hs) (auto simp: eq_ignore_ascii_case_iff)

lemma response_value_lower:
  "response_header_value hs name = ok_or (map_of (lower_headers hs) (lower (ascii name))) (MissingHeader name)"
  unfolding response_header_value_def find_lower [symmetric]
  by (cases "find (\<lambda>(n, _). eq_ignore_ascii_case n (ascii name)) hs") (auto split: prod.splits)

lemma splice_zeros: "length bs \<le> n \<Longrightarrow> splice (replicate n 0) 0 bs = bs @ replicate (n - length bs) 0"
  by (simp add: splice_def)



subsection \<open>A request that makes the server panic\<close>

text \<open>
  C39: A request target that \<open>httparse\<close> takes and \<open>http\<close> does not makes the server panic, before it has looked at any
  header, instead of answering \<open>400 Bad Request\<close>. The target goes to the builder of \<open>http\<close>, whose error comes out only at
  \<open>body\<close>, where \<open>expect\<close> says that \<open>httparse\<close> has seen to it. So it is for every request with such a target \<open>p\<close> and any legal headers, even without those of a
  handshake, however the bytes are cut into reads.
\<close>

theorem bad_target_aborts_server:
  assumes "http_library H" and "handshake_io N sent reads" and "list_all legal_header hs"
    and taken: "\<And>rest. request_parse H 64 (request_text p hs @ rest) = Inr (Some \<lparr>pq_method = Some (ascii ''GET''), pq_path = Some p,
       pq_version = Some 1, pq_headers = hs, pq_len = length (request_text p hs)\<rparr>)"
    and partial: "\<And>s. strict_prefix s (request_text p hs) \<Longrightarrow> request_parse H 64 s = Inr None"
    and refused: "uri_from_str H p = None"
    and rd: "reads st = map Chunk cs @ evs" "concat cs = request_text p hs @ early"
  shows "accept H K N b st = None"
proof -
  from http_library.collect_legal [OF assms(1,3), of "hm_new H"] obtain hm where
    hm: "collect_headers H (hm_new H) hs = Inr hm" by blast
  have panic: "request_decode H K (sb_headers b) (request_text p hs @ rest) = None" for rest
    by (simp add: request_decode_def taken request_head_def http_library.method_get [OF assms(1)] http_version_of_def hm refused)
  have wait: "request_decode H K (sb_headers b) s = Some (Inr None, s)" if "strict_prefix s (request_text p hs)" for s
    by (simp add: request_decode_def partial [OF that])
  have "framed_run (request_decode H K (sb_headers b)) [] (map Chunk cs @ evs) = None"
    by (rule framed_run_panics [OF wait panic]) (simp_all add: rd(2))
  with handshake_io.next_request_run [OF assms(2) http_library.request_decode_patient [OF assms(1), of K "sb_headers b"], of st]
  show ?thesis by (simp add: rd(1) accept_def)
qed

text \<open>The target \<open>foo/bar\<close> has no scheme and does not begin with a slash.\<close>

theorem bad_target_aborts_server_witness:
  "accept plain_http rfc_crypto memory_net example_server (memory_of [request_text (ascii ''foo/bar'') []]) = None"
proof -
  have word: "one_word (ascii ''foo/bar'')" by (simp add: one_word_def ascii_def)
  have "uri_from_str plain_http (ascii ''foo/bar'') = None" by (simp add: plain_http_def legal_target_def ascii_def)
  moreover have "request_parse plain_http = parse_request" by (simp add: plain_http_def)
  ultimately show ?thesis
    using bad_target_aborts_server [OF plain.http_library_axioms memory.handshake_io_axioms, of "[]" "ascii ''foo/bar''"
        "memory_of [request_text (ascii ''foo/bar'') []]" "[request_text (ascii ''foo/bar'') []]" "[End_Of_Stream]" "[]"]
      parse_request_complete [OF word, of "[]" 64] parse_request_partial [OF word, of "[]" 64]
    by simp
qed

end
