(* ===== verification/Random_Keys.thy ===== *)
theory Random_Keys
  imports Http_Endpoints Rfc_Crypto
begin

text \<open>
  \<open>src/rand.rs\<close>: the random bytes for keys and masks, from the generator that the feature flags
  select. The generators are arguments of the model, with a state of an unknown type \<open>'s\<close>.
\<close>

subsection \<open>Generators\<close>

datatype rng_feature = rng_nightly | rng_fastrand | rng_getrandom | rng_rand

record 's rng_lib =
  system_rng_fill :: "nat \<Rightarrow> 's \<Rightarrow> bytes \<times> 's"
  fastrand_u128 :: "'s \<Rightarrow> 128 word \<times> 's"
  fastrand_fill :: "nat \<Rightarrow> 's \<Rightarrow> bytes \<times> 's"
  getrandom_fill :: "nat \<Rightarrow> 's \<Rightarrow> (unit + bytes) \<times> 's"
  rand_fill :: "nat \<Rightarrow> 's \<Rightarrow> bytes \<times> 's"

text \<open>Which \<open>imp\<close> is compiled; \<open>None\<close> is the \<open>compile_error\<close>.\<close>

definition rng_backend :: "rng_feature set \<Rightarrow> rng_feature option" where
  "rng_backend features =
     (if rng_rand \<in> features then Some rng_rand
      else if rng_getrandom \<in> features then Some rng_getrandom
      else if rng_fastrand \<in> features then Some rng_fastrand
      else if rng_nightly \<in> features then Some rng_nightly
      else None)"

text \<open>\<open>None\<close> is the panic of \<open>getrandom\<close>. The flag \<open>big\<close> is the byte order of \<open>to_ne_bytes\<close>.\<close>

fun get_key :: "rng_feature \<Rightarrow> bool \<Rightarrow> 's rng_lib \<Rightarrow> 's \<Rightarrow> bytes option \<times> 's" where
  "get_key rng_nightly big R s = apfst Some (system_rng_fill R 16 s)"
| "get_key rng_fastrand big R s =
     (let (x, s') = fastrand_u128 R s in (Some (to_ne_bytes big 16 x), s'))"
| "get_key rng_getrandom big R s =
     (case getrandom_fill R 16 s of (Inl _, s') \<Rightarrow> (None, s') | (Inr k, s') \<Rightarrow> (Some k, s'))"
| "get_key rng_rand big R s = apfst Some (rand_fill R 16 s)"

fun get_mask :: "rng_feature \<Rightarrow> 's rng_lib \<Rightarrow> 's \<Rightarrow> bytes option \<times> 's" where
  "get_mask rng_nightly R s = apfst Some (system_rng_fill R 4 s)"
| "get_mask rng_fastrand R s = apfst Some (fastrand_fill R 4 s)"
| "get_mask rng_getrandom R s =
     (case getrandom_fill R 4 s of (Inl _, s') \<Rightarrow> (None, s') | (Inr k, s') \<Rightarrow> (Some k, s'))"
| "get_mask rng_rand R s = apfst Some (rand_fill R 4 s)"

subsection \<open>What the generators promise\<close>

locale rng =
  fixes R :: "'s rng_lib"
  assumes system_length: "length (fst (system_rng_fill R n s)) = n"
    and fastrand_length: "length (fst (fastrand_fill R n s)) = n"
    and getrandom_length: "getrandom_fill R n s = (Inr k, s') \<Longrightarrow> length k = n"
    and rand_length: "length (fst (rand_fill R n s)) = n"
begin

lemma get_key_length: "get_key b big R s = (Some k, s') \<Longrightarrow> length k = 16"
  using system_length [of 16 s] rand_length [of 16 s]
  by (cases b) (auto simp: apfst_def map_prod_def to_ne_bytes_def dest: getrandom_length split: prod.splits sum.splits)

lemma get_mask_length: "get_mask b R s = (Some k, s') \<Longrightarrow> length k = 4"
  using system_length [of 4 s] fastrand_length [of 4 s] rand_length [of 4 s]
  by (cases b) (auto simp: apfst_def map_prod_def dest: getrandom_length split: prod.splits sum.splits)

end

text \<open>Only \<open>getrandom\<close> can fail.\<close>

lemma get_key_panics: "get_key b big R s = (None, s') \<Longrightarrow> b = rng_getrandom"
  by (cases b) (auto simp: apfst_def map_prod_def split: prod.splits)

text \<open>A generator that counts.\<close>

definition counting :: "nat rng_lib" where
  "counting = \<lparr>system_rng_fill = (\<lambda>n s. (map of_nat [s ..< s + n], s + n)), fastrand_u128 = (\<lambda>s. (of_nat s, s + 1)),
     fastrand_fill = (\<lambda>n s. (map of_nat [s ..< s + n], s + n)),
     getrandom_fill = (\<lambda>n s. if s < 100 then (Inr (map of_nat [s ..< s + n]), s + n) else (Inl (), s)),
     rand_fill = (\<lambda>n s. (map of_nat [s ..< s + n], s + n))\<rparr>"

interpretation counting: rng counting
  by unfold_locales (auto simp: counting_def split: if_splits)

subsection \<open>Keys\<close>

text \<open>
  Whichever generator is compiled in, a key that it gives is encoded without the undefined
  behaviour that \<open>make_key\<close> would have for another length: the result is the 24 bytes of the base64
  text of 16 random bytes, legal in a header, from which the server can get the 16 bytes back. Only
  \<open>getrandom\<close> can panic instead.
\<close>

lemma random_key_is_encoded:
  assumes "rng R" and "crypto_lib K" and "rng_backend features = Some b"
  shows "case get_key b big R s of
      (None, _) \<Rightarrow> rng_getrandom \<in> features \<and> rng_rand \<notin> features
    | (Some k, _) \<Rightarrow> (\<exists>key. make_key K k = Some key \<and> length key = 24 \<and> legal_value key
        \<and> base64_decode_slice K key 16 = Some (Inr k))"
proof (cases "get_key b big R s")
  case (Pair ko s')
  show ?thesis
  proof (cases ko)
    case None
    then show ?thesis using get_key_panics [of b big R s s'] Pair assms(3) by (auto simp: rng_backend_def split: if_splits)
  next
    case (Some k)
    then have k: "length k = 16" using rng.get_key_length [OF assms(1)] Pair by simp
    have "make_key K k = Some (base64_encode K k)"
      using crypto_lib.base64_length [OF assms(2), of k] k by (simp add: make_key_def splice_def)
    then show ?thesis
      using Pair Some k crypto_lib.base64_length [OF assms(2), of k] crypto_lib.base64_legal_value [OF assms(2), of k]
        crypto_lib.base64_decode_encode [OF assms(2), of k 16] by simp
  qed
qed

end
