(* ===== verification/Connecting.thy ===== *)
theory Connecting
  imports Opening
begin

text \<open>
  \<open>Builder::connect\<close> up to the handshake: which stream it makes for which URI, connector and set of
  features.
\<close>

lemma case_error_Inr: "(case r of Inl e \<Rightarrow> Inl (f e) | Inr y \<Rightarrow> g y) = Inr z \<longleftrightarrow> (\<exists>y. r = Inr y \<and> g y = Inr z)"
  by (cases r) simp_all

text \<open>The features that make \<open>Connector::new\<close> choose a TLS library.\<close>

definition tls_enabled :: "tls_feature set \<Rightarrow> bool" where
  "tls_enabled features \<longleftrightarrow> features \<inter> {native_tls, rustls_webpki_roots, rustls_native_roots, rustls_platform_verifier} \<noteq> {}"

lemma connector_new_plain:
  "connector_new features T = Inr c \<Longrightarrow> c = Plain_Connector \<longleftrightarrow> \<not> tls_enabled features"
  by (cases "rustls_webpki_roots \<in> features"; cases "rustls_native_roots \<in> features";
      cases "rustls_platform_verifier \<in> features"; cases "native_tls \<in> features")
    (auto simp: connector_new_def tls_enabled_def and_then_eq_Inr)

lemma wrap_plain: "wrap T c d s = Inr x \<Longrightarrow> (\<exists>y. x = Plain_Stream y) \<longleftrightarrow> c = Plain_Connector"
  by (cases c) (auto simp: and_then_eq_Inr case_error_Inr)

text \<open>
  C37: When \<open>connect\<close> uses a stream without TLS. It needs a URI with the scheme \<open>ws\<close> or \<open>wss\<close>. For
  \<open>ws\<close> the stream is always plain. For \<open>wss\<close> it is plain exactly if the application has passed the
  plain connector, or has passed none and the crate is compiled without a feature that brings a TLS
  library with its certificates.
\<close>

theorem plain_stream_iff:
  assumes "connect_stream features T D b = Inr s"
  shows "\<exists>u. cb_uri b = Some u \<and>
    (uri_scheme_str u = Some (ascii ''ws'') \<and> (\<exists>x. s = Plain_Stream x) \<or>
     uri_scheme_str u = Some (ascii ''wss'') \<and>
       ((\<exists>x. s = Plain_Stream x) \<longleftrightarrow>
          cb_connector b = Some Plain_Connector \<or> cb_connector b = None \<and> \<not> tls_enabled features))"
proof -
  from assms obtain u h addr t where u: "cb_uri b = Some u" "uri_host u = Some h"
    and res: "(if uri_scheme_str u = Some (ascii ''wss'')
      then (case cb_connector b of
              Some c \<Rightarrow> wrap T c (trim_brackets h) t
            | None \<Rightarrow> and_then (connector_new features T) (\<lambda>c. wrap T c (trim_brackets h) t))
      else if uri_scheme_str u = Some (ascii ''ws'') then wrap T Plain_Connector (trim_brackets h) t
      else Inl UnsupportedScheme) = Inr s"
    by (auto simp: connect_stream_def and_then_eq_Inr Let_def case_error_Inr)
  show ?thesis
  proof (cases "uri_scheme_str u = Some (ascii ''wss'')")
    case False
    then show ?thesis using u res by (intro exI [of _ u]) (auto split: if_splits)
  next
    case True
    have "ascii ''wss'' \<noteq> ascii ''ws''" by (simp add: ascii_def)
    then show ?thesis
      using u res True by (intro exI [of _ u]) (auto simp: and_then_eq_Inr dest: wrap_plain connector_new_plain split: option.splits)
  qed
qed

text \<open>A client without TLS features, a network with one host, and a secure URI with an IPv6 host.\<close>

definition no_tls :: "(unit, bytes, unit, unit, unit, unit) tls_lib" where
  "no_tls = \<lparr>native_tls_new = Inr (), with_platform_verifier = Inr (), empty_roots = (), load_native_certs = ([], []),
     add_root = (\<lambda>_ _. Inr ()), extend_webpki = (\<lambda>r. r), with_root_certificates = (\<lambda>_. ()),
     native_tls_connect = (\<lambda>_ _ _. Inr ()), server_name = Some, rustls_connect = (\<lambda>_ _ _. Inr ())\<rparr>"

definition one_host :: "(bytes, bytes) dialer" where
  "one_host = \<lparr>resolve = gai_resolve (\<lambda>h p. if h = ascii ''::1'' \<and> p = 443 then Inr [[127]] else Inl ()),
     tcp_connect = Inr\<rparr>"

definition secure_uri :: uri where
  "secure_uri = \<lparr>uri_scheme_str = Some (ascii ''wss''), uri_host = Some (ascii ''[::1]''), uri_port_u16 = None,
     uri_path = ascii ''/'', uri_query = None\<rparr>"

lemma secure_connect:
  "connect_stream {rustls_bring_your_own_connector} no_tls one_host (client_from_uri plain_http secure_uri)
     = Inr (Plain_Stream [127])"
  by (simp add: connect_stream_def client_from_uri_def secure_uri_def one_host_def no_tls_def gai_resolve_def trim_brackets_def
      default_port_def connector_new_def ascii_def)

theorem plain_stream_iff_witness:
  "connect_stream {rustls_bring_your_own_connector} no_tls one_host (client_from_uri plain_http secure_uri)
     = Inr (Plain_Stream [127]) \<and> \<not> tls_enabled {rustls_bring_your_own_connector}"
  using plain_stream_iff [OF secure_connect] secure_connect
  by (auto simp: client_from_uri_def secure_uri_def ascii_def)

end
