(* ===== verification/Error_Display.thy ===== *)
theory Error_Display
  imports Duplex
begin

text \<open>
  \<open>Display\<close> and \<open>source\<close> of the error types (\<open>src/error.rs\<close>, \<open>src/upgrade/mod.rs\<close>,
  \<open>src/proto/error.rs\<close>) for a build with all features. How errors of other crates are shown is an
  argument.
\<close>

subsection \<open>What is shown\<close>

record displays =
  io_display :: "io_error \<Rightarrow> string"
  httparse_display :: "httparse_error \<Rightarrow> string"
  native_tls_display :: "nat \<Rightarrow> string"
  rustls_display :: "nat \<Rightarrow> string"
  dns_name_display :: string
  cert_error_display :: "nat \<Rightarrow> string"
  cert_errors_debug :: "nat list \<Rightarrow> string"

fun upgrade_error_display :: "displays \<Rightarrow> upgrade_error \<Rightarrow> string" where
  "upgrade_error_display L (MissingHeader name) = ''missing required header: '' @ name"
| "upgrade_error_display L UpgradeNotWebSocket = ''upgrade header value was not websocket''"
| "upgrade_error_display L ConnectionNotUpgrade = ''connection header value was not upgrade''"
| "upgrade_error_display L UnsupportedWebSocketVersion = ''unsupported WebSocket version''"
| "upgrade_error_display L (Parsing e) = httparse_display L e"
| "upgrade_error_display L (DidNotSwitchProtocols status) =
     ''expected HTTP 101 Switching Protocols, got status code '' @ show_nat (unat status)"
| "upgrade_error_display L WrongWebSocketAccept = ''mismatching Sec-WebSocket-Accept header''"

fun error_display :: "displays \<Rightarrow> error \<Rightarrow> string" where
  "error_display L AlreadyClosed = ''attempted to send message after closing connection''"
| "error_display L CannotResolveHost = ''client DNS lookup failed''"
| "error_display L NoUriConfigured = ''client has no URI configured''"
| "error_display L DisallowedHeader = ''attempted to add disallowed header''"
| "error_display L (Protocol e) = as_str e"
| "error_display L (PayloadTooLong len max_len) =
     ''payload length of '' @ show_nat len @ '' exceeds the limit of '' @ show_nat max_len"
| "error_display L (Io e) = io_display L e"
| "error_display L (NativeTls e) = native_tls_display L e"
| "error_display L InvalidDNSName = ''invalid DNS name''"
| "error_display L (Rustls e) = rustls_display L e"
| "error_display L UnsupportedScheme = ''unsupported or no URI scheme used''"
| "error_display L (Upgrade e) = upgrade_error_display L e"
| "error_display L (NoNativeRootCertificatesFound e) =
     ''no native root certificates were found, errors encountered: '' @ cert_errors_debug L e"

subsection \<open>Where an error comes from\<close>

text \<open>What \<open>source\<close> refers to: an error of the crate, or of another one.\<close>

datatype error_cause =
    Protocol_Source protocol_error
  | Upgrade_Source upgrade_error
  | Io_Source io_error
  | Httparse_Source httparse_error
  | NativeTls_Source nat
  | Rustls_Source nat
  | Dns_Name_Source
  | Cert_Source nat

fun upgrade_error_source :: "upgrade_error \<Rightarrow> error_cause option" where
  "upgrade_error_source (Parsing e) = Some (Httparse_Source e)"
| "upgrade_error_source (MissingHeader _) = None"
| "upgrade_error_source UpgradeNotWebSocket = None"
| "upgrade_error_source ConnectionNotUpgrade = None"
| "upgrade_error_source UnsupportedWebSocketVersion = None"
| "upgrade_error_source (DidNotSwitchProtocols _) = None"
| "upgrade_error_source WrongWebSocketAccept = None"

fun error_source :: "error \<Rightarrow> error_cause option" where
  "error_source AlreadyClosed = None"
| "error_source CannotResolveHost = None"
| "error_source (PayloadTooLong _ _) = None"
| "error_source NoUriConfigured = None"
| "error_source DisallowedHeader = None"
| "error_source (NoNativeRootCertificatesFound e) = (case e of [] \<Rightarrow> None | x # _ \<Rightarrow> Some (Cert_Source x))"
| "error_source UnsupportedScheme = None"
| "error_source (Protocol e) = Some (Protocol_Source e)"
| "error_source (Io e) = Some (Io_Source e)"
| "error_source (NativeTls e) = Some (NativeTls_Source e)"
| "error_source InvalidDNSName = Some Dns_Name_Source"
| "error_source (Rustls e) = Some (Rustls_Source e)"
| "error_source (Upgrade e) = Some (Upgrade_Source e)"

fun source_display :: "displays \<Rightarrow> error_cause \<Rightarrow> string" where
  "source_display L (Protocol_Source e) = as_str e"
| "source_display L (Upgrade_Source e) = upgrade_error_display L e"
| "source_display L (Io_Source e) = io_display L e"
| "source_display L (Httparse_Source e) = httparse_display L e"
| "source_display L (NativeTls_Source e) = native_tls_display L e"
| "source_display L (Rustls_Source e) = rustls_display L e"
| "source_display L Dns_Name_Source = dns_name_display L"
| "source_display L (Cert_Source e) = cert_error_display L e"

text \<open>An error that wraps another one shows the text of that one, with two exceptions.\<close>

lemma error_shows_source:
  "error_source e = Some src \<Longrightarrow> error_display L e = source_display L src \<or> e = InvalidDNSName
     \<or> (\<exists>c cs. e = NoNativeRootCertificatesFound (c # cs))"
  by (cases e) (auto split: list.splits)

lemma upgrade_error_shows_source:
  "upgrade_error_source e = Some src \<Longrightarrow> upgrade_error_display L e = source_display L src"
  by (cases e) auto

subsection \<open>What the peer is told\<close>

text \<open>The code and the reason that RFC 6455, section 7.4.1, provides for an error of the decoder.\<close>

fun close_answer :: "displays \<Rightarrow> error \<Rightarrow> u16 \<times> string" where
  "close_answer L (PayloadTooLong len max_len) = (1009, ''max length: '' @ show_nat max_len)"
| "close_answer L e = (if e = Protocol InvalidUtf8 then (1007, ''invalid utf8'') else (1002, error_display L e))"

definition close_frame :: "u16 \<times> string \<Rightarrow> wsframe" where
  "close_frame a = \<lparr>f_is_final = True, f_opcode = Close, f_payload = to_be_bytes 2 (fst a) @ ascii (snd a)\<rparr>"

lemma close_for_error_answer:
  assumes "m \<le> usize_MAX" and "(\<exists>q. e = Protocol q) \<or> (\<exists>l. e = PayloadTooLong l m)"
  shows "close_for_error e = Some (Some (close_frame (close_answer L e)))"
proof -
  have len: "length (ascii (''max length: '' @ show_nat m)) \<le> 123" using length_show_usize [OF assms(1)] by simp
  have short: "length (ascii (as_str q)) \<le> 123" for q using as_str_short [of q] by simp
  have reason: "reason = [] \<or> length reason \<le> 123 \<Longrightarrow> \<not> is_reserved c \<Longrightarrow> message_close (Some c) reason =
      Some \<lparr>m_opcode = Close, m_payload = payload_from_bytes (to_be_bytes 2 (close_code_get c) @ reason)\<rparr>" for c reason
    by (auto simp: message_close_def)
  from assms(2) show ?thesis
  proof
    assume "\<exists>q. e = Protocol q"
    then obtain q where e: "e = Protocol q" by blast
    show ?thesis
      using reason [of "ascii (as_str q)" PROTOCOL_ERROR] reason [of "ascii ''invalid utf8''" INVALID_FRAME_PAYLOAD_DATA] short [of q]
      by (simp add: e close_for_error_def frame_from_protocol_error_def frame_from_message_def close_frame_def is_reserved_def
          payload_from_bytes_def)
  next
    assume "\<exists>l. e = PayloadTooLong l m"
    then obtain l where e: "e = PayloadTooLong l m" by blast
    show ?thesis
      using reason [of "ascii (''max length: '' @ show_nat m)" MESSAGE_TOO_BIG] len
      by (simp add: e close_for_error_def frame_from_message_def close_frame_def is_reserved_def payload_from_bytes_def)
  qed
qed

context transport
begin

lemma read_frame_violation:
  assumes inv: "ws_inv s" and st: "state s = Active" and rf: "read_frame E w s = Some (Ready (Some (Inl e)), s')"
    and io: "\<And>x. e \<noteq> Io x"
  shows "state s' = ClosedByPeer \<and> outgoing written s' = outgoing written s @ wire_frame (next_key E s) (close_frame (close_answer L e))"
proof -
  have cinv: "codec_inv (decoder (inner s)) (buffer (inner s))" using inv st by (simp add: ws_inv_def)
  obtain rd fr where rd: "framed_poll_next E w (inner s) = (rd, fr)" by (cases "framed_poll_next E w (inner s)")
  let ?s1 = "s\<lparr>inner := fr\<rparr>"
  have rde: "rd = Ready (Some (Inl e))" "on_read_error E ?s1 e = Some (Ready (Some (Inl e)), s')"
    using rf rd by (auto simp: read_frame_def on_read_error_def Let_def split: poll.splits option.splits sum.splits if_splits)
  from read [OF cinv rd] rde(1) obtain cs d where wr: "written (io fr) = written (io (inner s))"
    and d: "decode_reads U (cpu E) (decoder (inner s)) (buffer (inner s)) cs = Some (d, decoder fr, buffer fr)"
    and rd_d: "d = Inl e \<or> (d = Inr None \<and> (\<exists>x. e = Io x))"
    by (auto simp: read_result_def)
  have m: "max_payload_len (limits (decoder (inner s))) \<le> usize_MAX" and fq: "fq_inv (frame_queue s)"
    using inv by (simp_all add: ws_inv_def)
  have "d = Inl e" using rd_d io by auto
  from decode_reads_post(4) [OF cinv d this]
  have e: "(\<exists>q. e = Protocol q) \<or> (\<exists>l. e = PayloadTooLong l (max_payload_len (limits (decoder (inner s)))))" .
  have role: "role (decoder fr) = role (decoder (inner s))" using decode_reads_post(1) [OF cinv d] .
  have "s' = queue_frame E (?s1\<lparr>state := ClosedByPeer\<rparr>) (close_frame (close_answer L e))"
    using rde(2) close_for_error_answer [OF m e, of L] st io
    by (cases e) (use io in \<open>auto simp: on_read_error_def\<close>)
  then show ?thesis
    using queue_frame_eq [of "?s1\<lparr>state := ClosedByPeer\<rparr>" "close_frame (close_answer L e)"] wr fq role
    by (auto simp: outgoing_def next_key_def)
qed

end

text \<open>
  C26: A violation of the protocol is reported on both sides. When an active stream reads bytes whose frame the decoder
  does not accept (any error of \<open>poll_next_frame\<close> that is not an I/O error), the call returns the error, and one close frame is
  sent (\<open>close_answer\<close>): with code 1009 and the reason \<open>max length:\<close> with the limit if a frame is too long, 1007 and
  \<open>invalid utf8\<close> if text is not UTF-8, and for every other violation 1002 with the very text
  that the error shows. The peer is from then on taken to have closed the connection. A stream that has sent a close frame itself
  answers nothing; nor does \<open>poll_next\<close> answer a message whose fragments together are too long (\<open>too_long_fragment_leaves_hole\<close>).
\<close>

theorem violation_answered:
  assumes "transport U E written" and "ws_inv s" and "state s = Active"
    and "poll_next_frame E w s = Some (Ready (Some (Inl e)), s')" and "\<And>x. e \<noteq> Io x"
  shows "state s' = ClosedByPeer
    \<and> outgoing written s' = outgoing written s @ wire_frame (next_key E s) (close_frame (close_answer L e))"
proof (cases "has_remaining (frame_queue s)")
  case False
  then have "read_frame E w s = Some (Ready (Some (Inl e)), s')" using assms(3,4) by (simp add: poll_next_frame_def)
  from transport.read_frame_violation [OF assms(1-3) this assms(5)] show ?thesis .
next
  case True
  let ?w = "case flushing_waker s of None \<Rightarrow> w | Some v \<Rightarrow> v"
  have fq: "fq_inv (frame_queue s)" using assms(2) by (simp add: ws_inv_def)
  from transport.poll_flush_total [OF assms(1) fq, of ?w] obtain r s1 where
    r: "poll_flush E ?w s = Some (r, s1)" and post: "flush_post written ?w s r s1" by blast
  have ok: "\<nexists>x. r = Ready (Inl x)"
  proof
    assume "\<exists>x. r = Ready (Inl x)"
    then obtain x where x: "r = Ready (Inl x)" by blast
    then have "e = x" using assms(3,4) True r by (simp add: poll_next_frame_def)
    moreover have "\<exists>y. x = Io y" using post x by (simp add: flush_post_def)
    ultimately show False using assms(5) by blast
  qed
  then have rf: "read_frame E w s1 = Some (Ready (Some (Inl e)), s')"
    using assms(3,4) True r by (cases r) (auto simp: poll_next_frame_def split: sum.splits)
  have st: "state s1 = Active" using post ok assms(3) by (auto simp: flush_post_def split: poll.splits sum.splits)
  have same: "outgoing written s1 = outgoing written s" "next_key E s1 = next_key E s"
    using post by (simp_all add: flush_post_def same_besides_io_def next_key_def)
  from transport.read_frame_violation [OF assms(1) transport.flush_sends(2) [OF assms(1,2) post] st rf assms(5), of L] same
  show ?thesis by simp
qed

text \<open>A server that gets a frame without a mask.\<close>

definition plain_displays :: displays where
  "plain_displays = \<lparr>io_display = (\<lambda>_. ''i/o''), httparse_display = (\<lambda>_. ''http''), native_tls_display = (\<lambda>_. ''tls''),
     rustls_display = (\<lambda>_. ''tls''), dns_name_display = ''dns'', cert_error_display = (\<lambda>_. ''cert''),
     cert_errors_debug = (\<lambda>_. ''certs'')\<rparr>"

theorem violation_answered_witness:
  "\<exists>s'. poll_next_frame std_env 0 (from_raw_stream \<lparr>incoming = [[0x81], [0x01, 0x68]], eof = False, room = [], sent = []\<rparr> ()
        Server config_default limits_default) = Some (Ready (Some (Inl (Protocol UnexpectedUnmaskedFrame))), s')
     \<and> state s' = ClosedByPeer
     \<and> outgoing sent s' = wire_frame [] (close_frame (1002, ''unexpected unmasked frame''))"
proof -
  let ?s = "from_raw_stream \<lparr>incoming = [[0x81], [0x01, 0x68]], eof = False, room = [], sent = []\<rparr> () Server
    config_default limits_default :: (duplex, unit) websocket_stream"
  have "decode std_utf8 scalar_platform (protocol_new Server limits_default) [] = Some (Inr None, protocol_new Server limits_default, [])"
    "decode std_utf8 scalar_platform (protocol_new Server limits_default) [0x81] = Some (Inr None, protocol_new Server limits_default, [0x81])"
    "decode std_utf8 scalar_platform (protocol_new Server limits_default) [0x81, 0x01, 0x68]
      = Some (Inl (Protocol UnexpectedUnmaskedFrame), protocol_new Server limits_default, [0x81, 0x01, 0x68])"
    by (simp_all add: decode_def decode_head_def slice_def decode_first_def protocol_new_def opcode_try_from_def Let_def)
  then have read: "framed_poll_next std_env 0 (inner ?s) = (Ready (Some (Inl (Protocol UnexpectedUnmaskedFrame))),
      (inner ?s)\<lparr>io := (io (inner ?s))\<lparr>incoming := []\<rparr>, buffer := [0x81, 0x01, 0x68]\<rparr>)"
    by (simp add: duplex_env_def duplex_poll_next_def from_raw_stream_def)
  obtain fr where "close_for_error (Protocol UnexpectedUnmaskedFrame) = Some (Some fr)"
    using close_for_error_Some [of 0 "Protocol UnexpectedUnmaskedFrame"] by auto
  then obtain s' where s': "poll_next_frame std_env 0 ?s = Some (Ready (Some (Inl (Protocol UnexpectedUnmaskedFrame))), s')"
    using read by (auto simp: poll_next_frame_def read_frame_def on_read_error_def from_raw_stream_def has_remaining_iff)
  have s: "ws_inv ?s" "state ?s = Active"
    by (rule ws_inv_new, simp add: limits_default_def) (simp add: from_raw_stream_def)
  from violation_answered [OF std_duplex.transport_axioms s s', of plain_displays] s' show ?thesis
    by (auto simp: from_raw_stream_def outgoing_def next_key_def protocol_new_def)
qed

end
