(* ===== verification/Waiting.thy ===== *)
theory Waiting
  imports Byte_Transport Conversation
begin

text \<open>
  Where a stream waits and where it fails: a call that returns \<open>Pending\<close> has asked the transport, with the
  waker of its task, and the transport was pending; an I/O error is an error of the transport. So no
  call waits for a wake-up that nobody has been asked for.
\<close>

subsection \<open>Causes\<close>

text \<open>
  \<open>R i j\<close>: operations have taken the transport from \<open>i\<close> to \<open>j\<close>. \<open>happened c i j\<close>: the last of them was pending
  for a waker, or it failed, which includes an end of file and a write of nothing.
\<close>

datatype cause = Waits waker | Fails

locale causes =
  fixes R :: "'io \<Rightarrow> 'io \<Rightarrow> bool" and happened :: "cause \<Rightarrow> 'io \<Rightarrow> 'io \<Rightarrow> bool"
  assumes R_refl: "R i i" and R_trans: "R i j \<Longrightarrow> R j k \<Longrightarrow> R i k"
    and happened_R: "happened c i j \<Longrightarrow> R i j"
    and happened_later: "R i j \<Longrightarrow> happened c j k \<Longrightarrow> happened c i k"

locale heard_transport = transport U E written + causes R happened
  for U and E :: "('io, 'f) env" and written and R :: "'io \<Rightarrow> 'io \<Rightarrow> bool" and happened +
  assumes write_heard: "fq_inv fq \<Longrightarrow> has_remaining fq \<Longrightarrow> poll_write_buf E w i fq = (y, j, fq') \<Longrightarrow>
      R i j \<and> (y = Pending \<longrightarrow> happened (Waits w) i j) \<and> ((\<exists>e. y = Ready (Inl e)) \<or> y = Ready (Inr 0) \<longrightarrow> happened Fails i j)"
    and flush_heard: "io_poll_flush E w i = (z, j) \<Longrightarrow>
      R i j \<and> (z = Pending \<longrightarrow> happened (Waits w) i j) \<and> ((\<exists>e. z = Ready (Inl e)) \<longrightarrow> happened Fails i j)"
    and shutdown_heard: "io_poll_shutdown E w i = (z, j) \<Longrightarrow>
      R i j \<and> (z = Pending \<longrightarrow> happened (Waits w) i j) \<and> ((\<exists>e. z = Ready (Inl e)) \<longrightarrow> happened Fails i j)"
    and read_heard: "codec_inv (decoder fr) (buffer fr) \<Longrightarrow> framed_poll_next E w fr = (x, fr') \<Longrightarrow>
      R (io fr) (io fr') \<and> (x = Pending \<longrightarrow> happened (Waits w) (io fr) (io fr'))
        \<and> ((\<exists>e. x = Ready (Some (Inl (Io e)))) \<longrightarrow> happened Fails (io fr) (io fr'))"

text \<open>What a call with the waker \<open>w\<close> tells its caller; \<open>failed\<close> are its results that are I/O errors.\<close>

definition tells ::
  "('io \<Rightarrow> 'io \<Rightarrow> bool) \<Rightarrow> (cause \<Rightarrow> 'io \<Rightarrow> 'io \<Rightarrow> bool) \<Rightarrow> waker \<Rightarrow> ('r poll \<Rightarrow> bool)
     \<Rightarrow> ('io, 'f) websocket_stream \<Rightarrow> 'r poll \<Rightarrow> ('io, 'f) websocket_stream \<Rightarrow> bool" where
  "tells R happened w failed s y s' \<longleftrightarrow> R (io (inner s)) (io (inner s'))
     \<and> (y = Pending \<longrightarrow> happened (Waits w) (io (inner s)) (io (inner s')))
     \<and> (failed y \<longrightarrow> happened Fails (io (inner s)) (io (inner s')))"

abbreviation "sink_error \<equiv> \<lambda>y. \<exists>e. y = Ready (Inl e)"
abbreviation "io_error_item \<equiv> \<lambda>y. \<exists>e. y = Ready (Some (Inl (Io e)))"

lemma advance_inv: "fq_inv fq \<Longrightarrow> n \<le> remaining fq \<Longrightarrow> advance fq n = Some fq' \<Longrightarrow> fq_inv fq'"
  using fq.adv_drop [of fq n] by (auto simp: fq.rem_eq)

context heard_transport
begin

lemma tells_later:
  assumes "R (io (inner s)) (io (inner t))" and "tells R happened w failed t y s'"
  shows "tells R happened w failed s y s'"
  using assms R_trans happened_later unfolding tells_def by blast

lemma flush_io_tells: "tells R happened w sink_error t (fst (flush_io E w t)) (snd (flush_io E w t))"
  using flush_heard [of w "io (inner t)"]
  by (auto simp: tells_def flush_io_def Let_def set_io_def flush_failed_def set_flushing_waker_eq
      split: prod.split poll.split sum.split)

lemma poll_flush_tells:
  assumes "poll_flush E w s = Some (y, s')" and "fq_inv (frame_queue s)"
  shows "tells R happened w sink_error s y s'"
proof -
  let ?J = "\<lambda>t. R (io (inner s)) (io (inner t)) \<and> fq_inv (frame_queue t)"
  have start: "?J s" using R_refl assms(2) by blast
  show ?thesis
  proof (rule poll_flush_rounds [where J = ?J and Q = "tells R happened w sink_error s", OF assms(1) start])
    show "tells R happened w sink_error s (fst (flush_io E w t)) (snd (flush_io E w t))" if "?J t" for t
      using tells_later [OF conjunct1 [OF that] flush_io_tells] .
  next
    show "tells R happened w sink_error s (Ready (Inl (Io e))) (flush_failed ((set_io t i)\<lparr>frame_queue := fq\<rparr>))"
      if "?J t" "has_remaining (frame_queue t)" "poll_write_buf E w (io (inner t)) (frame_queue t) = (Ready (Inl e), i, fq)" for t e i fq
      using that(1) write_heard [OF _ that(2,3)] R_trans happened_later
      by (auto simp: tells_def set_io_def flush_failed_def)
  next
    show "tells R happened w sink_error s (Ready (Inl (Io WriteZero))) (flush_failed ((set_io t i)\<lparr>frame_queue := fq\<rparr>))"
      if "?J t" "has_remaining (frame_queue t)" "poll_write_buf E w (io (inner t)) (frame_queue t) = (Ready (Inr 0), i, fq)" for t i fq
      using that(1) write_heard [OF _ that(2,3)] R_trans happened_later
      by (auto simp: tells_def set_io_def flush_failed_def)
  next
    show "tells R happened w sink_error s Pending (set_flushing_waker ((set_io t i)\<lparr>frame_queue := fq\<rparr>) w)"
      if "?J t" "has_remaining (frame_queue t)" "poll_write_buf E w (io (inner t)) (frame_queue t) = (Pending, i, fq)" for t i fq
      using that(1) write_heard [OF _ that(2,3)] R_trans happened_later
      by (auto simp: tells_def set_io_def set_flushing_waker_eq)
  next
    show "?J ((set_io t i)\<lparr>frame_queue := fq\<rparr>)"
      if "?J t" "has_remaining (frame_queue t)" "poll_write_buf E w (io (inner t)) (frame_queue t) = (Ready (Inr n), i, fq)" for t n i fq
    proof -
      have "fq_inv fq" using write_ready [OF conjunct2 [OF that(1)] that(3)] that(1) advance_inv by blast
      then show ?thesis using that(1) write_heard [OF _ that(2,3)] R_trans by (auto simp: set_io_def)
    qed
  qed
qed

lemma read_frame_tells:
  assumes rf: "read_frame E w s = Some (y, s')" and cinv: "codec_inv (decoder (inner s)) (buffer (inner s))"
  shows "tells R happened w io_error_item s y s'"
proof -
  obtain x fr where x: "framed_poll_next E w (inner s) = (x, fr)" by (cases "framed_poll_next E w (inner s)")
  have inner: "inner s' = fr" using read_frame_inner [OF rf] x by simp
  have "y = Pending \<longrightarrow> x = Pending" and "io_error_item y \<longrightarrow> io_error_item x"
    using rf x by (auto simp: read_frame_def Let_def dest!: on_read_error_result split: poll.splits option.splits sum.splits)
  then show ?thesis using read_heard [OF cinv x] by (auto simp: tells_def inner)
qed

lemma poll_next_frame_tells:
  assumes pf: "poll_next_frame E w s = Some (y, s')" and inv: "ws_inv s"
  shows "tells R happened w io_error_item s y s'"
proof -
  have fq: "fq_inv (frame_queue s)" using inv by (simp add: ws_inv_def)
  consider (ack) "state s = CloseAcknowledged" | (peer) "state s = ClosedByPeer"
    | (read) "state s \<in> {Active, ClosedByUs}" by (cases "state s") auto
  then show ?thesis
  proof cases
    case ack
    then show ?thesis using pf R_refl by (auto simp: poll_next_frame_def tells_def)
  next
    case peer
    from pf peer obtain z t where f: "poll_flush E w s = Some (z, t)" by (auto simp: poll_next_frame_def split: option.splits)
    from poll_flush_tells [OF this fq] show ?thesis
      using pf peer f by (cases z) (auto simp: poll_next_frame_def tells_def split: sum.splits)
  next
    case read
    have cinv: "codec_inv (decoder (inner s)) (buffer (inner s))" using inv read unfolding ws_inv_def by blast
    show ?thesis
    proof (cases "has_remaining (frame_queue s)")
      case False
      then have "read_frame E w s = Some (y, s')" using pf read by (auto simp: poll_next_frame_def)
      then show ?thesis using cinv by (rule read_frame_tells)
    next
      case True
      let ?w = "case flushing_waker s of None \<Rightarrow> w | Some v \<Rightarrow> v"
      from pf read True obtain z t where f: "poll_flush E ?w s = Some (z, t)"
        by (auto simp: poll_next_frame_def split: option.splits)
      note heard = poll_flush_tells [OF f fq]
      show ?thesis
      proof (cases "\<exists>e. z = Ready (Inl e)")
        case err: True
        then show ?thesis using pf read True f heard by (auto simp: poll_next_frame_def tells_def)
      next
        case ok: False
        then have rf: "read_frame E w t = Some (y, s')"
          using pf read True f by (cases z) (auto simp: poll_next_frame_def split: sum.splits)
        have "decoder (inner t) = decoder (inner s)" "buffer (inner t) = buffer (inner s)"
          using poll_flush_total [OF fq, of ?w] f by (auto simp: flush_post_def same_besides_io_def)
        then have "tells R happened w io_error_item t y s'" using read_frame_tells [OF rf] cinv by simp
        moreover have "R (io (inner s)) (io (inner t))" using heard by (simp add: tells_def)
        ultimately show ?thesis by (rule tells_later [rotated])
      qed
    qed
  qed
qed

lemma assemble_tells:
  "assemble m s f = Inl (x, s') \<Longrightarrow> io (inner s') = io (inner s) \<and> \<not> io_error_item (Ready (Some x))"
  "assemble m s f = Inr s' \<Longrightarrow> io (inner s') = io (inner s)"
  by (auto simp: assemble_def Let_def take_message_opcode_def split: if_splits)

lemma poll_next_tells:
  assumes "poll_next E w s = Some (y, s')" and "ws_inv s"
  shows "tells R happened w io_error_item s y s' \<and> ws_inv s'"
proof -
  let ?J = "\<lambda>t. R (io (inner s)) (io (inner t)) \<and> ws_inv t"
  let ?Q = "\<lambda>y s'. tells R happened w io_error_item s y s' \<and> ws_inv s'"
  have frame: "tells R happened w io_error_item s x t1 \<and> ws_inv t1
      \<and> ((\<exists>f. x = Ready (Some (Inr f))) \<longrightarrow> payload_processed (decoder (inner t1)) = 0)"
    if "?J t" "poll_next_frame E w t = Some (x, t1)" for t x t1
  proof -
    have inv: "ws_inv t" and R: "R (io (inner s)) (io (inner t))" using that(1) by blast+
    from poll_next_frame_sends [where w = w and v = w, OF inv] obtain y t2 where
      pn: "poll_next_frame E w t = Some (y, t2)" "ws_inv t2"
        "(\<exists>f. y = Ready (Some (Inr f))) \<longrightarrow> payload_processed (decoder (inner t2)) = 0" by blast
    have "y = x" "t2 = t1" using pn(1) that(2) by simp_all
    with pn have "ws_inv t1 \<and> ((\<exists>f. x = Ready (Some (Inr f))) \<longrightarrow> payload_processed (decoder (inner t1)) = 0)" by blast
    then show ?thesis using tells_later [OF R poll_next_frame_tells [OF that(2) inv]] by blast
  qed
  have asm: "case assemble m t1 f of Inl (x, t2) \<Rightarrow> ?J t2 \<and> ?Q (Ready (Some x)) t2 | Inr t2 \<Rightarrow> ?J t2"
    if "?J t" "poll_next_frame E w t = Some (Ready (Some (Inr f)), t1)" for m t f t1
  proof -
    note fr = frame [OF that]
    have R: "R (io (inner s)) (io (inner t1))" using fr by (simp add: tells_def)
    have post: "case assemble m t1 f of Inl (_, t2) \<Rightarrow> sends E written t1 [] t2 \<and> ws_inv t2 | Inr t2 \<Rightarrow> sends E written t1 [] t2 \<and> ws_inv t2"
      using fr by (intro assemble_sends) simp_all
    show ?thesis
    proof (cases "assemble m t1 f")
      case (Inl xt)
      obtain x t2 where xt: "xt = (x, t2)" by (cases xt)
      with Inl have "assemble m t1 f = Inl (x, t2)" by simp
      from assemble_tells(1) [OF this] R post Inl xt show ?thesis by (simp add: tells_def)
    next
      case (Inr t2)
      with assemble_tells(2) [OF Inr] R post show ?thesis by simp
    qed
  qed
  have start: "?J s" using R_refl assms(2) by blast
  show ?thesis
  proof (rule poll_next_loop_rounds [where J = ?J and Q = ?Q, OF assms(1) [unfolded poll_next_def] start])
    show "?Q (case x of Pending \<Rightarrow> Pending | Ready None \<Rightarrow> Ready None | Ready (Some (Inl e)) \<Rightarrow> Ready (Some (Inl e))) t1"
      if "?J t" "poll_next_frame E w t = Some (x, t1)" "\<forall>f. x \<noteq> Ready (Some (Inr f))" for t x t1
      using frame [OF that(1,2)] that(3) by (auto simp: tells_def split: poll.splits option.splits sum.splits)
  next
    show "?Q (Ready (Some x)) t2" if "?J t" "poll_next_frame E w t = Some (Ready (Some (Inr f)), t1)"
        "assemble (max_payload_len (limits (decoder (inner s)))) t1 f = Inl (x, t2)" for t f t1 x t2
      using asm [OF that(1,2), of "max_payload_len (limits (decoder (inner s)))"] that(3) by simp
  next
    show "?J t2" if "?J t" "poll_next_frame E w t = Some (Ready (Some (Inr f)), t1)"
        "assemble (max_payload_len (limits (decoder (inner s)))) t1 f = Inr t2" for t f t1 t2
      using asm [OF that(1,2), of "max_payload_len (limits (decoder (inner s)))"] that(3) by simp
  qed
qed

lemma close_drain_tells:
  assumes "close_drain E w s = Some (y, s')" and "ws_inv s"
  shows "tells R happened w (\<lambda>_. False) s y s' \<and> ws_inv s'"
proof -
  let ?J = "\<lambda>t. R (io (inner s)) (io (inner t)) \<and> ws_inv t"
  have step: "tells R happened w io_error_item s x t1 \<and> ws_inv t1" if "?J t" "poll_next E w t = Some (x, t1)" for t x t1
    using tells_later poll_next_tells [OF that(2)] that(1) by blast
  have start: "?J s" using R_refl assms(2) by blast
  show ?thesis
  proof (rule close_drain_rounds [where J = ?J and Q = "\<lambda>y s'. tells R happened w (\<lambda>_. False) s y s' \<and> ws_inv s'",
        OF assms(1) start])
    show "tells R happened w (\<lambda>_. False) s (case x of Pending \<Rightarrow> Pending | Ready _ \<Rightarrow> Ready ()) t1 \<and> ws_inv t1"
      if "?J t" "poll_next E w t = Some (x, t1)" for t x t1
      using step [OF that] by (auto simp: tells_def split: poll.split)
  next
    show "?J t1" if "?J t" "poll_next E w t = Some (Ready (Some x), t1)" for t x t1
      using step [OF that] by (simp add: tells_def)
  qed
qed

lemma poll_close_tells:
  assumes pc: "poll_close E w s = Some (y, s')" and inv: "ws_inv s"
  shows "tells R happened w sink_error s y s'"
proof -
  let ?s = "if state s = Active then queue_frame E s DEFAULT_CLOSE else s"
  have s0: "ws_inv ?s" "io (inner ?s) = io (inner s)" using queue_frame_sends(2) [OF inv] queue_frame_keeps inv by simp_all
  from pc obtain x t where d: "close_drain E w ?s = Some (x, t)" by (auto simp: poll_close_def split: option.splits)
  note heard = close_drain_tells [OF d s0(1)]
  show ?thesis
  proof (cases x)
    case Pending
    then show ?thesis using pc d heard s0(2) by (auto simp: poll_close_def tells_def)
  next
    case (Ready u)
    obtain z t2 where f: "poll_flush E w t = Some (z, t2)"
      using pc d Ready by (auto simp: poll_close_def split: option.splits)
    have "fq_inv (frame_queue t)" using heard by (simp add: ws_inv_def)
    from poll_flush_tells [OF f this] have flushed: "tells R happened w sink_error s z t2"
      using heard s0(2) tells_later [of s t w sink_error z t2] by (auto simp: tells_def)
    obtain v j where v: "io_poll_shutdown E w (io (inner t2)) = (v, j)" by (cases "io_poll_shutdown E w (io (inner t2))")
    show ?thesis
    proof (cases "\<exists>u. z = Ready (Inr u)")
      case True
      then have "io (inner s') = j" and "(y = Pending \<longrightarrow> v = Pending) \<and> (sink_error y \<longrightarrow> sink_error v)"
        using pc d Ready f v by (auto simp: poll_close_def Let_def set_io_def split: poll.splits sum.splits)
      moreover have "R (io (inner s)) (io (inner t2))" using flushed by (simp add: tells_def)
      ultimately show ?thesis using shutdown_heard [OF v] R_trans happened_later unfolding tells_def by blast
    next
      case False
      then have "s' = t2" "y = z" using pc d Ready f by (auto simp: poll_close_def split: poll.splits sum.splits)
      then show ?thesis using flushed by simp
    qed
  qed
qed

lemma poll_ready_tells:
  assumes "poll_ready E w s = Some (y, s')" and "fq_inv (frame_queue s)"
  shows "tells R happened w sink_error s y s'"
proof (cases "flush_threshold (config s) \<le> remaining (frame_queue s)")
  case True
  then show ?thesis using assms(1) by (intro poll_flush_tells [OF _ assms(2)]) (simp add: poll_ready_def)
next
  case False
  then show ?thesis using assms(1) R_refl by (auto simp: poll_ready_def tells_def)
qed

end

subsection \<open>Over a byte stream\<close>

text \<open>The reads of one call of \<open>FramedRead\<close>, with the answer to the last of them.\<close>

inductive reads ::
  "'io async_io \<Rightarrow> waker \<Rightarrow> 'io \<Rightarrow> (io_error + bytes) poll option \<Rightarrow> 'io \<Rightarrow> bool"
  for A :: "'io async_io" and w :: waker and i :: 'io where
  reads_none: "reads A w i None i"
| reads_more: "reads A w i y j \<Longrightarrow> 0 < n \<Longrightarrow> aio_read A w n j = (x, k) \<Longrightarrow> reads A w i (Some x) k"

text \<open>
  The documentation of \<open>FramedRead\<close>: it is pending only if a read is, and its I/O errors are those of a
  read or an end of file within a frame.
\<close>

locale awaited_transport = byte_transport U A seen E for U A seen and E :: "('io, 'f) env" +
  assumes next_reads: "codec_inv (decoder fr) (buffer fr) \<Longrightarrow> framed_poll_next E w fr = (x, fr') \<Longrightarrow>
    \<exists>y. reads A w (io fr) y (io fr') \<and> (x = Pending \<longrightarrow> y = Some Pending)
      \<and> ((\<exists>e. x = Ready (Some (Inl (Io e)))) \<longrightarrow> y = Some (Ready (Inr [])) \<or> (\<exists>e. y = Some (Ready (Inl e))))"

text \<open>What a byte stream says of its own operations.\<close>

locale heard_stream = byte_stream A seen + causes R happened
  for A :: "'io async_io" and seen and R :: "'io \<Rightarrow> 'io \<Rightarrow> bool" and happened +
  assumes reading: "0 < n \<Longrightarrow> aio_read A w n i = (x, j) \<Longrightarrow>
      R i j \<and> (x = Pending \<longrightarrow> happened (Waits w) i j) \<and> ((\<exists>e. x = Ready (Inl e)) \<or> x = Ready (Inr []) \<longrightarrow> happened Fails i j)"
    and writing: "bs \<noteq> [] \<Longrightarrow> aio_write A w bs i = (y, j) \<Longrightarrow>
      R i j \<and> (y = Pending \<longrightarrow> happened (Waits w) i j) \<and> ((\<exists>e. y = Ready (Inl e)) \<or> y = Ready (Inr 0) \<longrightarrow> happened Fails i j)"
    and writing_vectored: "concat bss \<noteq> [] \<Longrightarrow> aio_write_vectored A w bss i = (y, j) \<Longrightarrow>
      R i j \<and> (y = Pending \<longrightarrow> happened (Waits w) i j) \<and> ((\<exists>e. y = Ready (Inl e)) \<or> y = Ready (Inr 0) \<longrightarrow> happened Fails i j)"
    and flushing: "aio_flush A w i = (z, j) \<Longrightarrow>
      R i j \<and> (z = Pending \<longrightarrow> happened (Waits w) i j) \<and> ((\<exists>e. z = Ready (Inl e)) \<longrightarrow> happened Fails i j)"
    and shutting_down: "aio_shutdown A w i = (z, j) \<Longrightarrow>
      R i j \<and> (z = Pending \<longrightarrow> happened (Waits w) i j) \<and> ((\<exists>e. z = Ready (Inl e)) \<longrightarrow> happened Fails i j)"

context heard_stream
begin

lemma reads_heard:
  "reads A w i y j \<Longrightarrow> R i j \<and> (y = Some Pending \<longrightarrow> happened (Waits w) i j)
    \<and> (y = Some (Ready (Inr [])) \<or> (\<exists>e. y = Some (Ready (Inl e))) \<longrightarrow> happened Fails i j)"
proof (induction rule: reads.induct)
  case reads_none
  then show ?case using R_refl by simp
next
  case (reads_more y j n x k)
  from reading [OF reads_more.hyps(2,3)] reads_more.IH show ?case using R_trans happened_later by blast
qed

lemma write_buf_heard:
  assumes "fq_inv fq" and rem: "has_remaining fq" and wb: "write_buf A w i fq = (y, j, fq')"
  shows "R i j \<and> (y = Pending \<longrightarrow> happened (Waits w) i j) \<and> ((\<exists>e. y = Ready (Inl e)) \<or> y = Ready (Inr 0) \<longrightarrow> happened Fails i j)"
proof -
  have full: "contents fq \<noteq> []" using rem fq.rem_eq [OF assms(1)] by (auto simp: has_remaining_def)
  obtain cs c where chunks: "chunks_vectored fq 64 = Some cs" "concat cs \<noteq> []" "prefix (concat cs) (contents fq)"
      "chunk fq = Some c" "c \<noteq> []" "prefix c (contents fq)"
    using fq.vec_prefix [OF assms(1), of 64] fq.chk_prefix [OF assms(1)] full by auto
  define o1 where "o1 = (if aio_is_write_vectored A i then aio_write_vectored A w cs i else aio_write A w c i)"
  define b where "b = (if aio_is_write_vectored A i then concat cs else c)"
  have b: "prefix b (contents fq)" using chunks by (simp add: b_def)
  have ok: "write_ok b (seen i) (fst o1) (seen (snd o1))" using write_law vectored_law by (simp add: o1_def b_def)
  have heard: "R i (snd o1) \<and> (fst o1 = Pending \<longrightarrow> happened (Waits w) i (snd o1))
      \<and> ((\<exists>e. fst o1 = Ready (Inl e)) \<or> fst o1 = Ready (Inr 0) \<longrightarrow> happened Fails i (snd o1))"
    using writing [OF chunks(5) surjective_pairing, of i w] writing_vectored [OF chunks(2) surjective_pairing, of i w]
    by (cases "aio_is_write_vectored A i") (simp_all add: o1_def)
  have "advance fq n \<noteq> None" if "fst o1 = Ready (Inr n)" for n
    using that ok prefix_length_le [OF b] fq.adv_drop [OF assms(1), of n] by (auto simp: write_ok_def)
  then have "y = fst o1 \<and> j = snd o1"
    using wb rem chunks(1,4)
    by (cases "aio_is_write_vectored A i")
      (auto simp: write_buf_def o1_def split_beta split: poll.splits sum.splits option.splits)
  then show ?thesis using heard by simp
qed

end

lemma heard_over_stream:
  assumes "awaited_transport U A seen E" and "heard_stream A seen R happened"
  shows "heard_transport U E (\<lambda>i. fst (seen i)) R happened"
proof -
  have bt: "byte_transport U A seen E" using assms(1) by (rule awaited_transport.axioms(1))
  show ?thesis
  proof (rule heard_transport.intro [OF byte_transport.is_transport [OF bt] heard_stream.axioms(2) [OF assms(2)]
        heard_transport_axioms.intro])
    fix fr fr' w x
    assume "codec_inv (decoder fr) (buffer fr)" and "framed_poll_next E w fr = (x, fr')"
    from awaited_transport.next_reads [OF assms(1) this] obtain y where y: "reads A w (io fr) y (io fr')"
      "x = Pending \<longrightarrow> y = Some Pending"
      "(\<exists>e. x = Ready (Some (Inl (Io e)))) \<longrightarrow> y = Some (Ready (Inr [])) \<or> (\<exists>e. y = Some (Ready (Inl e)))" by blast
    from heard_stream.reads_heard [OF assms(2) y(1)] y(2,3) show "R (io fr) (io fr') \<and>
      (x = Pending \<longrightarrow> happened (Waits w) (io fr) (io fr')) \<and> (io_error_item x \<longrightarrow> happened Fails (io fr) (io fr'))" by blast
  qed (use heard_stream.write_buf_heard [OF assms(2)] heard_stream.flushing [OF assms(2)] heard_stream.shutting_down [OF assms(2)]
      in \<open>simp_all add: byte_transport.writes_buf [OF bt] byte_transport.flushes [OF bt] byte_transport.shuts_down [OF bt]\<close>)
qed

subsection \<open>Such a reader exists\<close>

text \<open>With one read more than there are bytes to give, \<open>framed_next\<close> is pending only if a read is.\<close>

definition awaited_env ::
  "simdutf8 \<Rightarrow> platform \<Rightarrow> (nat \<Rightarrow> bytes) \<Rightarrow> 'io async_io \<Rightarrow> ('io \<Rightarrow> bytes \<times> bytes) \<Rightarrow> ('io, unit) env" where
  "awaited_env U pf keys A seen = (framed_env U pf keys 0 A)
     \<lparr>framed_poll_next := (\<lambda>w fr. framed_next U pf A w (Suc (length (snd (seen (io fr))))) fr)\<rparr>"

lemma reads_first:
  "reads A w j y k \<Longrightarrow> 0 < n \<Longrightarrow> aio_read A w n i = (x, j) \<Longrightarrow> reads A w i (Some (case y of None \<Rightarrow> x | Some z \<Rightarrow> z)) k"
proof (induction rule: reads.induct)
  case reads_none
  from reads_more [OF _ reads_none(1,2)] show ?case by (auto intro: reads.reads_none)
next
  case (reads_more y j n z k)
  show ?case using reads.reads_more [OF reads_more.IH [OF reads_more.prems] reads_more.hyps(2,3)] by simp
qed

lemma framed_next_awaits:
  assumes U: "simdutf8_lib U" and A: "byte_stream A seen"
    and "codec_inv (decoder fr) (buffer fr)" and "framed_next U pf A w k fr = (x, fr')" and "length (snd (seen (io fr))) < k"
  shows "\<exists>y. reads A w (io fr) y (io fr') \<and> (x = Pending \<longrightarrow> y = Some Pending)
    \<and> ((\<exists>e. x = Ready (Some (Inl (Io e)))) \<longrightarrow> y = Some (Ready (Inr [])) \<or> (\<exists>e. y = Some (Ready (Inl e))))"
  using assms(3-)
proof (induction k arbitrary: fr)
  case (Suc k fr)
  from simdutf8_lib.decode_total [OF U Suc.prems(1), of pf] obtain d p b where
    d: "decode U pf (decoder fr) (buffer fr) = Some (d, p, b)" and inv: "d = Inr None \<Longrightarrow> codec_inv p b"
    by (auto simp: decode_post_def)
  have no_io: "d \<noteq> Inl (Io e)" for e using decode_error [of U pf "decoder fr" "buffer fr"] d by auto
  obtain y i where ri: "aio_read A w 8192 (io fr) = (y, i)" by (cases "aio_read A w 8192 (io fr)")
  have law: "read_ok 8192 (seen (io fr)) y (seen i)" using byte_stream.read_law [OF A, of 8192 "io fr" w] ri by simp
  have one: "reads A w (io fr) (Some y) i" by (rule reads_more [OF reads_none _ ri]) simp
  let ?fr2 = "fr\<lparr>decoder := p, buffer := b, io := i\<rparr>"
  show ?case
  proof (cases "d = Inr None \<and> (\<exists>bs. y = Ready (Inr bs) \<and> bs \<noteq> [])")
    case True
    then obtain bs where bs: "d = Inr None" "y = Ready (Inr bs)" "bs \<noteq> []" by blast
    let ?fr3 = "?fr2\<lparr>buffer := b @ bs\<rparr>"
    have "framed_next U pf A w k ?fr3 = (x, fr')"
      using Suc.prems(2) d ri bs by (simp add: framed_next.simps [of U pf A w "Suc k"] Let_def)
    moreover have "codec_inv (decoder ?fr3) (buffer ?fr3)" using inv [OF bs(1)] by (simp add: codec_inv_append)
    moreover have "length (snd (seen (io ?fr3))) < k"
    proof -
      have "snd (seen (io fr)) = bs @ snd (seen i)" using law bs by (simp add: read_ok_def)
      then show ?thesis using Suc.prems(3) bs(3) by (cases bs) simp_all
    qed
    ultimately obtain z where z: "reads A w i z (io fr')" "x = Pending \<longrightarrow> z = Some Pending"
      "(\<exists>e. x = Ready (Some (Inl (Io e)))) \<longrightarrow> z = Some (Ready (Inr [])) \<or> (\<exists>e. z = Some (Ready (Inl e)))"
      using Suc.IH [of ?fr3] by auto
    show ?thesis using reads_first [OF z(1) _ ri] z(2,3) by (intro exI [of _ "Some (case z of None \<Rightarrow> y | Some z \<Rightarrow> z)"]) auto
  next
    case False
    show ?thesis
    proof (cases "d = Inr None")
      case True
      have "io fr' = i" and "(x = Pending \<longrightarrow> y = Pending) \<and> ((\<exists>e. x = Ready (Some (Inl (Io e)))) \<longrightarrow> y = Ready (Inr []) \<or> (\<exists>e. y = Ready (Inl e)))"
        using Suc.prems(2) d ri False True
        by (auto simp: framed_next.simps [of U pf A w "Suc k"] Let_def split: poll.splits sum.splits if_splits)
      then show ?thesis using one by (intro exI [of _ "Some y"]) auto
    next
      case early: False
      then have "io fr' = io fr" and "x \<noteq> Pending \<and> (\<forall>e. x \<noteq> Ready (Some (Inl (Io e))))"
        using Suc.prems(2) d no_io by (auto simp: framed_next.simps [of U pf A w "Suc k"] Let_def split: sum.splits option.splits)
      then show ?thesis by (intro exI [of _ None]) (simp add: reads.reads_none)
    qed
  qed
qed simp

theorem awaited_env_transport:
  assumes "simdutf8_lib U" and "byte_stream A seen" and "\<And>k. length (keys k) = 4"
  shows "awaited_transport U A seen (awaited_env U pf keys A seen)"
proof (rule awaited_transport.intro [OF byte_transport.intro [OF assms(1,2) byte_transport_axioms.intro]
      awaited_transport_axioms.intro])
  fix fr fr' :: "('a, unit) framed_read" and w x
  assume inv: "codec_inv (decoder fr) (buffer fr)" and next_call: "framed_poll_next (awaited_env U pf keys A seen) w fr = (x, fr')"
  show "\<exists>cs. reads_to U (cpu (awaited_env U pf keys A seen)) fr cs x fr' \<and> fst (seen (io fr')) = fst (seen (io fr))
      \<and> snd (seen (io fr)) = concat cs @ snd (seen (io fr'))"
    using framed_next_reads [OF assms(1,2) inv] next_call by (simp add: awaited_env_def framed_env_def)
  show "\<exists>y. reads A w (io fr) y (io fr') \<and> (x = Pending \<longrightarrow> y = Some Pending)
    \<and> ((\<exists>e. x = Ready (Some (Inl (Io e)))) \<longrightarrow> y = Some (Ready (Inr [])) \<or> (\<exists>e. y = Some (Ready (Inl e))))"
    using framed_next_awaits [OF assms(1,2) inv] next_call by (simp add: awaited_env_def framed_env_def)
qed (simp_all add: awaited_env_def framed_env_def assms(3))

end
