(* ===== verification/Fuzz_Stream.thy ===== *)
theory Fuzz_Stream
  imports Waiting
begin

text \<open>
  The transport of the fuzz target, \<open>DeterministicStream\<close> of \<open>fuzz/fuzz_targets/stream.rs\<close>: it keeps the
  contract of a byte stream, it wakes the task whenever it is pending, and each time uses up one of its
  behaviours. So a WebSocket stream over it never waits for a wake-up that does not come.
\<close>

subsection \<open>The stream\<close>

datatype io_behavior = Limit usize | Io_Error | Io_Pending

text \<open>\<open>unwrap_or_default\<close> of an empty list of behaviours.\<close>

definition io_behavior_default :: io_behavior where
  "io_behavior_default = Limit usize_MAX"

text \<open>\<open>wakes\<close> are the wakers that were woken, the last first; the rest are the fields of the source.\<close>

record deterministic_stream =
  data_to_read :: bytes
  data_written :: bytes
  io_behaviors :: "io_behavior list"
  ends :: bool
  wakes :: "waker list"

definition wake_by_ref :: "waker \<Rightarrow> deterministic_stream \<Rightarrow> deterministic_stream" where
  "wake_by_ref w d = d\<lparr>wakes := w # wakes d\<rparr>"

text \<open>\<open>io_behaviors.pop().unwrap_or_default()\<close>; \<open>pop\<close> takes the last one.\<close>

definition pop_behavior :: "deterministic_stream \<Rightarrow> io_behavior \<times> deterministic_stream" where
  "pop_behavior d = (if io_behaviors d = [] then (io_behavior_default, d)
     else (last (io_behaviors d), d\<lparr>io_behaviors := butlast (io_behaviors d)\<rparr>))"

abbreviation "broken_pipe \<equiv> TransportError 0"
abbreviation "unsupported \<equiv> TransportError 1"

definition det_read :: "waker \<Rightarrow> nat \<Rightarrow> deterministic_stream \<Rightarrow> (io_error + bytes) poll \<times> deterministic_stream" where
  "det_read w n d =
     (let (b, d1) = pop_behavior d
      in case b of
           Limit k \<Rightarrow>
             if \<not> ends d1 \<and> data_to_read d1 = [] then (Pending, wake_by_ref w d1)
             else let end_at = min (min n k) (length (data_to_read d1))
                  in (Ready (Inr (take end_at (data_to_read d1))), d1\<lparr>data_to_read := drop end_at (data_to_read d1)\<rparr>)
         | Io_Error \<Rightarrow> (Ready (Inl broken_pipe), d1)
         | Io_Pending \<Rightarrow> (Pending, wake_by_ref w d1))"

definition det_write :: "waker \<Rightarrow> bytes \<Rightarrow> deterministic_stream \<Rightarrow> (io_error + usize) poll \<times> deterministic_stream" where
  "det_write w bs d =
     (let (b, d1) = pop_behavior d
      in case b of
           Limit k \<Rightarrow>
             let amount = min (length bs) k
             in (Ready (Inr amount), d1\<lparr>data_written := data_written d1 @ take amount bs\<rparr>)
         | Io_Error \<Rightarrow> (Ready (Inl broken_pipe), d1)
         | Io_Pending \<Rightarrow> (Pending, wake_by_ref w d1))"

definition det_flush :: "waker \<Rightarrow> deterministic_stream \<Rightarrow> (io_error + unit) poll \<times> deterministic_stream" where
  "det_flush w d =
     (let (b, d1) = pop_behavior d
      in case b of
           Limit k \<Rightarrow> (Ready (Inr ()), d1)
         | Io_Error \<Rightarrow> (Ready (Inl broken_pipe), d1)
         | Io_Pending \<Rightarrow> (Pending, wake_by_ref w d1))"

definition det_shutdown :: "waker \<Rightarrow> deterministic_stream \<Rightarrow> (io_error + unit) poll \<times> deterministic_stream" where
  "det_shutdown w d =
     (let (b, d1) = pop_behavior d
      in case b of
           Limit k \<Rightarrow> (Ready (Inr ()), d1)
         | Io_Error \<Rightarrow> (Ready (Inl unsupported), d1)
         | Io_Pending \<Rightarrow> (Pending, wake_by_ref w d1))"

text \<open>
  The default methods of \<open>AsyncWrite\<close>: a vectored write writes the first buffer that is not empty, and the
  stream says that it has no better one.
\<close>

definition det_io :: "deterministic_stream async_io" where
  "det_io = \<lparr>aio_read = det_read, aio_write = det_write, aio_flush = det_flush, aio_shutdown = det_shutdown,
     aio_write_vectored = (\<lambda>w bss. det_write w (case filter (\<lambda>bs. bs \<noteq> []) bss of [] \<Rightarrow> [] | bs # _ \<Rightarrow> bs)),
     aio_is_write_vectored = (\<lambda>_. False)\<rparr>"

subsection \<open>It is a byte stream\<close>

abbreviation "det_seen \<equiv> \<lambda>d. (data_written d, data_to_read d)"

lemma pop_behavior_keeps:
  "pop_behavior d = (b, d1) \<Longrightarrow> data_to_read d1 = data_to_read d \<and> data_written d1 = data_written d
     \<and> ends d1 = ends d \<and> wakes d1 = wakes d"
  by (auto simp: pop_behavior_def split: if_splits)

lemma pop_behavior_cases:
  "pop_behavior d = (b, d1) \<Longrightarrow>
     (if io_behaviors d = [] then b = Limit usize_MAX \<and> io_behaviors d1 = [] else length (io_behaviors d1) < length (io_behaviors d))"
  by (auto simp: pop_behavior_def io_behavior_default_def split: if_splits)

lemma wake_by_ref_simps [simp]:
  "data_to_read (wake_by_ref w d) = data_to_read d" "data_written (wake_by_ref w d) = data_written d"
  "io_behaviors (wake_by_ref w d) = io_behaviors d" "ends (wake_by_ref w d) = ends d"
  "wakes (wake_by_ref w d) = w # wakes d"
  by (simp_all add: wake_by_ref_def)

lemmas det_defs = det_read_def det_write_def det_flush_def det_shutdown_def

lemma first_buffer_prefix: "prefix (case filter (\<lambda>bs. bs \<noteq> []) bss of [] \<Rightarrow> [] | bs # _ \<Rightarrow> bs) (concat bss)"
  by (induction bss) auto

lemma write_ok_prefix: "write_ok b before r after \<Longrightarrow> prefix b b' \<Longrightarrow> write_ok b' before r after"
  by (auto simp: write_ok_def elim!: prefixE split: poll.splits sum.splits)

lemma det_write_ok: "write_ok bs (det_seen d) (fst (det_write w bs d)) (det_seen (snd (det_write w bs d)))"
  by (auto simp: det_write_def write_ok_def Let_def split: prod.split io_behavior.split dest!: pop_behavior_keeps)

interpretation det: byte_stream det_io det_seen
proof
  show "read_ok n (det_seen d) (fst (aio_read det_io w n d)) (det_seen (snd (aio_read det_io w n d)))" for n d w
    by (auto simp: det_io_def det_read_def read_ok_def Let_def split: prod.split io_behavior.split dest!: pop_behavior_keeps)
  show "write_ok bs (det_seen d) (fst (aio_write det_io w bs d)) (det_seen (snd (aio_write det_io w bs d)))" for bs d w
    by (simp add: det_io_def det_write_ok)
  show "write_ok (concat bss) (det_seen d) (fst (aio_write_vectored det_io w bss d)) (det_seen (snd (aio_write_vectored det_io w bss d)))"
    for bss d w
    using write_ok_prefix [OF det_write_ok first_buffer_prefix] by (simp add: det_io_def)
  show "det_seen (snd (aio_flush det_io w d)) = det_seen d" "det_seen (snd (aio_shutdown det_io w d)) = det_seen d" for w d
    by (auto simp: det_io_def det_flush_def det_shutdown_def split: prod.split io_behavior.split dest!: pop_behavior_keeps)
qed

subsection \<open>Its waits and failures\<close>

text \<open>
  Operations use up behaviours and wake tasks. A stream without behaviours that does not end never fails.
\<close>

definition det_uses :: "deterministic_stream \<Rightarrow> deterministic_stream \<Rightarrow> bool" where
  "det_uses d e \<longleftrightarrow> ends e = ends d \<and> length (io_behaviors e) \<le> length (io_behaviors d)
     \<and> (\<forall>v. count_list (wakes d) v \<le> count_list (wakes e) v)"

definition woken :: "waker \<Rightarrow> deterministic_stream \<Rightarrow> deterministic_stream \<Rightarrow> bool" where
  "woken w d e \<longleftrightarrow> count_list (wakes d) w < count_list (wakes e) w"

definition quiet :: "deterministic_stream \<Rightarrow> bool" where
  "quiet d \<longleftrightarrow> io_behaviors d = [] \<and> \<not> ends d"

fun det_happened :: "cause \<Rightarrow> deterministic_stream \<Rightarrow> deterministic_stream \<Rightarrow> bool" where
  "det_happened (Waits w) d e \<longleftrightarrow> det_uses d e \<and> woken w d e
     \<and> (ends d \<longrightarrow> length (io_behaviors e) < length (io_behaviors d))"
| "det_happened Fails d e \<longleftrightarrow> det_uses d e \<and> \<not> quiet d"

lemma det_uses_quiet: "det_uses d e \<Longrightarrow> quiet d \<Longrightarrow> quiet e"
  by (simp add: det_uses_def quiet_def)

lemma det_causes: "causes det_uses det_happened"
proof
  show "det_uses d d" for d by (simp add: det_uses_def)
  show later: "det_uses d e \<Longrightarrow> det_uses e f \<Longrightarrow> det_uses d f" for d e f
    unfolding det_uses_def by (meson order_trans)
  show "det_happened c d e \<Longrightarrow> det_uses d e" for c d e by (cases c) simp_all
  show "det_uses d e \<Longrightarrow> det_happened c e f \<Longrightarrow> det_happened c d f" for c d e f
    using later [of d e f] det_uses_quiet [of d e]
    by (cases c) (auto simp: det_uses_def woken_def intro: le_less_trans less_le_trans)
qed

interpretation det: heard_stream det_io det_seen det_uses det_happened
proof (rule heard_stream.intro [OF det.byte_stream_axioms det_causes heard_stream_axioms.intro])
  note simps = det_io_def det_uses_def woken_def quiet_def det_defs Let_def
  have one_write: "det_uses d e \<and> (y = Pending \<longrightarrow> det_happened (Waits w) d e)
      \<and> ((\<exists>e. y = Ready (Inl e)) \<or> y = Ready (Inr 0) \<longrightarrow> det_happened Fails d e)"
    if "bs \<noteq> []" "det_write w bs d = (y, e)" for bs w d y e
  proof -
    obtain b d1 where p: "pop_behavior d = (b, d1)" by (cases "pop_behavior d")
    show ?thesis using that pop_behavior_keeps [OF p] pop_behavior_cases [OF p]
      by (cases b) (auto simp: simps p min_def split: if_splits)
  qed
  show "det_uses d e \<and> (y = Pending \<longrightarrow> det_happened (Waits w) d e)
      \<and> ((\<exists>e. y = Ready (Inl e)) \<or> y = Ready (Inr 0) \<longrightarrow> det_happened Fails d e)"
    if "bs \<noteq> []" "aio_write det_io w bs d = (y, e)" for bs w d y e
    using one_write that by (simp add: det_io_def)
  show "det_uses d e \<and> (y = Pending \<longrightarrow> det_happened (Waits w) d e)
      \<and> ((\<exists>e. y = Ready (Inl e)) \<or> y = Ready (Inr 0) \<longrightarrow> det_happened Fails d e)"
    if "concat bss \<noteq> []" "aio_write_vectored det_io w bss d = (y, e)" for bss w d y e
  proof -
    have "(case filter (\<lambda>bs. bs \<noteq> []) bss of [] \<Rightarrow> [] | bs # _ \<Rightarrow> bs) \<noteq> []" using that(1) by (induction bss) auto
    from one_write [OF this] that(2) show ?thesis by (simp add: det_io_def)
  qed
  show "det_uses d e \<and> (x = Pending \<longrightarrow> det_happened (Waits w) d e)
      \<and> ((\<exists>e. x = Ready (Inl e)) \<or> x = Ready (Inr []) \<longrightarrow> det_happened Fails d e)"
    if "0 < n" "aio_read det_io w n d = (x, e)" for n w d x e
  proof -
    obtain b d1 where p: "pop_behavior d = (b, d1)" by (cases "pop_behavior d")
    show ?thesis using that pop_behavior_keeps [OF p] pop_behavior_cases [OF p]
      by (cases b) (auto simp: simps p min_def split: if_splits)
  qed
  show "det_uses d e \<and> (z = Pending \<longrightarrow> det_happened (Waits w) d e) \<and> ((\<exists>e. z = Ready (Inl e)) \<longrightarrow> det_happened Fails d e)"
    if "aio_flush det_io w d = (z, e)" for w d z e
  proof -
    obtain b d1 where p: "pop_behavior d = (b, d1)" by (cases "pop_behavior d")
    show ?thesis using that pop_behavior_keeps [OF p] pop_behavior_cases [OF p]
      by (cases b) (auto simp: simps p split: if_splits)
  qed
  show "det_uses d e \<and> (z = Pending \<longrightarrow> det_happened (Waits w) d e) \<and> ((\<exists>e. z = Ready (Inl e)) \<longrightarrow> det_happened Fails d e)"
    if "aio_shutdown det_io w d = (z, e)" for w d z e
  proof -
    obtain b d1 where p: "pop_behavior d = (b, d1)" by (cases "pop_behavior d")
    show ?thesis using that pop_behavior_keeps [OF p] pop_behavior_cases [OF p]
      by (cases b) (auto simp: simps p split: if_splits)
  qed
qed

subsection \<open>No call waits for nothing\<close>

text \<open>
  C23: A stream waits and fails only with its transport. Let \<open>happened (Waits w) i j\<close> hold when the last operation of the
  transport between \<open>i\<close> and \<open>j\<close> was pending and had the waker \<open>w\<close>, and \<open>happened Fails i j\<close> when it failed or
  gave nothing. If a call of the stream with the waker of a task is pending, then the transport was pending for
  this waker during the call, and in its last operation, whatever was flushed, read, decoded and answered before;
  so a task is never left waiting for a wake-up that only another task, or nobody, will get. And if a call returns an
  I/O error, then the last operation of the transport has failed.
\<close>

theorem pending_and_failure_are_the_transports:
  assumes "heard_transport U E written R happened" and "ws_inv s"
  shows "(poll_next E w s = Some (Pending, s') \<or> poll_ready E w s = Some (Pending, s')
      \<or> poll_flush E w s = Some (Pending, s') \<or> poll_close E w s = Some (Pending, s')
      \<longrightarrow> happened (Waits w) (io (inner s)) (io (inner s')))
    \<and> (poll_next E w s = Some (Ready (Some (Inl (Io e))), s') \<or> poll_ready E w s = Some (Ready (Inl e'), s')
      \<or> poll_flush E w s = Some (Ready (Inl e'), s') \<or> poll_close E w s = Some (Ready (Inl e'), s')
      \<longrightarrow> happened Fails (io (inner s)) (io (inner s')))"
proof -
  have fq: "fq_inv (frame_queue s)" using assms(2) by (simp add: ws_inv_def)
  note next_call = heard_transport.poll_next_tells [OF assms(1) _ assms(2), of w _ s']
  note ready = heard_transport.poll_ready_tells [OF assms(1) _ fq, of w _ s']
  note flush = heard_transport.poll_flush_tells [OF assms(1) _ fq, of w _ s']
  note close = heard_transport.poll_close_tells [OF assms(1) _ assms(2), of w _ s']
  show ?thesis
    using next_call [of Pending] ready [of Pending] flush [of Pending] close [of Pending]
      next_call [of "Ready (Some (Inl (Io e)))"] ready [of "Ready (Inl e')"] flush [of "Ready (Inl e')"] close [of "Ready (Inl e')"]
    by (auto simp: tells_def)
qed

text \<open>
  A client over a transport that takes a ping, is pending for the task that reads, and ends; it owes a pong.
\<close>

abbreviation "fuzz_env \<equiv> awaited_env std_utf8 scalar_platform (\<lambda>_. [0x37, 0xFA, 0x21, 0x3D]) det_io det_seen"

interpretation fuzz_env: awaited_transport std_utf8 det_io det_seen fuzz_env
  by (rule awaited_env_transport [OF std.simdutf8_lib_axioms det.byte_stream_axioms]) simp

interpretation fuzz_env: heard_transport std_utf8 fuzz_env data_written det_uses det_happened
  using heard_over_stream [OF fuzz_env.awaited_transport_axioms det.heard_stream_axioms] by simp

definition waiting_reader :: "(deterministic_stream, unit) websocket_stream" where
  "waiting_reader = from_raw_stream
     \<lparr>data_to_read = [], data_written = [], io_behaviors = [Io_Error, Io_Pending], ends = True, wakes = []\<rparr>
     () Client config_default limits_default"

theorem pending_and_failure_are_the_transports_witness:
  "\<exists>s1 s2. poll_next fuzz_env 7 waiting_reader = Some (Pending, s1) \<and> woken 7 (io (inner waiting_reader)) (io (inner s1))
     \<and> poll_next fuzz_env 8 s1 = Some (Ready (Some (Inl (Io broken_pipe))), s2) \<and> \<not> quiet (io (inner s1))"
proof -
  have w0: "ws_inv waiting_reader" unfolding waiting_reader_def by (rule ws_inv_new) (simp add: limits_default_def)
  let ?d = "\<lambda>bs ws. \<lparr>data_to_read = [], data_written = [], io_behaviors = bs, ends = True, wakes = ws\<rparr>"
  let ?s = "\<lambda>bs ws. from_raw_stream (?d bs ws) () Client config_default limits_default"
  have empty: "decode std_utf8 scalar_platform (protocol_new Client limits_default) [] = Some (Inr None, protocol_new Client limits_default, [])"
    by (simp add: decode_def decode_head_def slice_def)
  have "framed_poll_next fuzz_env 7 (inner (?s [Io_Error, Io_Pending] [])) = (Pending, inner (?s [Io_Error] [7]))"
    by (simp add: awaited_env_def framed_env_def framed_next.simps from_raw_stream_def empty det_io_def det_read_def
        pop_behavior_def wake_by_ref_def)
  then have s1: "poll_next fuzz_env 7 (?s [Io_Error, Io_Pending] []) = Some (Pending, ?s [Io_Error] [7])"
    unfolding poll_next_def
    by (subst poll_next_loop.simps) (simp add: poll_next_frame_def read_frame_def from_raw_stream_def has_remaining_def remaining_def frame_queue_new_def)
  have "framed_poll_next fuzz_env 8 (inner (?s [Io_Error] [7])) = (Ready (Some (Inl (Io broken_pipe))), inner (?s [] [7]))"
    by (simp add: awaited_env_def framed_env_def framed_next.simps from_raw_stream_def empty det_io_def det_read_def
        pop_behavior_def)
  then have s2: "poll_next fuzz_env 8 (?s [Io_Error] [7]) = Some (Ready (Some (Inl (Io broken_pipe))), (?s [] [7])\<lparr>state := CloseAcknowledged\<rparr>)"
    unfolding poll_next_def
    by (subst poll_next_loop.simps) (simp add: poll_next_frame_def read_frame_def on_read_error_def from_raw_stream_def
        has_remaining_def remaining_def frame_queue_new_def)
  have w1: "ws_inv (?s [Io_Error] [7])" by (rule ws_inv_new) (simp add: limits_default_def)
  have "woken 7 (io (inner waiting_reader)) (io (inner (?s [Io_Error] [7])))"
    using pending_and_failure_are_the_transports [OF fuzz_env.heard_transport_axioms w0, of 7 "?s [Io_Error] [7]" undefined undefined]
      s1 by (simp add: waiting_reader_def)
  moreover have "\<not> quiet (io (inner (?s [Io_Error] [7])))"
    using pending_and_failure_are_the_transports [OF fuzz_env.heard_transport_axioms w1, of 8
      "(?s [] [7])\<lparr>state := CloseAcknowledged\<rparr>" broken_pipe undefined] s2 by simp
  ultimately show ?thesis using s1 s2 unfolding waiting_reader_def by blast
qed

end
