(* ===== verification/Fuzz_Target.thy ===== *)
theory Fuzz_Target
  imports Fuzz_Stream Receiving Plain_Http
begin

text \<open>
  The fuzz target, \<open>fuzz/fuzz_targets/stream.rs\<close>: it runs arbitrary operations on a WebSocket stream over a
  \<open>DeterministicStream\<close>, each canceled after some polls, then reads what was written with a stream
  of the other role and panics if that finds anything that is not valid. The theory shows that no
  workload makes it panic or hang.
\<close>

subsection \<open>Messages\<close>

datatype arbitrary_message =
    Arbitrary_Binary bytes
  | Arbitrary_Text bytes
  | Arbitrary_Ping bytes
  | Arbitrary_Pong bytes
  | Arbitrary_Close u16 bytes

text \<open>\<open>str::is_char_boundary\<close>: an end of the string, or a byte that does not continue a code point.\<close>

definition is_char_boundary :: "bytes \<Rightarrow> usize \<Rightarrow> bool" where
  "is_char_boundary s i = (i = 0 \<or> i = length s \<or> (i < length s \<and> \<not> (0x80 \<le> s ! i \<and> s ! i \<le> 0xBF)))"

text \<open>The loop that cuts a reason: the first of the lengths that is a boundary.\<close>

fun truncate_reason :: "usize list \<Rightarrow> bytes \<Rightarrow> bytes" where
  "truncate_reason [] reason = reason"
| "truncate_reason (len # lens) reason =
     (if is_char_boundary reason len then take len reason else truncate_reason lens reason)"

fun to_message :: "arbitrary_message \<Rightarrow> message option" where
  "to_message (Arbitrary_Binary bs) = Some (message_binary (payload_from_bytes bs))"
| "to_message (Arbitrary_Text bs) = Some (message_text (payload_from_str bs))"
| "to_message (Arbitrary_Ping bs) = message_ping (payload_from_bytes (take 125 bs))"
| "to_message (Arbitrary_Pong bs) = message_pong (payload_from_bytes (take 125 bs))"
| "to_message (Arbitrary_Close code reason) =
     message_close
       (case close_code_try_from code of Inl _ \<Rightarrow> None | Inr c \<Rightarrow> if \<not> is_reserved c then Some c else None)
       (truncate_reason (rev [119..<124]) reason)"

subsection \<open>Workloads\<close>

datatype operation_kind = Read | Write arbitrary_message | Flush | Shut

record operation =
  op_kind :: operation_kind
  op_max_polls :: "byte option"

record workload =
  wl_server :: bool
  wl_data_to_read :: bytes
  wl_io_behaviors :: "io_behavior list"
  wl_operations :: "operation list"
  wl_frame_size :: usize
  wl_max_payload_len :: u16

text \<open>\<open>PollLimiter\<close>: its remaining polls and its \<open>poll\<close>.\<close>

record poll_limiter =
  remaining_polls :: "byte option"

definition limiter_poll :: "poll_limiter \<Rightarrow> unit poll \<times> poll_limiter" where
  "limiter_poll limit =
     (case remaining_polls limit of
        Some n \<Rightarrow> if 1 \<le> n then (Pending, limit\<lparr>remaining_polls := Some (n - 1)\<rparr>) else (Ready (), limit)
      | None \<Rightarrow> (Pending, limit))"

definition new_stream ::
  "'h http_lib \<Rightarrow> bool \<Rightarrow> config \<Rightarrow> limits \<Rightarrow> deterministic_stream \<Rightarrow> 'f \<Rightarrow> (deterministic_stream, 'f) websocket_stream" where
  "new_stream H server c l stream f =
     (if server then serve (server_limits (server_config (server_new H) c) l) stream f
      else take_over (client_limits (client_config (client_new H :: (unit, 'h) client_builder) c) l) stream f)"

subsection \<open>Polling\<close>

text \<open>
  \<open>SinkExt::feed_item\<close>: a message is handed over when the sink is ready. The other futures of the
  target poll one operation of the stream. Their results are dropped.
\<close>

definition feed_item ::
  "('io, 'f) env \<Rightarrow> waker \<Rightarrow> message \<Rightarrow> ('io, 'f) websocket_stream \<Rightarrow> (unit poll \<times> ('io, 'f) websocket_stream) option" where
  "feed_item E w m s =
     (case poll_ready E w s of
        None \<Rightarrow> None
      | Some (Pending, s1) \<Rightarrow> Some (Pending, s1)
      | Some (Ready (Inl _), s1) \<Rightarrow> Some (Ready (), s1)
      | Some (Ready (Inr _), s1) \<Rightarrow> map_option (Pair (Ready ()) \<circ> snd) (start_send E s1 m))"

definition unit_poll :: "'a poll \<Rightarrow> unit poll" where
  "unit_poll y = (case y of Pending \<Rightarrow> Pending | Ready _ \<Rightarrow> Ready ())"

text \<open>The future of an operation; \<open>None\<close> panics.\<close>

definition operation_future ::
  "('io, 'f) env \<Rightarrow> waker \<Rightarrow> operation_kind
     \<Rightarrow> (('io, 'f) websocket_stream \<Rightarrow> (unit poll \<times> ('io, 'f) websocket_stream) option) option" where
  "operation_future E w k =
     (case k of
        Read \<Rightarrow> Some (map_option (apfst unit_poll) \<circ> poll_next E w)
      | Write message \<Rightarrow> map_option (feed_item E w) (to_message message)
      | Flush \<Rightarrow> Some (map_option (apfst unit_poll) \<circ> poll_flush E w)
      | Shut \<Rightarrow> Some (map_option (apfst unit_poll) \<circ> poll_close E w))"

text \<open>
  \<open>block_on\<close> of a \<open>select!\<close> of a limiter and a future, the limiter first. The task is polled again when it has
  been woken, and otherwise sleeps for ever, which is \<open>None\<close>. A result \<open>None\<close> within \<open>Some\<close> is the
  limiter's.
\<close>

partial_function (option) select_limited ::
  "waker \<Rightarrow> ((deterministic_stream, 'f) websocket_stream \<Rightarrow> ('r poll \<times> (deterministic_stream, 'f) websocket_stream) option)
     \<Rightarrow> poll_limiter \<Rightarrow> (deterministic_stream, 'f) websocket_stream
     \<Rightarrow> ('r option \<times> (deterministic_stream, 'f) websocket_stream) option" where
  "select_limited w future limit s =
     (case limiter_poll limit of
        (Ready _, _) \<Rightarrow> Some (None, s)
      | (Pending, limit') \<Rightarrow>
          (case future s of
             None \<Rightarrow> None
           | Some (y, s1) \<Rightarrow>
               (case y of
                  Ready r \<Rightarrow> Some (Some r, s1)
                | Pending \<Rightarrow>
                    if woken w (io (inner s)) (io (inner s1)) then select_limited w future limit' s1 else None)))"

subsection \<open>The target\<close>

fun run_operations ::
  "(deterministic_stream, 'f) env \<Rightarrow> waker \<Rightarrow> operation list \<Rightarrow> (deterministic_stream, 'f) websocket_stream
     \<Rightarrow> (deterministic_stream, 'f) websocket_stream option" where
  "run_operations E w [] s = Some s"
| "run_operations E w (op # ops) s =
     (case operation_future E w (op_kind op) of
        None \<Rightarrow> None
      | Some future \<Rightarrow>
          (case select_limited w future \<lparr>remaining_polls = op_max_polls op\<rparr> s of
             None \<Rightarrow> None
           | Some (_, s1) \<Rightarrow> run_operations E w ops s1))"

text \<open>The loop of the sanity check. It panics on an error of the reading stream.\<close>

partial_function (option) sanity_check ::
  "(deterministic_stream, 'f) env \<Rightarrow> waker \<Rightarrow> (deterministic_stream, 'f) websocket_stream \<Rightarrow> unit option" where
  "sanity_check E w s =
     (case select_limited w (poll_next E w) \<lparr>remaining_polls = Some 1\<rparr> s of
        None \<Rightarrow> None
      | Some (r, s1) \<Rightarrow>
          (case r of
             None \<Rightarrow> Some ()
           | Some None \<Rightarrow> Some ()
           | Some (Some (Inl e)) \<Rightarrow> None
           | Some (Some (Inr m)) \<Rightarrow> sanity_check E w s1))"

definition fuzz ::
  "'h http_lib \<Rightarrow> (deterministic_stream, 'f) env \<Rightarrow> 'f \<Rightarrow> (deterministic_stream, 'g) env \<Rightarrow> 'g \<Rightarrow> waker \<Rightarrow> workload
     \<Rightarrow> unit option" where
  "fuzz H E f D g w wl =
     (case config_frame_size config_default (wl_frame_size wl) of
        None \<Rightarrow> None
      | Some c \<Rightarrow>
          (case run_operations E w (wl_operations wl)
                  (new_stream H (wl_server wl) c (limits_max_payload_len limits_default (Some (unat (wl_max_payload_len wl))))
                     \<lparr>data_to_read = wl_data_to_read wl, data_written = [], io_behaviors = wl_io_behaviors wl,
                      ends = True, wakes = []\<rparr> f) of
             None \<Rightarrow> None
           | Some ws \<Rightarrow>
               sanity_check D w (new_stream H (\<not> wl_server wl) config_default limits_default
                 \<lparr>data_to_read = data_written (io (inner ws)), data_written = [], io_behaviors = [],
                  ends = False, wakes = []\<rparr> g)))"

subsection \<open>Arbitrary messages can be sent\<close>

text \<open>What the types of Rust say of the strings, and what fits into memory for the limit of the sanity check.\<close>

fun arbitrary_ok :: "arbitrary_message \<Rightarrow> bool" where
  "arbitrary_ok (Arbitrary_Binary bs) \<longleftrightarrow> length bs \<le> 64 * 1024 * 1024"
| "arbitrary_ok (Arbitrary_Text bs) \<longleftrightarrow> valid_utf8 bs \<and> length bs \<le> 64 * 1024 * 1024"
| "arbitrary_ok (Arbitrary_Close code reason) \<longleftrightarrow> valid_utf8 reason"
| "arbitrary_ok _ \<longleftrightarrow> True"

lemma step_More_range: "utf8_step Boundary b = Some (More n lo hi) \<Longrightarrow> 1 \<le> n \<and> n \<le> 3 \<and> 0x80 \<le> lo \<and> hi \<le> 0xBF"
  by (auto split: if_splits)

text \<open>Within a code point there are at most three bytes to come, and they are continuation bytes.\<close>

lemma run_More_range:
  "utf8_run s xs = Some (More n lo hi) \<Longrightarrow> (\<forall>k a b. s = More k a b \<longrightarrow> 1 \<le> k \<and> k \<le> 3 \<and> 0x80 \<le> a \<and> b \<le> 0xBF) \<Longrightarrow>
     1 \<le> n \<and> n \<le> 3 \<and> 0x80 \<le> lo \<and> hi \<le> 0xBF"
proof (induction xs arbitrary: s)
  case (Cons x xs)
  from Cons.prems(1) obtain t where t: "utf8_step s x = Some t" "utf8_run t xs = Some (More n lo hi)"
    by (auto simp del: utf8_step.simps split: option.splits)
  have "\<forall>k a b. t = More k a b \<longrightarrow> 1 \<le> k \<and> k \<le> 3 \<and> 0x80 \<le> a \<and> b \<le> 0xBF"
  proof (cases s)
    case Boundary
    then show ?thesis using step_More_range t(1) by (auto simp del: utf8_step.simps)
  next
    case (More k a b)
    then show ?thesis using t(1) Cons.prems(2) by (auto split: if_splits)
  qed
  from Cons.IH [OF t(2) this] show ?case .
qed simp

text \<open>A cut of valid text at a boundary is valid, and one of four positions is a boundary.\<close>

lemma cut_at_boundary:
  assumes "valid_utf8 s" and "is_char_boundary s i"
  shows "valid_utf8 (take i s)"
proof (cases "i < length s")
  case False
  then show ?thesis using assms(1) by simp
next
  case True
  have run: "(case utf8_run Boundary (take i s) of None \<Rightarrow> None | Some t \<Rightarrow> utf8_run t (drop i s)) = Some Boundary"
    using assms(1) utf8_run_append [of Boundary "take i s" "drop i s"] by (simp add: valid_utf8_def)
  then obtain t where t: "utf8_run Boundary (take i s) = Some t" "utf8_run t (s ! i # drop (Suc i) s) = Some Boundary"
    using True by (auto simp: Cons_nth_drop_Suc split: option.splits)
  show ?thesis
  proof (cases t)
    case (More n lo hi)
    then have "0x80 \<le> lo" "hi \<le> 0xBF" using run_More_range [of Boundary "take i s"] t(1) by auto
    moreover have "lo \<le> s ! i" "s ! i \<le> hi" using t(2) More by (auto split: if_splits)
    ultimately have "i = 0" using assms(2) True by (auto simp: is_char_boundary_def)
    then show ?thesis by (simp add: valid_utf8_def)
  qed (use t in \<open>simp add: valid_utf8_def\<close>)
qed

lemma boundary_among_four:
  assumes "valid_utf8 s" and "i + 3 < length s"
  shows "\<exists>j \<le> 3. is_char_boundary s (i + j)"
proof (rule ccontr)
  assume "\<not> ?thesis"
  then have cont: "0x80 \<le> s ! (i + j)" "s ! (i + j) \<le> 0xBF" if "j \<le> 3" for j
    using that assms(2) by (auto simp: is_char_boundary_def)
  have run: "(case utf8_run Boundary (take k s) of None \<Rightarrow> None | Some t \<Rightarrow> utf8_run t (drop k s)) = Some Boundary" for k
    using assms(1) utf8_run_append [of Boundary "take k s" "drop k s"] by (simp add: valid_utf8_def)
  have stuck: "utf8_run Boundary (take (i + j) s) \<noteq> Some Boundary" if "j \<le> 3" for j
  proof
    assume "utf8_run Boundary (take (i + j) s) = Some Boundary"
    with run [of "i + j"] have "utf8_run Boundary (s ! (i + j) # drop (Suc (i + j)) s) = Some Boundary"
      using assms(2) that by (simp add: Cons_nth_drop_Suc)
    then have "utf8_step Boundary (s ! (i + j)) \<noteq> None" by (auto simp del: utf8_step.simps split: option.splits)
    then show False using cont [OF that] by (auto simp: word_le_nat_alt split: if_splits)
  qed
  from run [of i] obtain t where t: "utf8_run Boundary (take i s) = Some t" "utf8_run t (drop i s) = Some Boundary"
    by (auto split: option.splits)
  show False
  proof (cases t)
    case Boundary
    then show False using stuck [of 0] t(1) by simp
  next
    case (More n lo hi)
    then have n: "1 \<le> n" "n \<le> 3" using run_More_range [of Boundary "take i s"] t(1) by auto
    have "utf8_run t (take n (drop i s)) \<noteq> None"
      using utf8_run_prefix [of t "take n (drop i s)" "drop n (drop i s)"] t(2) by (metis append_take_drop_id option.distinct(1))
    moreover have "length (take n (drop i s)) = n" using n(2) assms(2) by simp
    ultimately have "utf8_run t (take n (drop i s)) = Some Boundary"
      using utf8_run_More [OF n(1), of "take n (drop i s)" lo hi] More by auto
    then have "utf8_run Boundary (take (i + n) s) = Some Boundary"
      using t(1) by (simp add: take_add utf8_run_append)
    then show False using stuck [OF n(2)] by simp
  qed
qed

lemma truncate_reason_cases:
  "(\<exists>len \<in> set lens. is_char_boundary r len \<and> truncate_reason lens r = take len r)
    \<or> ((\<forall>len \<in> set lens. \<not> is_char_boundary r len) \<and> truncate_reason lens r = r)"
  by (induction lens) auto

lemma truncated_reason:
  assumes "valid_utf8 r"
  shows "valid_utf8 (truncate_reason (rev [119..<124]) r) \<and> length (truncate_reason (rev [119..<124]) r) \<le> 123"
  using truncate_reason_cases [of "rev [119..<124]" r]
proof
  assume "\<exists>len \<in> set (rev [119..<124]). is_char_boundary r len \<and> truncate_reason (rev [119..<124]) r = take len r"
  then show ?thesis using cut_at_boundary [OF assms] by auto
next
  assume none: "(\<forall>len \<in> set (rev [119..<124]). \<not> is_char_boundary r len) \<and> truncate_reason (rev [119..<124]) r = r"
  then have "\<forall>len \<in> {119..<124}. \<not> is_char_boundary r len" unfolding set_rev set_upt by (rule conjunct1)
  then have no: "\<not> is_char_boundary r len" if "119 \<le> len" "len \<le> 123" for len
    using that by auto
  have "length r \<le> 123"
  proof (rule ccontr)
    assume "\<not> length r \<le> 123"
    with boundary_among_four [OF assms, of 119] obtain j where "j \<le> 3" "is_char_boundary r (119 + j)" by auto
    then show False using no [of "119 + j"] by simp
  qed
  with none assms show ?thesis by simp
qed

lemma to_message_sendable:
  assumes "arbitrary_ok a"
  shows "\<exists>m. to_message a = Some m \<and> sendable m \<and> length (data (m_payload m)) \<le> 64 * 1024 * 1024"
proof (cases a)
  case (Arbitrary_Close code reason)
  let ?r = "truncate_reason (rev [119..<124]) reason"
  have r: "valid_utf8 ?r" "length ?r \<le> 123" using truncated_reason assms Arbitrary_Close by simp_all
  consider "try_from_u16 code = None \<or> (\<exists>c. try_from_u16 code = Some c \<and> is_reserved c)"
    | c where "try_from_u16 code = Some c" "\<not> is_reserved c" by (cases "try_from_u16 code") auto
  then show ?thesis
  proof cases
    case 1
    then have "to_message a = message_close None ?r"
      using Arbitrary_Close by (auto simp: close_code_try_from_def)
    then show ?thesis using constructors_sendable(5) [of ?r] by (simp add: message_close_def payload_from_bytes_def)
  next
    case 2
    then have m: "to_message a = message_close (Some c) ?r" using Arbitrary_Close by (simp add: close_code_try_from_def)
    obtain m where "message_close (Some c) ?r = Some m" "length (data (m_payload m)) \<le> 125"
      using 2 r(2) by (simp add: message_close_def payload_from_bytes_def)
    then show ?thesis using m constructors_sendable(6) [OF 2(1) r(1)] by auto
  qed
next
  case (Arbitrary_Ping bs)
  then show ?thesis using constructors_sendable(3) [of "payload_from_bytes (take 125 bs)"]
    by (auto simp: message_ping_def payload_from_bytes_def)
next
  case (Arbitrary_Pong bs)
  then show ?thesis using constructors_sendable(4) [of "payload_from_bytes (take 125 bs)"]
    by (auto simp: message_pong_def payload_from_bytes_def)
qed (use assms constructors_sendable(1,2) in \<open>auto simp: message_text_def message_binary_def
    payload_from_bytes_def payload_from_str_def\<close>)

subsection \<open>Polling ends\<close>

text \<open>
  A future that, when it is pending, has woken the task and made something smaller is polled only
  finitely often.
\<close>

lemma select_limited_ends:
  assumes "I s"
    and step: "\<And>s. I s \<Longrightarrow> \<exists>y s'. future s = Some (y, s') \<and> I s' \<and> (y = Pending \<longrightarrow>
      woken w (io (inner s)) (io (inner s')) \<and> (uses :: (deterministic_stream, 'f) websocket_stream \<Rightarrow> nat) s' < uses s)"
  shows "\<exists>r s'. select_limited w future limit s = Some (r, s') \<and> I s'"
  using assms(1)
proof (induction "uses s" arbitrary: s limit rule: less_induct)
  case (less s)
  from step [OF less.prems] obtain y s1 where y: "future s = Some (y, s1)" "I s1"
    "y = Pending \<longrightarrow> woken w (io (inner s)) (io (inner s1)) \<and> uses s1 < uses s" by blast
  obtain z limit' where z: "limiter_poll limit = (z, limit')" by (cases "limiter_poll limit")
  show ?case
  proof (cases "z = Pending \<and> y = Pending")
    case True
    with y less.hyps [of s1 limit'] obtain r s' where "select_limited w future limit' s1 = Some (r, s')" "I s'" by blast
    then show ?thesis using y z True by (subst select_limited.simps) simp
  next
    case False
    then show ?thesis using y z less.prems by (subst select_limited.simps) (auto split: poll.splits)
  qed
qed

lemma select_once:
  assumes "future s = Some (y, s1)" and "y = Pending \<Longrightarrow> woken w (io (inner s)) (io (inner s1))"
  shows "select_limited w future \<lparr>remaining_polls = Some 1\<rparr> s = Some (case y of Ready r \<Rightarrow> Some r | Pending \<Rightarrow> None, s1)"
proof -
  have "select_limited w future \<lparr>remaining_polls = Some 0\<rparr> s1 = Some (None, s1)"
    by (subst select_limited.simps) (simp add: limiter_poll_def)
  then show ?thesis using assms by (subst select_limited.simps) (cases y, auto simp: limiter_poll_def)
qed

subsection \<open>The operations\<close>

text \<open>The stream under test, after some of its operations.\<close>

definition under_test ::
  "(deterministic_stream, 'f) env \<Rightarrow> (deterministic_stream, 'f) websocket_stream \<Rightarrow> (deterministic_stream, 'f) websocket_stream \<Rightarrow> bool" where
  "under_test E s0 s \<longleftrightarrow> ends (io (inner s)) \<and> ws_inv s \<and> frame_size (config s) \<noteq> 0
     \<and> (\<exists>ms. session E s0 ms s \<and> (\<forall>m \<in> set ms. length (data (m_payload m)) \<le> 64 * 1024 * 1024))"

definition behaviors_left :: "(deterministic_stream, 'f) websocket_stream \<Rightarrow> nat" where
  "behaviors_left s = length (io_behaviors (io (inner s)))"

text \<open>What each poll of an operation gives.\<close>

definition polled_well ::
  "(deterministic_stream, 'f) env \<Rightarrow> (deterministic_stream, 'f) websocket_stream \<Rightarrow> waker \<Rightarrow> (deterministic_stream, 'f) websocket_stream
     \<Rightarrow> (unit poll \<times> (deterministic_stream, 'f) websocket_stream) option \<Rightarrow> bool" where
  "polled_well E s0 w s p \<longleftrightarrow> (\<exists>y s'. p = Some (y, s') \<and> under_test E s0 s' \<and> (y = Pending \<longrightarrow>
     woken w (io (inner s)) (io (inner s')) \<and> behaviors_left s' < behaviors_left s))"

lemma tells_polled_well:
  assumes "tells det_uses det_happened w failed s y s'" and "ends (io (inner s))" and "y = Pending"
  shows "woken w (io (inner s)) (io (inner s')) \<and> behaviors_left s' < behaviors_left s"
  using assms by (simp add: tells_def behaviors_left_def)

lemma tells_ends: "tells det_uses det_happened w failed s y s' \<Longrightarrow> ends (io (inner s)) \<Longrightarrow> ends (io (inner s'))"
  by (simp add: tells_def det_uses_def)

lemma unit_poll_Pending [simp]: "unit_poll y = Pending \<longleftrightarrow> y = Pending"
  by (simp add: unit_poll_def split: poll.split)

locale fuzzed = awaited_transport U det_io det_seen E for U and E :: "(deterministic_stream, 'f) env"
begin

lemma is_heard: "heard_transport U E data_written det_uses det_happened"
  using heard_over_stream [OF awaited_transport_axioms det.heard_stream_axioms] by simp

lemma is_written: "transport U E data_written"
  using is_transport by simp

lemma keeps_under_test:
  assumes "under_test E s0 s" and "\<And>ms. session E s0 ms s \<Longrightarrow> session E s0 ms s'"
    and "tells det_uses det_happened w failed s y s'" and "ws_inv s'" and "config s' = config s"
  shows "under_test E s0 s' \<and> (y = Pending \<longrightarrow> woken w (io (inner s)) (io (inner s')) \<and> behaviors_left s' < behaviors_left s)"
  using assms tells_polled_well [OF assms(3)] tells_ends [OF assms(3)] unfolding under_test_def by auto

lemma read_polled_well:
  assumes "under_test E s0 s"
  shows "polled_well E s0 w s (map_option (apfst unit_poll) (poll_next E w s))"
proof -
  have inv: "ws_inv s" using assms by (simp add: under_test_def)
  from finite_transport.poll_next_uses [OF is_finite_transport inv, of w] obtain y s' where
    y: "poll_next E w s = Some (y, s')" "ws_inv s'" by blast
  from keeps_under_test [OF assms session_next [OF _ y(1)] conjunct1 [OF heard_transport.poll_next_tells [OF is_heard y(1) inv]] y(2)
      poll_next_config [OF is_written inv y(1)]] y(1)
  show ?thesis by (auto simp: polled_well_def)
qed

lemma flush_polled_well:
  assumes "under_test E s0 s"
  shows "polled_well E s0 w s (map_option (apfst unit_poll) (poll_flush E w s))"
proof -
  have inv: "ws_inv s" "fq_inv (frame_queue s)" using assms by (simp_all add: under_test_def ws_inv_def)
  from transport.poll_flush_total [OF is_written inv(2), of w] obtain y s' where y: "poll_flush E w s = Some (y, s')" by blast
  note step = transport.flush_step [OF is_written y inv(1)]
  have "config s' = config s" "ws_inv s'" using step by (simp_all add: sends_def)
  from keeps_under_test [OF assms session_flush [OF _ y] heard_transport.poll_flush_tells [OF is_heard y inv(2)] this(2,1)] y
  show ?thesis by (auto simp: polled_well_def)
qed

lemma close_polled_well:
  assumes "under_test E s0 s"
  shows "polled_well E s0 w s (map_option (apfst unit_poll) (poll_close E w s))"
proof -
  have inv: "ws_inv s" using assms by (simp add: under_test_def)
  from finite_transport.poll_close_ends [OF is_finite_transport inv, of w] obtain y s' where y: "poll_close E w s = Some (y, s')" by blast
  from transport.poll_close_sends [OF is_written y inv] have "config s' = config s" "ws_inv s'" by (auto simp: sends_def)
  from keeps_under_test [OF assms session_close [OF _ y] heard_transport.poll_close_tells [OF is_heard y inv] this(2,1)] y
  show ?thesis by (auto simp: polled_well_def)
qed

lemma feed_polled_well:
  assumes s: "under_test E s0 s" and m: "sendable m" "length (data (m_payload m)) \<le> 64 * 1024 * 1024"
  shows "polled_well E s0 w s (feed_item E w m s)"
proof -
  have inv: "ws_inv s" "fq_inv (frame_queue s)" using s by (simp_all add: under_test_def ws_inv_def)
  from transport.ready_step [OF is_written inv(1), of w] obtain y s1 where
    y: "poll_ready E w s = Some (y, s1)" and c: "config s1 = config s" "ws_inv s1" by (auto simp: sends_def)
  note ready = keeps_under_test [OF s session_ready [OF _ y] heard_transport.poll_ready_tells [OF is_heard y inv(2)] c(2,1)]
  show ?thesis
  proof (cases "\<exists>u. y = Ready (Inr u)")
    case False
    then show ?thesis using y ready by (auto simp: polled_well_def feed_item_def split: poll.splits sum.splits)
  next
    case True
    have n: "frame_size (config s1) \<noteq> 0" using ready by (simp add: under_test_def)
    from transport.start_send_sends [OF is_written c(2) n, of m] obtain r s2 frs where
      r: "start_send E s1 m = Some (r, s2)" "sends E data_written s1 frs s2" "ws_inv s2"
      and out: "if state s1 = Active then r = Inr () else r = Inl AlreadyClosed \<and> s2 = s1" by (auto split: if_splits)
    from ready obtain ms where ms: "session E s0 ms s1" "\<forall>m \<in> set ms. length (data (m_payload m)) \<le> 64 * 1024 * 1024"
      by (auto simp: under_test_def)
    have "\<exists>ms. session E s0 ms s2 \<and> (\<forall>m \<in> set ms. length (data (m_payload m)) \<le> 64 * 1024 * 1024)"
    proof (cases r)
      case (Inl e)
      then show ?thesis using session_refused [OF ms(1)] r(1) ms(2) by blast
    next
      case (Inr u)
      then have "session E s0 (ms @ [m]) s2" using session_send [OF ms(1) m(1)] r(1) by simp
      then show ?thesis using ms(2) m(2) by (intro exI [of _ "ms @ [m]"]) simp
    qed
    moreover have "io (inner s2) = io (inner s1)" using transport.start_send_inner [OF is_written r(1) n] by simp
    ultimately have "under_test E s0 s2" using ready r(2,3) by (simp add: under_test_def sends_def)
    then show ?thesis using y True r(1) by (auto simp: polled_well_def feed_item_def)
  qed
qed

lemma operation_polled_well:
  assumes "\<forall>a. k = Write a \<longrightarrow> arbitrary_ok a"
  shows "\<exists>future. operation_future E w k = Some future \<and> (\<forall>s. under_test E s0 s \<longrightarrow> polled_well E s0 w s (future s))"
proof (cases k)
  case (Write a)
  with assms to_message_sendable [of a] obtain m where
    "to_message a = Some m" "sendable m" "length (data (m_payload m)) \<le> 64 * 1024 * 1024" by blast
  then show ?thesis using Write feed_polled_well by (simp add: operation_future_def)
qed (simp_all add: operation_future_def read_polled_well flush_polled_well close_polled_well)

text \<open>All operations run, and none of them hangs.\<close>

lemma run_operations_end:
  assumes "\<forall>op \<in> set ops. \<forall>a. op_kind op = Write a \<longrightarrow> arbitrary_ok a" and "under_test E s0 s"
  shows "\<exists>s'. run_operations E w ops s = Some s' \<and> under_test E s0 s'"
  using assms
proof (induction ops arbitrary: s)
  case (Cons op ops)
  have "\<forall>a. op_kind op = Write a \<longrightarrow> arbitrary_ok a" using Cons.prems(1) by simp
  from operation_polled_well [OF this, of w s0] obtain future where f: "operation_future E w (op_kind op) = Some future"
    and well: "\<forall>s. under_test E s0 s \<longrightarrow> polled_well E s0 w s (future s)" by blast
  have "\<exists>r s'. select_limited w future \<lparr>remaining_polls = op_max_polls op\<rparr> s = Some (r, s') \<and> under_test E s0 s'"
    by (rule select_limited_ends [where uses = behaviors_left and I = "under_test E s0" and s = s, OF Cons.prems(2)]) (use well in \<open>auto simp: polled_well_def\<close>)
  then obtain r s1 where "select_limited w future \<lparr>remaining_polls = op_max_polls op\<rparr> s = Some (r, s1)" "under_test E s0 s1" by blast
  then show ?case using Cons.IH [of s1] Cons.prems(1) f by simp
qed simp

end

subsection \<open>The sanity check\<close>

context fuzzed
begin

text \<open>
  A quiet reader whose errors, if it had any, would be I/O errors ends its loop without one.
\<close>

lemma sanity_check_passes:
  assumes fr: "framed_reader U det_io det_seen E n ks m" and t0: "framed_reader.reader_inv U det_seen E n ks r later m t0 ds"
    and size: "frame_size (config t0) \<noteq> 0"
    and "reading_session E t0 log t" and "ws_inv t" and "quiet (io (inner t))"
  shows "sanity_check E w t = Some ()"
  using assms(4-)
proof (induction "(rank (state t), to_decode (\<lambda>i. length (snd (det_seen i))) t)" arbitrary: t log rule: wf_induct_rule
    [OF wf_lex_prod [OF wf_less_than wf_less_than]])
  case 1
  from finite_transport.poll_next_uses [OF is_finite_transport 1(3), of w] obtain y t1 where
    y: "poll_next E w t = Some (y, t1)" "ws_inv t1" and
    closer: "\<forall>x. y = Ready (Some x) \<longrightarrow> finite_transport.closer (\<lambda>i. length (snd (det_seen i))) t1 t" by blast
  have heard: "tells det_uses det_happened w io_error_item t y t1"
    using heard_transport.poll_next_tells [OF is_heard y(1) 1(3)] by blast
  note run = reading_next [OF 1(2) y(1)]
  have io: "\<exists>x. e = Io x" if "y = Ready (Some (Inl e))" for e
    using reading_session_inv [OF fr t0 size run] that by auto
  have no_error: "y \<noteq> Ready (Some (Inl e))" for e
  proof
    assume e: "y = Ready (Some (Inl e))"
    with io have "io_error_item y" by blast
    then show False using heard 1(4) by (simp add: tells_def)
  qed
  have once: "select_limited w (poll_next E w) \<lparr>remaining_polls = Some 1\<rparr> t = Some (case y of Ready r \<Rightarrow> Some r | Pending \<Rightarrow> None, t1)"
    using heard by (intro select_once [where future = "poll_next E w" and s = t, OF y(1)]) (simp add: tells_def)
  show ?case
  proof (cases "\<exists>x. y = Ready (Some (Inr x))")
    case False
    then have "y = Pending \<or> y = Ready None" using no_error by (cases y) (metis option.exhaust sum.exhaust, simp)
    then show ?thesis by (subst sanity_check.simps) (auto simp: once)
  next
    case True
    then obtain x where x: "y = Ready (Some (Inr x))" by blast
    have "quiet (io (inner t1))" using heard 1(4) by (auto simp: tells_def intro: det_uses_quiet)
    moreover have "finite_transport.closer (\<lambda>i. length (snd (det_seen i))) t1 t" using closer x by simp
    ultimately have "sanity_check E w t1 = Some ()"
      using 1(1) [OF _ run y(2)] by (simp add: finite_transport.closer_def [OF is_finite_transport, simplified])
    then show ?thesis by (subst sanity_check.simps) (simp add: once x)
  qed
qed

end

lemma new_stream_eq: "new_stream H server c l d f = from_raw_stream d f (if server then Server else Client) c l"
  by (simp add: new_stream_def serve_def server_limits_def server_config_def take_over_def client_limits_def client_config_def)

text \<open>
  C12: The fuzz target passes. Whatever the workload is, that is, the bytes to read, the behaviour of the transport at each
  of its calls, the operations, with their messages, the polls after which each is canceled, the frame size and the
  limit for received messages, the run neither panics nor hangs: every message can be built, every poll returns, a
  poll that is pending has woken the task, and the other role reads what was written, up to where it breaks off,
  without an error. The hypotheses are that tokio-util reads as documented, that strings are UTF-8, that the
  frame size is not zero, and that a message fits the default limit of the reading stream, 64 MiB.
\<close>

theorem fuzz_target_passes:
  assumes "awaited_transport U det_io det_seen E" and "awaited_transport V det_io det_seen D"
    and "\<forall>op \<in> set (wl_operations wl). \<forall>a. op_kind op = Write a \<longrightarrow> arbitrary_ok a" and "wl_frame_size wl \<noteq> 0"
  shows "fuzz H E f D g w wl = Some ()"
proof -
  let ?c = "config_default\<lparr>frame_size := wl_frame_size wl\<rparr>"
  let ?l = "limits_max_payload_len limits_default (Some (unat (wl_max_payload_len wl)))"
  let ?d = "\<lparr>data_to_read = wl_data_to_read wl, data_written = [], io_behaviors = wl_io_behaviors wl, ends = True, wakes = []\<rparr>"
  let ?r = "if wl_server wl then Server else Client" and ?q = "if \<not> wl_server wl then Server else Client"
  let ?s = "from_raw_stream ?d f ?r ?c ?l"
  have ED: "fuzzed U E" "fuzzed V D" using assms(1,2) by (simp_all add: fuzzed_def)
  have "unat (wl_max_payload_len wl) < 2 ^ 16" using unsigned_less [of "wl_max_payload_len wl", where ?'a = nat] by simp
  then have l: "max_payload_len ?l \<le> usize_MAX" by (simp add: limits_max_payload_len_def)
  have "ws_inv ?s" using l by (rule ws_inv_new)
  then have "under_test E ?s ?s"
    using assms(4) by (auto simp: under_test_def from_raw_stream_def intro!: exI [of _ "[]"] session_start)
  from fuzzed.run_operations_end [OF ED(1) assms(3) this, of w] obtain s ms where
    s: "run_operations E w (wl_operations wl) ?s = Some s" and session: "session E ?s ms s"
    and sizes: "\<forall>m \<in> set ms. length (data (m_payload m)) \<le> max_payload_len limits_default"
    by (auto simp: under_test_def limits_default_def)
  let ?e = "\<lparr>data_to_read = data_written (io (inner s)), data_written = [], io_behaviors = [], ends = False, wakes = []\<rparr>"
  let ?t = "from_raw_stream ?e g ?q config_default limits_default"
  have "data_written (io (fresh_read ?d f ?r ?l)) @ buffer (fresh_read ?e g ?q limits_default)
      @ snd (det_seen (io (fresh_read ?e g ?q limits_default))) @ contents (frame_queue s) = outgoing data_written s"
    by (simp add: outgoing_def)
  moreover have side: "frame_size ?c \<noteq> 0" "125 \<le> max_payload_len limits_default" "max_payload_len limits_default \<le> usize_MAX" "?q \<noteq> ?r"
    using assms(4) by (simp_all add: limits_default_def)
  ultimately obtain qs where
    fr: "framed_reader V det_io det_seen D (frame_size ?c) (masks E) (max_payload_len limits_default)"
    and t0: "framed_reader.reader_inv V det_seen D (frame_size ?c) (masks E) ?r (contents (frame_queue s))
      (max_payload_len limits_default) ?t (map received qs)"
    using session_reader [OF fuzzed.is_written [OF ED(1)] session [unfolded from_raw_stream_framed] side(1) l
      awaited_transport.axioms(1) [OF assms(2)] side(2-4) sizes, where d = config_default and gr = "fresh_read ?e g ?q limits_default"]
    unfolding from_raw_stream_framed [of ?e] by blast
  have "sanity_check D w ?t = Some ()"
  proof (rule fuzzed.sanity_check_passes [OF ED(2) fr t0 _ reading_start])
    show "ws_inv ?t" by (rule ws_inv_new) (simp add: limits_default_def)
  qed (simp_all add: from_raw_stream_def config_default_def quiet_def)
  then show ?thesis using s assms(4) by (simp add: fuzz_def new_stream_eq config_frame_size_def)
qed

text \<open>
  A server with frames of 3 bytes, whose transport is pending, takes two bytes at a time, fails and ends early, and whose
  operations are canceled: a text in two bytes and three bytes each, a close message whose reason is too long, a read, a flush.
\<close>

definition sample_workload :: workload where
  "sample_workload = \<lparr>wl_server = True, wl_data_to_read = [0x89, 0x81, 1, 2, 3, 4, 5],
     wl_io_behaviors = [Limit 0, Io_Error, Limit 2, Io_Pending, Limit 2, Limit 1000, Io_Pending],
     wl_operations =
       [\<lparr>op_kind = Write (Arbitrary_Text [0xC3, 0xA4, 0xE2, 0x82, 0xAC]), op_max_polls = None\<rparr>,
        \<lparr>op_kind = Read, op_max_polls = Some 1\<rparr>, \<lparr>op_kind = Flush, op_max_polls = None\<rparr>,
        \<lparr>op_kind = Write (Arbitrary_Close 1000 (replicate 130 0x61)), op_max_polls = Some 0\<rparr>,
        \<lparr>op_kind = Shut, op_max_polls = Some 3\<rparr>],
     wl_frame_size = 3, wl_max_payload_len = 100\<rparr>"

interpretation fuzz_env: fuzzed std_utf8 fuzz_env
  unfolding fuzzed_def by (rule fuzz_env.awaited_transport_axioms)

theorem fuzz_target_passes_witness:
  "fuzz plain_http fuzz_env () fuzz_env () 0 sample_workload = Some ()"
proof -
  have ascii: "valid_utf8 (replicate n 0x61)" for n :: nat by (induction n) (simp_all add: valid_utf8_def)
  have ok: "\<forall>op \<in> set (wl_operations sample_workload). \<forall>a. op_kind op = Write a \<longrightarrow> arbitrary_ok a"
    using ascii by (simp add: sample_workload_def) (simp add: valid_utf8_def)
  show ?thesis
    by (rule fuzz_target_passes [OF fuzz_env.awaited_transport_axioms fuzz_env.awaited_transport_axioms ok])
      (simp add: sample_workload_def)
qed

end
