(* ===== verification/Accessors.thy ===== *)
theory Accessors
  imports Stream_Output
begin

text \<open>
  The small public functions of \<open>src/proto/types.rs\<close> and \<open>src/proto/stream.rs\<close>: predicates on messages,
  equality of payloads, and the access to the transport and to the limits of a stream. The limits may change at
  any time, also while a frame is half read.
\<close>

subsection \<open>Messages\<close>

definition is_text_message :: "message \<Rightarrow> bool" where
  "is_text_message m = (m_opcode m = Text)"

definition is_binary :: "message \<Rightarrow> bool" where
  "is_binary m = (m_opcode m = Binary)"

definition is_close :: "message \<Rightarrow> bool" where
  "is_close m = (m_opcode m = Close)"

definition is_ping :: "message \<Rightarrow> bool" where
  "is_ping m = (m_opcode m = Ping)"

definition is_pong :: "message \<Rightarrow> bool" where
  "is_pong m = (m_opcode m = Pong)"

text \<open>\<open>PartialEq for Payload\<close>: whether the text was validated does not count.\<close>

definition payload_eq :: "payload \<Rightarrow> payload \<Rightarrow> bool" where
  "payload_eq p q = (data p = data q)"

text \<open>A message is of exactly one kind, unless it is a continuation, which no constructor makes.\<close>

lemma one_kind:
  "m_opcode m \<noteq> Continuation \<Longrightarrow>
     length (filter id [is_text_message m, is_binary m, is_close m, is_ping m, is_pong m]) = 1"
  by (cases "m_opcode m") (simp_all add: is_text_message_def is_binary_def is_close_def is_ping_def is_pong_def)

lemma payload_eq_equivalence: "equivp payload_eq"
  by (rule equivpI) (auto simp: payload_eq_def reflp_def symp_def transp_def)

subsection \<open>Streams\<close>

definition get_ref :: "('io, 'f) websocket_stream \<Rightarrow> 'io" where
  "get_ref s = io (inner s)"

text \<open>What a caller does with the reference of \<open>get_mut\<close> is the function \<open>f\<close>.\<close>

definition get_mut :: "('io \<Rightarrow> 'io) \<Rightarrow> ('io, 'f) websocket_stream \<Rightarrow> ('io, 'f) websocket_stream" where
  "get_mut f s = s\<lparr>inner := (inner s)\<lparr>io := f (io (inner s))\<rparr>\<rparr>"

definition stream_limits :: "('io, 'f) websocket_stream \<Rightarrow> limits" where
  "stream_limits s = limits (decoder (inner s))"

definition limits_mut :: "(limits \<Rightarrow> limits) \<Rightarrow> ('io, 'f) websocket_stream \<Rightarrow> ('io, 'f) websocket_stream" where
  "limits_mut f s = s\<lparr>inner := (inner s)\<lparr>decoder := (decoder (inner s))\<lparr>limits := f (limits (decoder (inner s)))\<rparr>\<rparr>\<rparr>"

definition into_inner :: "('io, 'f) websocket_stream \<Rightarrow> 'io" where
  "into_inner s = io (inner s)"

lemma get_mut_get_ref: "get_ref (get_mut f s) = f (get_ref s)" "into_inner s = get_ref s"
  by (simp_all add: get_ref_def get_mut_def into_inner_def)

text \<open>Between frames a change of the limits keeps the invariant of the stream.\<close>

lemma limits_mut_inv:
  assumes "ws_inv s" and "payload_processed (decoder (inner s)) = 0" and "max_payload_len (f (stream_limits s)) \<le> usize_MAX"
  shows "ws_inv (limits_mut f s) \<and> stream_limits (limits_mut f s) = f (stream_limits s)"
  using assms by (auto simp: ws_inv_def limits_mut_def stream_limits_def codec_inv_def)

subsection \<open>A change of the limits amid a frame\<close>

lemma decode_first_limits: "decode_first (p\<lparr>limits := l\<rparr>) a b = decode_first p a b"
  by (simp add: decode_first_def Let_def split: sum.split)

lemma decode_head_limits:
  assumes "decode_head p src = Inr (Some h)"
  shows "decode_head (p\<lparr>limits := l\<rparr>) src = (if max_payload_len l < payload_length h
    then Inl (PayloadTooLong (payload_length h) (max_payload_len l)) else Inr (Some h))"
proof -
  from assms obtain two where two: "slice src 0 2 = Some two" by (auto simp: decode_head_def split: option.splits)
  with assms obtain is_fin op is_masked where first: "decode_first p (two ! 0) (two ! 1) = Inr (is_fin, op, is_masked)"
    by (auto simp: decode_head_def split: sum.splits)
  with assms two obtain len off where "decode_length op (two ! 1) src = Inr (Some (len, off))"
    by (auto simp: decode_head_def split: sum.splits option.splits)
  with two first assms show ?thesis
    by (auto simp: decode_head_def decode_first_limits Let_def split: if_splits)
qed

abbreviation with_limits ::
  "limits \<Rightarrow> ((error + wsframe option) \<times> websocket_protocol \<times> bytes) option \<Rightarrow> ((error + wsframe option) \<times> websocket_protocol \<times> bytes) option" where
  "with_limits l \<equiv> map_option (\<lambda>(r, q, b). (r, q\<lparr>limits := l\<rparr>, b))"

lemma decode_finish_limits:
  "decode_finish (p\<lparr>limits := l\<rparr>) src h = with_limits l (decode_finish p src h)"
  "decode_finish (p\<lparr>limits := l, validator := v, payload_processed := k\<rparr>) src h
    = with_limits l (decode_finish (p\<lparr>validator := v, payload_processed := k\<rparr>) src h)"
  by (simp_all add: decode_finish_def split: option.split)

lemma is_text_limits: "is_text (p\<lparr>limits := l\<rparr>) h = is_text p h"
  by (simp add: is_text_def)

lemma unmask_available_limits: "unmask_available pf (p\<lparr>limits := l\<rparr>) src h n u = unmask_available pf p src h n u"
  by (simp add: unmask_available_def split: option.split prod.split)

lemma decode_unmasked_limits:
  "decode_unmasked U (p\<lparr>limits := l\<rparr>) src h n bs = with_limits l (decode_unmasked U p src h n bs)"
  by (cases "is_text p h"; cases "n = payload_length h")
    (simp_all add: decode_unmasked_def is_text_limits decode_finish_limits Let_def split: option.split sum.split prod.split)

lemma decode_payload_limits: "decode_payload U pf (p\<lparr>limits := l\<rparr>) src h = with_limits l (decode_payload U pf p src h)"
  by (simp add: decode_payload_def unmask_available_limits is_text_limits decode_unmasked_limits Let_def
      split: option.split prod.split)

text \<open>
  C29: The limits may change at any time. If they do while a frame is read, of which the head \<open>h\<close> and perhaps a part of the
  payload are in the buffer, unmasked and validated, then the next call of the decoder either refuses the frame by
  the new limit, and has touched nothing, or does exactly what it would have done without the change.
\<close>

theorem limits_changed_amid_frame:
  assumes "decode_head p src = Inr (Some h)"
  shows "decode U pf (p\<lparr>limits := l\<rparr>) src = (if max_payload_len l < payload_length h
    then Some (Inl (PayloadTooLong (payload_length h) (max_payload_len l)), p\<lparr>limits := l\<rparr>, src)
    else with_limits l (decode U pf p src))"
  using assms decode_head_limits [OF assms]
  by (simp add: decode_def decode_payload_limits decode_finish_limits(1))

text \<open>A text frame of four bytes, of which two have arrived and are validated; then the limit goes down to 3, or up.\<close>

definition half_text :: websocket_protocol where
  "half_text = (protocol_new Client limits_default)\<lparr>payload_processed := 2\<rparr>"

theorem limits_changed_amid_frame_witness:
  "decode std_utf8 scalar_platform (half_text\<lparr>limits := \<lparr>max_payload_len = 3\<rparr>\<rparr>) [0x81, 4, 0x61, 0x62, 0x63]
      = Some (Inl (PayloadTooLong 4 3), half_text\<lparr>limits := \<lparr>max_payload_len = 3\<rparr>\<rparr>, [0x81, 4, 0x61, 0x62, 0x63])
   \<and> decode std_utf8 scalar_platform (half_text\<lparr>limits := limits_unlimited\<rparr>) [0x81, 4, 0x61, 0x62, 0x63]
      = with_limits limits_unlimited (decode std_utf8 scalar_platform half_text [0x81, 4, 0x61, 0x62, 0x63])"
proof -
  have head: "decode_head half_text [0x81, 4, 0x61, 0x62, 0x63]
    = Inr (Some \<lparr>fin = True, opcode = Text, masked = False, payload_length = 4, offset = 2\<rparr>)"
    by (simp add: decode_head_def decode_first_def decode_length_def opcode_try_from_def slice_def half_text_def protocol_new_def
        limits_default_def drop_bit_eq_div take_bit_eq_mod)
  show ?thesis
    using limits_changed_amid_frame [OF head, of std_utf8 scalar_platform "\<lparr>max_payload_len = 3\<rparr>"]
      limits_changed_amid_frame [OF head, of std_utf8 scalar_platform limits_unlimited]
    by (simp add: limits_unlimited_def)
qed

end
