(* ===== verification/Close_Handshake.thy ===== *)
theory Close_Handshake
  imports Conversation
begin

text \<open>
  The closing handshake between two ends over transports in memory: the end that calls \<open>poll_close\<close>, the
  answer of the other one, and the end of both connections.
\<close>

subsection \<open>Nothing to read\<close>

lemma duplex_read_nothing:
  "concat cs = [] \<Longrightarrow> duplex_read U pf False cs p [] = (Pending, [], p, [])"
proof -
  have "decode U pf p [] = Some (Inr None, p, [])" by (simp add: decode_def decode_head_def slice_def)
  then show "concat cs = [] \<Longrightarrow> duplex_read U pf False cs p [] = (Pending, [], p, [])"
    by (induction cs) simp_all
qed

text \<open>Enough room to write all that is queued, and \<open>n\<close> bytes more.\<close>

definition roomy :: "nat \<Rightarrow> (duplex, unit) websocket_stream \<Rightarrow> bool" where
  "roomy n t \<longleftrightarrow> length (contents (frame_queue t)) + n \<le> length (room (io (inner t)))"

lemma eases_roomy: "eases t t1 \<Longrightarrow> roomy n t \<Longrightarrow> roomy n t1"
  by (simp add: eases_def roomy_def)

text \<open>What stays the same in a stream that is only waiting.\<close>

definition same_reader :: "(duplex, unit) websocket_stream \<Rightarrow> (duplex, unit) websocket_stream \<Rightarrow> bool" where
  "same_reader t t' \<longleftrightarrow> role (decoder (inner t')) = role (decoder (inner t))
     \<and> limits (decoder (inner t')) = limits (decoder (inner t)) \<and> state t' = state t \<and> eases t t'"

lemma same_reader_trans: "same_reader t t1 \<Longrightarrow> same_reader t1 t2 \<Longrightarrow> same_reader t t2"
  by (auto simp: same_reader_def intro: eases_trans)

lemma poll_next_waits:
  assumes t: "listening t Continuation []" and silent: "unread (inner t) = []" and open': "\<not> eof (io (inner t))" and "roomy 0 t"
  shows "\<exists>t'. poll_next (duplex_env U pf keys) w t = Some (Pending, t') \<and> listening t' Continuation [] \<and> unread (inner t') = []
    \<and> same_reader t t' \<and> contents (frame_queue t') = []"
proof -
  let ?E = "duplex_env U pf keys"
  from poll_next_frame_reads [OF t, of U pf keys w] assms(4) obtain u where
    u: "poll_next_frame ?E w t = read_frame ?E w u" "only_writes t u" "contents (frame_queue u) = []" by (auto simp: roomy_def)
  have "unread (inner u) = unread (inner t)" using u(2) by (simp add: only_writes_def unread_def)
  then have "unread (inner u) = []" using silent by simp
  then have "buffer (inner u) = []" "concat (incoming (io (inner u))) = []" by (auto simp: unread_def)
  moreover have "\<not> eof (io (inner u))" using u(2) open' by (simp add: only_writes_def)
  ultimately have empty: "buffer (inner u) = []" "concat (incoming (io (inner u))) = []" "\<not> eof (io (inner u))" by blast+
  then have rd: "duplex_poll_next U pf w (inner u) = (Pending, (inner u)\<lparr>io := (io (inner u))\<lparr>incoming := []\<rparr>\<rparr>)"
    using duplex_read_nothing [OF empty(2), of U pf] by (simp add: duplex_poll_next_def)
  let ?t' = "u\<lparr>inner := (inner u)\<lparr>io := (io (inner u))\<lparr>incoming := []\<rparr>\<rparr>\<rparr>"
  have "poll_next_frame ?E w t = Some (Pending, ?t')" unfolding u(1) using rd by (simp add: read_frame_def duplex_env_def)
  then have "poll_next ?E w t = Some (Pending, ?t')" unfolding poll_next_def by (subst poll_next_loop.simps) simp
  moreover have "same_reader t ?t'" using u(2) by (simp add: same_reader_def only_writes_def eases_def outgoing_def)
  moreover have "listening ?t' Continuation []" using t u(2) by (auto simp: listening_def only_writes_def)
  ultimately show ?thesis using u(3) \<open>buffer (inner u) = []\<close> by (intro exI [of _ ?t']) (simp add: unread_def)
qed

subsection \<open>Discarding messages\<close>

lemma close_drain_messages:
  assumes U: "simdutf8_lib U" and keys: "\<And>k. length (keys k) = 4" and ks: "\<And>i. length (ks i) = 4" and n: "0 < n"
    and "listening t Continuation []" and "state t = ClosedByUs" and "\<not> eof (io (inner t))"
    and "\<forall>m \<in> set ms. sendable m \<and> m_opcode m \<noteq> Close \<and> length (data (m_payload m)) \<le> max_payload_len (limits (decoder (inner t)))"
    and "unread (inner t) = wire_frames ks r k (sent_frames n ms) @ rest" and "r \<noteq> role (decoder (inner t))"
    and "125 \<le> max_payload_len (limits (decoder (inner t)))"
  shows "\<exists>t'. close_drain (duplex_env U pf keys) w t = close_drain (duplex_env U pf keys) w t' \<and> listening t' Continuation []
    \<and> unread (inner t') = rest \<and> same_reader t t' \<and> \<not> eof (io (inner t'))"
  using assms(5-)
proof (induction ms arbitrary: t k)
  case Nil
  then show ?case by (intro exI [of _ t]) (simp add: same_reader_def)
next
  case (Cons m ms)
  let ?E = "duplex_env U pf keys" let ?k = "if r = Client then k + length (frames_for n m) else k"
  have bytes: "unread (inner t) = wire_frames ks r k (frames_for n m) @ wire_frames ks r ?k (sent_frames n ms) @ rest"
    using Cons.prems(5) by (simp add: wire_frames_append)
  have m: "sendable m" "m_opcode m \<noteq> Close" "length (data (m_payload m)) \<le> max_payload_len (limits (decoder (inner t)))"
    using Cons.prems(4) by simp_all
  from read_message [where pf = pf and w = w and keys = keys and ks = ks, OF U keys Cons.prems(1) ks n m(1) bytes Cons.prems(6,7) m(3)] m(2)
    Cons.prems(2) obtain t1 where
    t1: "poll_next ?E w t = Some (Ready (Some (Inr (received m))), t1)" "unread (inner t1) = wire_frames ks r ?k (sent_frames n ms) @ rest"
    "listening t1 Continuation []" "same_reader t t1" by (auto simp: same_reader_def)
  have "\<not> eof (io (inner t1))" using poll_next_arrive [OF t1(1) _ Cons.prems(3)] by simp
  with Cons.IH [of t1 ?k] t1 Cons.prems obtain t' where
    "close_drain ?E w t1 = close_drain ?E w t'" "listening t' Continuation []" "unread (inner t') = rest" "same_reader t1 t'" "\<not> eof (io (inner t'))"
    by (auto simp: same_reader_def)
  moreover have "close_drain ?E w t = close_drain ?E w t1" using t1(1) by (subst close_drain.simps) simp
  ultimately show ?case using same_reader_trans [OF t1(4)] by auto
qed

subsection \<open>The three steps\<close>

lemma close_frame_legal: "legal_control DEFAULT_CLOSE" "f_opcode DEFAULT_CLOSE = Close" "f_payload DEFAULT_CLOSE = [3, 232]"
  "DEFAULT_CLOSE\<lparr>f_payload := take 2 (f_payload DEFAULT_CLOSE)\<rparr> = DEFAULT_CLOSE"
proof -
  show "legal_control DEFAULT_CLOSE" using is_reply_default_close by (simp add: is_reply_def)
  show "f_payload DEFAULT_CLOSE = [3, 232]" by code_simp
qed (simp_all add: DEFAULT_CLOSE_def)

lemma length_close_frame: "length key \<le> 4 \<Longrightarrow> length (wire_frame key DEFAULT_CLOSE) \<le> 8"
  by (simp add: wire_frame_def wire_head_def len7_def ext_len_def mask_if_def close_frame_legal)

text \<open>The close frame in the queue of the end that closes.\<close>

lemma close_frame_queued:
  assumes U: "simdutf8_lib U" and keys: "\<And>k. length (keys k) = 4"
    and t: "listening t Continuation []" "state t = Active" "roomy 8 t" and "r \<noteq> role (decoder (inner t))"
  shows "\<exists>key. listening (queue_frame (duplex_env U pf keys) t DEFAULT_CLOSE) Continuation []
    \<and> state (queue_frame (duplex_env U pf keys) t DEFAULT_CLOSE) = ClosedByUs
    \<and> inner (queue_frame (duplex_env U pf keys) t DEFAULT_CLOSE) = inner t
    \<and> outgoing sent (queue_frame (duplex_env U pf keys) t DEFAULT_CLOSE) = outgoing sent t @ wire_frame key DEFAULT_CLOSE
    \<and> roomy 0 (queue_frame (duplex_env U pf keys) t DEFAULT_CLOSE) \<and> key_for r key"
proof -
  let ?E = "duplex_env U pf keys" let ?t0 = "queue_frame ?E t DEFAULT_CLOSE" let ?key = "next_key ?E t"
  have key: "length ?key \<le> 4" "key_for r ?key"
    using keys assms(6) by (cases r; cases "role (decoder (inner t))"; simp add: next_key_def duplex_env_def key_for_def)+
  from transport.queue_frame_eq [OF duplex_transport [where pf = pf and keys = keys, OF U keys], of t DEFAULT_CLOSE] obtain ef where
    ef: "?t0 = t\<lparr>state := ClosedByUs, frame_queue := push (frame_queue t) ef,
      masks_drawn := (if role (decoder (inner t)) = Client then masks_drawn t + 1 else masks_drawn t)\<rparr>"
      "length (header ef) = 14" "frame_bytes ef = wire_frame ?key DEFAULT_CLOSE" using t(2) close_frame_legal(2) by auto
  have fq: "fq_inv (frame_queue t)" using t(1) by (simp add: listening_def)
  have t0: "listening ?t0 Continuation []" "state ?t0 = ClosedByUs" "inner ?t0 = inner t"
    "contents (frame_queue ?t0) = contents (frame_queue t) @ wire_frame ?key DEFAULT_CLOSE"
    using t(1) fq ef by (simp_all add: listening_def)
  moreover have "outgoing sent ?t0 = outgoing sent t @ wire_frame ?key DEFAULT_CLOSE" using t0(3,4) by (simp add: outgoing_def)
  moreover have "roomy 0 ?t0" using t(3) length_close_frame [OF key(1)] t0(3,4) by (simp add: roomy_def)
  ultimately show ?thesis using key(2) by blast
qed

text \<open>The end that closes sends its close frame, discards what arrives, and waits.\<close>

lemma poll_close_starts:
  assumes U: "simdutf8_lib U" and keys: "\<And>k. length (keys k) = 4" and ks: "\<And>i. length (ks i) = 4" and n: "0 < n"
    and t: "listening t Continuation []" "state t = Active" "\<not> eof (io (inner t))" "roomy 8 t"
    and "\<forall>m \<in> set ms. sendable m \<and> m_opcode m \<noteq> Close \<and> length (data (m_payload m)) \<le> max_payload_len (limits (decoder (inner t)))"
    and "unread (inner t) = wire_frames ks r k (sent_frames n ms)" and "r \<noteq> role (decoder (inner t))"
    and "125 \<le> max_payload_len (limits (decoder (inner t)))"
  shows "\<exists>t' key. poll_close (duplex_env U pf keys) w t = Some (Pending, t') \<and> listening t' Continuation [] \<and> state t' = ClosedByUs
    \<and> unread (inner t') = [] \<and> contents (frame_queue t') = [] \<and> sent (io (inner t')) = outgoing sent t @ wire_frame key DEFAULT_CLOSE
    \<and> key_for r key \<and> role (decoder (inner t')) = role (decoder (inner t)) \<and> limits (decoder (inner t')) = limits (decoder (inner t))"
proof -
  let ?E = "duplex_env U pf keys" let ?t0 = "queue_frame ?E t DEFAULT_CLOSE"
  from close_frame_queued [where keys = keys and pf = pf, OF U keys t(1,2,4) assms(11)] obtain key where
    t0: "listening ?t0 Continuation []" "state ?t0 = ClosedByUs" "inner ?t0 = inner t"
    and out: "outgoing sent ?t0 = outgoing sent t @ wire_frame key DEFAULT_CLOSE" and room: "roomy 0 ?t0" and key: "key_for r key" by blast
  have "\<exists>t'. close_drain ?E w ?t0 = close_drain ?E w t' \<and> listening t' Continuation []
    \<and> unread (inner t') = [] \<and> same_reader ?t0 t' \<and> \<not> eof (io (inner t'))"
    by (rule close_drain_messages [where ks = ks and n = n and ms = ms and r = r and k = k]) (use assms t0 in auto)
  then obtain t1 where t1: "close_drain ?E w ?t0 = close_drain ?E w t1" "listening t1 Continuation []" "unread (inner t1) = []"
    "same_reader ?t0 t1" "\<not> eof (io (inner t1))" by blast
  have "roomy 0 t1" using eases_roomy room t1(4) by (auto simp: same_reader_def)
  from poll_next_waits [OF t1(2,3,5) this, of U pf keys w] obtain t2 where
    t2: "poll_next ?E w t1 = Some (Pending, t2)" "listening t2 Continuation []" "unread (inner t2) = []" "same_reader t1 t2"
    "contents (frame_queue t2) = []" by blast
  have drain: "close_drain ?E w ?t0 = Some (Pending, t2)" unfolding t1(1) by (subst close_drain.simps) (simp add: t2(1))
  have same: "same_reader ?t0 t2" by (rule same_reader_trans [OF t1(4) t2(4)])
  have "poll_close ?E w t = Some (Pending, t2)" using t(2) drain by (simp add: poll_close_def)
  moreover have "sent (io (inner t2)) = outgoing sent t @ wire_frame key DEFAULT_CLOSE"
    using same out t2(5) by (simp add: same_reader_def eases_def outgoing_def)
  ultimately show ?thesis using t2 same t0(2,3) key by (auto simp: same_reader_def)
qed

text \<open>The other end reads the close frame as a message, sends its own, and has finished.\<close>

lemma close_frame_answered:
  assumes U: "simdutf8_lib U" and keys: "\<And>k. length (keys k) = 4"
    and t: "listening t Continuation []" "state t = Active" "roomy 8 t"
    and "unread (inner t) = wire_frame key DEFAULT_CLOSE" and "key_for (role (decoder (inner t))) key"
    and "125 \<le> max_payload_len (limits (decoder (inner t)))" and "r \<noteq> role (decoder (inner t))"
  shows "\<exists>t1 t2 key'. poll_next (duplex_env U pf keys) w t = Some (Ready (Some (Inr (message_new Close [3, 232]))), t1)
    \<and> poll_next (duplex_env U pf keys) w t1 = Some (Ready None, t2) \<and> state t2 = CloseAcknowledged
    \<and> sent (io (inner t2)) = outgoing sent t @ wire_frame key' DEFAULT_CLOSE \<and> key_for r key'"
proof -
  let ?E = "duplex_env U pf keys"
  note tr = duplex_transport [where pf = pf and keys = keys, OF U keys]
  from read_control [where fr = DEFAULT_CLOSE and rest = "[]" and pf = pf and w = w and keys = keys, OF U keys t(1) _ assms(7) close_frame_legal(1) assms(8)]
    assms(6) close_frame_legal(2,3) obtain u where
    next1: "poll_next ?E w t = Some (Ready (Some (Inr (message_new Close [3, 232]))), on_frame ?E u DEFAULT_CLOSE)"
    and u: "listening u Continuation []" "state u = Active" "eases t u" "role (decoder (inner (on_frame ?E u DEFAULT_CLOSE))) = role (decoder (inner t))"
    using t(2) by auto
  let ?u = "u\<lparr>state := ClosedByPeer\<rparr>" let ?t1 = "on_frame ?E u DEFAULT_CLOSE" let ?key = "next_key ?E ?u"
  have t1: "?t1 = queue_frame ?E ?u DEFAULT_CLOSE" using u(2) close_frame_legal(2,4) by (simp add: on_frame_def)
  from transport.queue_frame_eq [OF tr, of ?u DEFAULT_CLOSE] obtain ef md where
    ef: "?t1 = u\<lparr>state := ClosedByPeer, frame_queue := push (frame_queue u) ef, masks_drawn := md\<rparr>"
      "length (header ef) = 14" "frame_bytes ef = wire_frame ?key DEFAULT_CLOSE" unfolding t1 by fastforce
  have "role (decoder (inner u)) = role (decoder (inner t))" using u(4) ef(1) by simp
  then have key: "length ?key \<le> 4" "key_for r ?key"
    using keys assms(9) by (cases r; cases "role (decoder (inner t))"; simp add: next_key_def duplex_env_def key_for_def)+
  have fq: "fq_inv (frame_queue u)" "0 \<notin> set (room (io (inner u)))" using u(1) by (simp_all add: listening_def)
  have q: "fq_inv (frame_queue ?t1)" "contents (frame_queue ?t1) = contents (frame_queue u) @ wire_frame ?key DEFAULT_CLOSE"
    "0 \<notin> set (room (io (inner ?t1)))" "state ?t1 = ClosedByPeer"
    using fq ef by simp_all
  have out: "outgoing sent ?t1 = outgoing sent t @ wire_frame ?key DEFAULT_CLOSE"
    using u(3) q(2) ef(1) by (simp add: outgoing_def eases_def)
  have "roomy 8 u" using eases_roomy u(3) t(3) by blast
  then have room: "length (contents (frame_queue ?t1)) \<le> length (room (io (inner ?t1)))"
    using length_close_frame [OF key(1)] q(2) ef(1) by (simp add: roomy_def)
  from duplex_flush [OF q(1,3), of U pf keys w] room obtain t2 where
    t2: "poll_flush ?E w ?t1 = Some (Ready (Inr ()), t2)" "only_writes ?t1 t2" "contents (frame_queue t2) = []" by auto
  have "poll_next_frame ?E w ?t1 = Some (Ready None, t2\<lparr>state := CloseAcknowledged\<rparr>)"
    using t2(1) q(4) by (simp add: poll_next_frame_def)
  then have "poll_next ?E w ?t1 = Some (Ready None, t2\<lparr>state := CloseAcknowledged\<rparr>)"
    unfolding poll_next_def by (subst poll_next_loop.simps) simp
  moreover have "sent (io (inner t2)) = outgoing sent t @ wire_frame ?key DEFAULT_CLOSE"
    using t2(2,3) out by (simp add: only_writes_def eases_def outgoing_def)
  ultimately show ?thesis using next1 key(2) by (intro exI [of _ ?t1] exI [of _ "t2\<lparr>state := CloseAcknowledged\<rparr>"] exI [of _ ?key]) simp
qed

text \<open>The end that has sent its close frame reads the other one, and writes what is still queued.\<close>

lemma close_read:
  assumes U: "simdutf8_lib U" and keys: "\<And>k. length (keys k) = 4"
    and t: "listening t Continuation []" "state t = ClosedByUs" "roomy 0 t"
    and "unread (inner t) = wire_frame key DEFAULT_CLOSE" and "key_for (role (decoder (inner t))) key"
    and "125 \<le> max_payload_len (limits (decoder (inner t)))"
  shows "\<exists>t1 t2. close_drain (duplex_env U pf keys) w t = Some (Ready (), t1) \<and> poll_flush (duplex_env U pf keys) w t1 = Some (Ready (Inr ()), t2)
    \<and> state t2 = CloseAcknowledged \<and> sent (io (inner t2)) = outgoing sent t"
proof -
  let ?E = "duplex_env U pf keys"
  from read_control [where fr = DEFAULT_CLOSE and rest = "[]" and pf = pf and w = w and keys = keys, OF U keys t(1) _ assms(7) close_frame_legal(1) assms(8)]
    assms(6) close_frame_legal(2,3) obtain u where
    next1: "poll_next ?E w t = Some (Ready (Some (Inr (message_new Close [3, 232]))), on_frame ?E u DEFAULT_CLOSE)"
    and u: "listening u Continuation []" "state u = ClosedByUs" "eases t u" using t(2) by auto
  let ?t1 = "u\<lparr>state := CloseAcknowledged\<rparr>"
  have t1: "on_frame ?E u DEFAULT_CLOSE = ?t1" using u(2) close_frame_legal(2) by (simp add: on_frame_def)
  have "poll_next ?E w ?t1 = Some (Ready None, ?t1)"
    unfolding poll_next_def by (subst poll_next_loop.simps) (simp add: poll_next_frame_def)
  then have drain: "close_drain ?E w t = Some (Ready (), ?t1)"
    using next1 [unfolded t1] by (subst close_drain.simps, simp, subst close_drain.simps) simp
  have q: "fq_inv (frame_queue ?t1)" "0 \<notin> set (room (io (inner ?t1)))" using u(1) by (simp_all add: listening_def)
  have out: "outgoing sent ?t1 = outgoing sent t" using u(3) by (simp add: eases_def outgoing_def)
  have room: "length (contents (frame_queue ?t1)) \<le> length (room (io (inner ?t1)))"
    using eases_roomy [OF u(3) t(3)] by (simp add: roomy_def)
  from duplex_flush [OF q, of U pf keys w] room obtain t2 where
    "poll_flush ?E w ?t1 = Some (Ready (Inr ()), t2)" "only_writes ?t1 t2" "contents (frame_queue t2) = []" by auto
  with drain out show ?thesis by (auto simp: only_writes_def eases_def outgoing_def)
qed

lemma poll_close_ends_well:
  assumes U: "simdutf8_lib U" and keys: "\<And>k. length (keys k) = 4"
    and t: "listening t Continuation []" "state t = ClosedByUs" "contents (frame_queue t) = []"
    and "unread (inner t) = wire_frame key DEFAULT_CLOSE" and "key_for (role (decoder (inner t))) key"
    and "125 \<le> max_payload_len (limits (decoder (inner t)))"
  shows "\<exists>t'. poll_close (duplex_env U pf keys) w t = Some (Ready (Inr ()), t') \<and> state t' = CloseAcknowledged
    \<and> sent (io (inner t')) = sent (io (inner t))"
proof -
  have "roomy 0 t" using t(3) by (simp add: roomy_def)
  from close_read [where keys = keys and pf = pf and w = w, OF U keys t(1,2) this assms(6-8)] t(2,3)
  show ?thesis by (auto simp: poll_close_def duplex_env_def set_io_def outgoing_def)
qed

text \<open>The same in one call, if the close frame of the other end is already there.\<close>

lemma poll_close_crosses:
  assumes U: "simdutf8_lib U" and keys: "\<And>k. length (keys k) = 4"
    and t: "listening t Continuation []" "state t = Active" "roomy 8 t"
    and "unread (inner t) = wire_frame key DEFAULT_CLOSE" and "key_for (role (decoder (inner t))) key"
    and "125 \<le> max_payload_len (limits (decoder (inner t)))" and "r \<noteq> role (decoder (inner t))"
  shows "\<exists>t' key'. poll_close (duplex_env U pf keys) w t = Some (Ready (Inr ()), t') \<and> state t' = CloseAcknowledged
    \<and> sent (io (inner t')) = outgoing sent t @ wire_frame key' DEFAULT_CLOSE \<and> key_for r key'"
proof -
  let ?E = "duplex_env U pf keys"
  from close_frame_queued [where keys = keys and pf = pf, OF U keys t assms(9)] obtain key' where
    t0: "listening (queue_frame ?E t DEFAULT_CLOSE) Continuation []" "state (queue_frame ?E t DEFAULT_CLOSE) = ClosedByUs"
    "inner (queue_frame ?E t DEFAULT_CLOSE) = inner t"
    "outgoing sent (queue_frame ?E t DEFAULT_CLOSE) = outgoing sent t @ wire_frame key' DEFAULT_CLOSE"
    "roomy 0 (queue_frame ?E t DEFAULT_CLOSE)" "key_for r key'" by blast
  from close_read [where keys = keys and pf = pf and w = w, OF U keys t0(1,2,5)] assms(6-8) t0(3,4)
  have "\<exists>t1 t2. close_drain ?E w (queue_frame ?E t DEFAULT_CLOSE) = Some (Ready (), t1) \<and> poll_flush ?E w t1 = Some (Ready (Inr ()), t2)
    \<and> state t2 = CloseAcknowledged \<and> sent (io (inner t2)) = outgoing sent t @ wire_frame key' DEFAULT_CLOSE" by simp
  then show ?thesis using t(2) t0(6) by (auto simp: poll_close_def duplex_env_def set_io_def)
qed

subsection \<open>The whole handshake\<close>

lemma listening_arrive [simp]: "listening (arrive bs t) op acc = listening t op acc" "roomy n (arrive bs t) = roomy n t"
  "outgoing sent (arrive bs t) = outgoing sent t"
  by (simp_all add: listening_def roomy_def outgoing_def) (simp add: arrive_def)

text \<open>
  C21: The closing handshake completes. One end calls \<open>poll_close\<close> while messages of the other are still on their way;
  it discards them, sends its close frame, and waits. The other end, which has read everything before, gets the close
  frame as a message, answers in the next call of \<open>poll_next\<close>, which says that the stream has ended, and is terminated.
  With this answer, the next call of \<open>poll_close\<close> ends without an error, and the connection is
  terminated on this side, too, which has sent nothing after its close frame. The transports have room
  for what is sent.
\<close>

theorem close_handshake_completes:
  assumes "simdutf8_lib U" and "\<And>k. length (keys k) = 4" and "simdutf8_lib V" and "\<And>k. length (keys' k) = 4"
    and "\<And>i. length (ks i) = 4" and "0 < n"
    and "listening a Continuation []" and "state a = Active" and "\<not> eof (io (inner a))" and "roomy 8 a"
    and "listening b Continuation []" and "state b = Active" and "roomy 8 b"
    and "role (decoder (inner a)) \<noteq> role (decoder (inner b))"
    and "125 \<le> max_payload_len (limits (decoder (inner a)))" and "125 \<le> max_payload_len (limits (decoder (inner b)))"
    and "\<forall>m \<in> set ms. sendable m \<and> m_opcode m \<noteq> Close \<and> length (data (m_payload m)) \<le> max_payload_len (limits (decoder (inner a)))"
    and "unread (inner a) = wire_frames ks (role (decoder (inner b))) k (sent_frames n ms)" and "unread (inner b) = []"
  shows "\<exists>a1 a2 b1 b2 x y. poll_close (duplex_env U pf keys) w a = Some (Pending, a1) \<and> sent (io (inner a1)) = outgoing sent a @ x
    \<and> poll_next (duplex_env V pf' keys') v (arrive x b) = Some (Ready (Some (Inr (message_new Close [3, 232]))), b1)
    \<and> poll_next (duplex_env V pf' keys') v b1 = Some (Ready None, b2) \<and> is_terminated b2 \<and> sent (io (inner b2)) = outgoing sent b @ y
    \<and> poll_close (duplex_env U pf keys) w (arrive y a1) = Some (Ready (Inr ()), a2) \<and> is_terminated a2
    \<and> sent (io (inner a2)) = sent (io (inner a1))"
proof -
  let ?E = "duplex_env U pf keys" let ?F = "duplex_env V pf' keys'"
  from poll_close_starts [where w = w and pf = pf and keys = keys and ks = ks, OF assms(1,2,5-10,17,18) _ assms(15)] assms(14) obtain a1 key where
    a1: "poll_close ?E w a = Some (Pending, a1)" "listening a1 Continuation []" "state a1 = ClosedByUs" "unread (inner a1) = []"
    "contents (frame_queue a1) = []" "sent (io (inner a1)) = outgoing sent a @ wire_frame key DEFAULT_CLOSE"
    "key_for (role (decoder (inner b))) key" "role (decoder (inner a1)) = role (decoder (inner a))"
    "limits (decoder (inner a1)) = limits (decoder (inner a))" by auto
  let ?b = "arrive (wire_frame key DEFAULT_CLOSE) b"
  have "\<exists>t1 t2 key'. poll_next ?F v ?b = Some (Ready (Some (Inr (message_new Close [3, 232]))), t1)
    \<and> poll_next ?F v t1 = Some (Ready None, t2) \<and> state t2 = CloseAcknowledged
    \<and> sent (io (inner t2)) = outgoing sent ?b @ wire_frame key' DEFAULT_CLOSE \<and> key_for (role (decoder (inner a))) key'"
    by (rule close_frame_answered [OF assms(3,4)]) (use assms a1(7) in simp_all)
  then obtain b1 b2 key' where
    b: "poll_next ?F v ?b = Some (Ready (Some (Inr (message_new Close [3, 232]))), b1)" "poll_next ?F v b1 = Some (Ready None, b2)"
    "state b2 = CloseAcknowledged" "sent (io (inner b2)) = outgoing sent b @ wire_frame key' DEFAULT_CLOSE"
    "key_for (role (decoder (inner a))) key'" by auto
  let ?a = "arrive (wire_frame key' DEFAULT_CLOSE) a1"
  have "\<exists>t'. poll_close ?E w ?a = Some (Ready (Inr ()), t') \<and> state t' = CloseAcknowledged \<and> sent (io (inner t')) = sent (io (inner ?a))"
    by (rule poll_close_ends_well [OF assms(1,2)]) (use assms(15) a1 b(5) in simp_all)
  then show ?thesis using a1(1,6) b by (auto simp: is_terminated_def arrive_def)
qed

text \<open>A client that closes while a ping is on its way to it, byte by byte.\<close>

definition closing_client :: "(duplex, unit) websocket_stream" where
  "closing_client = from_raw_stream \<lparr>incoming = [[0x89], [0x01], [0x70]], eof = False, room = replicate 8 1, sent = []\<rparr> ()
     Client config_default limits_default"

definition open_server :: "(duplex, unit) websocket_stream" where
  "open_server = from_raw_stream \<lparr>incoming = [], eof = False, room = replicate 8 3, sent = []\<rparr> () Server config_default limits_default"

theorem close_handshake_completes_witness:
  "\<exists>a1 a2 b1 b2 y. poll_close std_env 0 closing_client = Some (Pending, a1)
    \<and> poll_next std_env 1 (arrive (sent (io (inner a1))) open_server) = Some (Ready (Some (Inr (message_new Close [3, 232]))), b1)
    \<and> poll_next std_env 1 b1 = Some (Ready None, b2) \<and> is_terminated b2 \<and> sent (io (inner b2)) = y
    \<and> poll_close std_env 0 (arrive y a1) = Some (Ready (Inr ()), a2) \<and> is_terminated a2
    \<and> sent (io (inner a2)) = sent (io (inner a1))"
proof -
  let ?ping = "message_new Ping [0x70]"
  have fields: "role (decoder (inner closing_client)) = Client" "role (decoder (inner open_server)) = Server"
    "state closing_client = Active" "state open_server = Active" "\<not> eof (io (inner closing_client))"
    "limits (decoder (inner closing_client)) = limits_default" "limits (decoder (inner open_server)) = limits_default"
    "outgoing sent closing_client = []" "outgoing sent open_server = []" "unread (inner open_server) = []"
    by (simp_all add: closing_client_def open_server_def from_raw_stream_def protocol_new_def outgoing_def unread_def)
  have room: "roomy 8 closing_client" "roomy 8 open_server"
    by (simp_all add: closing_client_def open_server_def from_raw_stream_def roomy_def)
  have listen: "listening closing_client Continuation []" "listening open_server Continuation []"
    by (simp_all add: closing_client_def open_server_def listening_new)
  have bytes: "unread (inner closing_client) = wire_frames (\<lambda>_. [0, 0, 0, 0]) Server 0 (sent_frames 1 [?ping])"
    by (simp add: closing_client_def from_raw_stream_def unread_def frames_for_def frame_from_message_def message_new_def
        wire_frame_def wire_head_def len7_def ext_len_def mask_if_def)
  have ping: "\<forall>m \<in> set [?ping]. sendable m \<and> m_opcode m \<noteq> Close \<and> length (data (m_payload m)) \<le> max_payload_len limits_default"
    by (simp add: sendable_def legal_control_def frame_from_message_def message_new_def limits_default_def)
  from close_handshake_completes [where a = closing_client and b = open_server and ms = "[?ping]" and n = 1 and k = 0
      and ks = "\<lambda>_. [0, 0, 0, 0]" and pf = scalar_platform and pf' = scalar_platform and w = 0 and v = 1
      and keys = "\<lambda>_. [0x37, 0xFA, 0x21, 0x3D]" and keys' = "\<lambda>_. [0x37, 0xFA, 0x21, 0x3D]", unfolded fields,
      OF std.simdutf8_lib_axioms _ std.simdutf8_lib_axioms _ _ _ listen(1) _ _ room(1) listen(2) _ room(2) _ _ _ ping bytes]
  show ?thesis by (simp add: fields limits_default_def)
qed

end
