(* ===== verification/End_To_End.thy ===== *)
theory End_To_End
  imports Opening Receiving
begin

text \<open>
  A connection from its first byte: the handshake of a client and a server of this library, then the
  messages of both directions. The bytes of messages may arrive together with the heads of the handshake,
  in the buffer that the WebSocket stream takes over, or later, cut into reads in any way.
\<close>

text \<open>The bytes that the reads of a transport give.\<close>

fun bytes_of :: "read_event list \<Rightarrow> bytes" where
  "bytes_of [] = []"
| "bytes_of (Chunk c # evs) = c @ bytes_of evs"
| "bytes_of (_ # evs) = bytes_of evs"

lemma bytes_of_chunks [simp]: "bytes_of (map Chunk cs @ evs) = concat cs @ bytes_of evs"
  by (induction cs) auto

text \<open>
  What the results \<open>log\<close> of \<open>poll_next\<close> are to be, for a peer that was \<open>s0\<close>, has taken the messages \<open>ms\<close> and
  is now \<open>s\<close>: the first of the messages on the wire, and no errors but those of the transport.
\<close>

definition in_order ::
  "('io, 'f) env \<Rightarrow> ('io \<Rightarrow> bytes) \<Rightarrow> ('io, 'f) websocket_stream \<Rightarrow> message list \<Rightarrow> ('io, 'f) websocket_stream
    \<Rightarrow> (error + message) list \<Rightarrow> bool" where
  "in_order E written s0 ms s log \<longleftrightarrow>
     (\<exists>sent_ms. transmits E written s0 ms s sent_ms \<and> prefix (messages_of log) (map received sent_ms))
     \<and> (\<forall>e. Inl e \<in> set log \<longrightarrow> (\<exists>x. e = Io x))"

lemma in_order_initiated:
  assumes "in_order E written s0 ms s log" and "\<forall>m \<in> set ms. initiated m"
  shows "prefix (filter initiated (messages_of log)) (map received ms)"
    and "\<forall>d \<in> set (messages_of log). \<not> initiated d \<longrightarrow> m_opcode d \<in> {Pong, Close}"
  using assms transmits_initiated unfolding in_order_def by blast+

text \<open>An end of a connection: how it is configured, and how its transport is seen during the handshake and after it.\<close>

definition usable :: "config \<Rightarrow> limits \<Rightarrow> bool" where
  "usable c l \<longleftrightarrow> frame_size c \<noteq> 0 \<and> 125 \<le> max_payload_len l \<and> max_payload_len l \<le> usize_MAX"

lemma after_handshake_new:
  "usable c l \<Longrightarrow> ws_inv (after_handshake i f rb r c l)" "state (after_handshake i f rb r c l) = Active"
  "config (after_handshake i f rb r c l) = c" "contents (frame_queue (after_handshake i f rb r c l)) = []"
  "io (inner (after_handshake i f rb r c l)) = i"
proof -
  show "usable c l \<Longrightarrow> ws_inv (after_handshake i f rb r c l)"
    unfolding after_handshake_def usable_def by (intro ws_inv_new(2)) simp
qed (simp_all add: after_handshake_def from_framed_def)

lemma in_order_after_handshake:
  assumes "byte_transport V B view D" and "byte_transport U A seen E" and "usable c l" and "usable d k" and "q \<noteq> r"
    and "session D (after_handshake i f rb r c l) ms s" and "reading_session E (after_handshake j g rb' q d k) log t"
    and "\<forall>m \<in> set ms. length (data (m_payload m)) \<le> max_payload_len k"
    and "fst (view i) @ rb' @ snd (seen j) @ later = outgoing (\<lambda>i. fst (view i)) s"
  shows "in_order D (\<lambda>i. fst (view i)) (after_handshake i f rb r c l) ms s log"
  unfolding in_order_def after_handshake_def [of i]
  by (rule reading_session_receives [OF byte_transport.is_transport [OF assms(1)] assms(6) [unfolded after_handshake_def]
        _ _ assms(2) assms(7) [unfolded after_handshake_def] _ _ _ assms(5,8), where later = later])
    (use assms(3,4,9) in \<open>simp_all add: usable_def\<close>)

lemma after_handshake_streams:
  "accept H K N b st = Some (Inr (rq, ws)) \<Longrightarrow>
     ws = after_handshake (io (inner ws)) (reader_state (inner ws)) (buffer (inner ws)) Server (sb_config b) (sb_limits b)"
  "connect_on H K M key cb ct = Some (Inr (wc, rs)) \<Longrightarrow>
     wc = after_handshake (io (inner wc)) (reader_state (inner wc)) (buffer (inner wc)) Client (cb_config cb) (cb_limits cb)"
  by (auto simp: accept_def connect_on_def Let_def after_handshake_def from_framed_def split: option.splits sum.splits prod.splits if_splits)

lemma accepted_usable:
  assumes "accept H K Ns sb st = Some (Inr (rq, wss))" and "usable (sb_config sb) (sb_limits sb)"
  shows "ws_inv wss" "frame_size (config wss) \<noteq> 0" "contents (frame_queue wss) = []"
proof -
  from after_handshake_streams(1) [OF assms(1)] obtain j g rb where
    wss: "wss = after_handshake j g rb Server (sb_config sb) (sb_limits sb)" by blast
  show "ws_inv wss" "contents (frame_queue wss) = []" by (simp_all add: wss after_handshake_new(1) [OF assms(2)] after_handshake_new(4))
  show "frame_size (config wss) \<noteq> 0" using assms(2) by (simp add: wss after_handshake_new(3) usable_def)
qed

text \<open>
  C14: A connection works from its first byte. A client and a server, each made by its builder, complete the handshake;
  the streams that they get then exchange messages in both directions. Whatever each application does with its
  stream, in whatever order, what the calls of \<open>poll_next\<close> of the other end have returned so far are the first of the
  messages on the wire: the messages of every opcode that the application has sent, none missing, in order and unchanged, with
  the pongs and close messages that its stream adds, and nothing after a close message; the only errors are
  errors of the transport. (The reading end calls \<open>poll_next\<close>, \<open>start_send\<close>, \<open>poll_ready\<close> and \<open>poll_flush\<close> as it likes, not
  \<open>poll_close\<close>, which reads messages and throws them away.) This holds for the messages that arrive in one read with the request or
  the response, and are handed over in the read buffer, as for those that arrive later, over transports
  that may wait at any time and cut the bytes in any way. No message is longer than the reader's limit allows.
\<close>

theorem connection_end_to_end:
  assumes "http_library H" and "crypto_lib K"
    and "handshake_io Nc sentc readsc" and "handshake_io Ns sents readss"
    and "writes_succeed Nc" and "writes_succeed Ns"
    and "cb_uri cb = Some u" and "legal_request H u (cb_headers cb)" and "legal_answer H (sb_headers sb)"
    and "length key_bytes = 16" and "key = base64_encode K key_bytes"
    and "resp = switching_protocols_response H (sb_headers sb) (ws_accept K (digest K key))"
    and "readss st = map Chunk cs @ evs" "concat cs = build_request H u key (cb_headers cb) @ early"
    and "readsc ct = map Chunk cs' @ evs'" "concat cs' = resp @ early'"
    and "byte_transport V B (\<lambda>i. (sentc i, bytes_of (readsc i))) D" and "byte_transport U A (\<lambda>i. (sents i, bytes_of (readss i))) E"
    and "usable (cb_config cb) (cb_limits cb)" and "usable (sb_config sb) (sb_limits sb)"
  shows "\<exists>rq rs wsc wss.
    accept H K Ns sb st = Some (Inr (rq, wss)) \<and> connect_on H K Nc key_bytes cb ct = Some (Inr (wsc, rs)) \<and>
    (\<forall>ms s log t later. session D wsc ms s \<and> (\<forall>m \<in> set ms. length (data (m_payload m)) \<le> max_payload_len (sb_limits sb))
       \<and> reading_session E wss log t \<and> sentc (io (inner wsc)) @ early @ bytes_of evs @ later = outgoing sentc s
       \<longrightarrow> in_order D sentc wsc ms s log) \<and>
    (\<forall>ms s log t later. session E wss ms s \<and> (\<forall>m \<in> set ms. length (data (m_payload m)) \<le> max_payload_len (cb_limits cb))
       \<and> reading_session D wsc log t \<and> sents (io (inner wss)) @ early' @ bytes_of evs' @ later = outgoing sents s
       \<longrightarrow> in_order E sents wss ms s log)"
proof -
  from handshake_run [OF assms(1-16)] obtain rq rs i f rest i' f' rest' j j' where
    acc: "accept H K Ns sb st = Some (Inr (rq, after_handshake i f rest Server (sb_config sb) (sb_limits sb)))" and
    con: "connect_on H K Nc key_bytes cb ct = Some (Inr (after_handshake i' f' rest' Client (cb_config cb) (cb_limits cb), rs))" and
    left: "readss i = map Chunk (drop j cs) @ evs" "rest @ concat (drop j cs) = early"
      "readsc i' = map Chunk (drop j' cs') @ evs'" "rest' @ concat (drop j' cs') = early'" by blast
  let ?wss = "after_handshake i f rest Server (sb_config sb) (sb_limits sb)"
  let ?wsc = "after_handshake i' f' rest' Client (cb_config cb) (cb_limits cb)"
  note io = after_handshake_new(5)
  have early: "early = rest @ concat (drop j cs)" "early' = rest' @ concat (drop j' cs')" using left(2,4) by simp_all
  have "in_order D sentc ?wsc ms s log"
    if "session D ?wsc ms s" "\<forall>m \<in> set ms. length (data (m_payload m)) \<le> max_payload_len (sb_limits sb)"
      "reading_session E ?wss log t" "sentc i' @ early @ bytes_of evs @ later = outgoing sentc s" for ms s log t later
    by (rule in_order_after_handshake [OF assms(17,18,19,20) _ that(1,3,2), unfolded fst_conv])
      (use that(4) in \<open>simp_all add: left(1) early\<close>)
  moreover have "in_order E sents ?wss ms s log"
    if "session E ?wss ms s" "\<forall>m \<in> set ms. length (data (m_payload m)) \<le> max_payload_len (cb_limits cb)"
      "reading_session D ?wsc log t" "sents i @ early' @ bytes_of evs' @ later = outgoing sents s" for ms s log t later
    by (rule in_order_after_handshake [OF assms(18,17,20,19) _ that(1,3,2), unfolded fst_conv])
      (use that(4) in \<open>simp_all add: left(3) early\<close>)
  ultimately show ?thesis
    by (intro exI [of _ rq] exI [of _ rs] exI [of _ ?wsc] exI [of _ ?wss]) (simp add: acc con io, blast)
qed

subsection \<open>A connection in memory\<close>

text \<open>The transport of \<open>Plain_Http\<close> as a byte stream.\<close>

definition memory_read :: "waker \<Rightarrow> nat \<Rightarrow> memory_io \<Rightarrow> (io_error + bytes) poll \<times> memory_io" where
  "memory_read w n i =
     (case mem_reads i of
        [] \<Rightarrow> (Pending, i)
      | Chunk c # evs \<Rightarrow>
          (Ready (Inr (take n c)), i\<lparr>mem_reads := (if length c \<le> n then evs else Chunk (drop n c) # evs)\<rparr>)
      | End_Of_Stream # evs \<Rightarrow> (Ready (Inr []), i\<lparr>mem_reads := evs\<rparr>)
      | Read_Error e # evs \<Rightarrow> (Ready (Inl e), i\<lparr>mem_reads := evs\<rparr>))"

definition memory_stream :: "memory_io async_io" where
  "memory_stream = \<lparr>aio_read = memory_read, aio_write = (\<lambda>w bs i. (Ready (Inr (length bs)), i\<lparr>mem_sent := mem_sent i @ bs\<rparr>)),
     aio_flush = (\<lambda>w i. (Ready (Inr ()), i)), aio_shutdown = (\<lambda>w i. (Ready (Inr ()), i)),
     aio_write_vectored = (\<lambda>w bss i. (Ready (Inr (length (concat bss))), i\<lparr>mem_sent := mem_sent i @ concat bss\<rparr>)),
     aio_is_write_vectored = (\<lambda>_. True)\<rparr>"

interpretation memory_stream: byte_stream memory_stream "\<lambda>i. (mem_sent i, bytes_of (mem_reads i))"
  by unfold_locales
    (auto simp: memory_stream_def memory_read_def read_ok_def write_ok_def split: list.split read_event.split)

abbreviation "memory_env \<equiv> framed_env std_utf8 scalar_platform (\<lambda>_. [0x37, 0xFA, 0x21, 0x3D]) 3 memory_stream"

interpretation memory_env: byte_transport std_utf8 memory_stream "\<lambda>i. (mem_sent i, bytes_of (mem_reads i))" memory_env
  by (rule framed_env_byte_transport [OF std.simdutf8_lib_axioms memory_stream.byte_stream_axioms]) simp

definition example_req :: bytes where
  "example_req = build_request plain_http example_uri (b64_encode example_key) (cb_headers example_client)"

definition example_resp :: bytes where
  "example_resp = switching_protocols_response plain_http (sb_headers example_server)
     (ws_accept rfc_crypto (digest rfc_crypto (b64_encode example_key)))"

lemma example_ends:
  "\<exists>rq wss. accept plain_http rfc_crypto memory_net example_server (memory_of [example_req @ early]) = Some (Inr (rq, wss))
     \<and> buffer (inner wss) @ bytes_of (mem_reads (io (inner wss))) = early"
  "\<exists>rs wsc. connect_on plain_http rfc_crypto memory_net example_key example_client (memory_of [example_resp @ early'])
       = Some (Inr (wsc, rs)) \<and> buffer (inner wsc) @ bytes_of (mem_reads (io (inner wsc))) = early'"
proof -
  have b64: "base64_encode rfc_crypto = b64_encode" by (simp add: rfc_crypto_def)
  from handshake_run [OF example_world(1,2,3,3) memory_writes_succeed memory_writes_succeed example_simps(1)
      example_request example_answer example_simps(2) refl refl example_simps(3), unfolded b64,
      folded example_req_def example_resp_def, of "[example_req @ early]" early "memory_of [example_resp @ early']"
      "[example_resp @ early']" "[End_Of_Stream]" early']
  obtain rq rs i f rest i' f' rest' k k' where
    "accept plain_http rfc_crypto memory_net example_server (memory_of [example_req @ early])
      = Some (Inr (rq, after_handshake i f rest Server (sb_config example_server) (sb_limits example_server)))"
    "connect_on plain_http rfc_crypto memory_net example_key example_client (memory_of [example_resp @ early'])
      = Some (Inr (after_handshake i' f' rest' Client (cb_config example_client) (cb_limits example_client), rs))"
    "mem_reads i = map Chunk (drop k [example_req @ early]) @ [End_Of_Stream]" "rest @ concat (drop k [example_req @ early]) = early"
    "mem_reads i' = map Chunk (drop k' [example_resp @ early']) @ [End_Of_Stream]"
    "rest' @ concat (drop k' [example_resp @ early']) = early'"
    by (auto simp: example_simps)
  then show
    "\<exists>rq wss. accept plain_http rfc_crypto memory_net example_server (memory_of [example_req @ early]) = Some (Inr (rq, wss))
     \<and> buffer (inner wss) @ bytes_of (mem_reads (io (inner wss))) = early"
    "\<exists>rs wsc. connect_on plain_http rfc_crypto memory_net example_key example_client (memory_of [example_resp @ early'])
       = Some (Inr (wsc, rs)) \<and> buffer (inner wsc) @ bytes_of (mem_reads (io (inner wsc))) = early'"
    by (force simp: after_handshake_def from_framed_def)+
qed

lemma example_usable:
  "usable (cb_config example_client) (cb_limits example_client)" "usable (sb_config example_server) (sb_limits example_server)"
  by (simp_all add: usable_def example_client_def client_from_uri_def example_server_def server_new_def config_default_def limits_default_def)

text \<open>What the client sends with its first message.\<close>

abbreviation first_message :: "message \<Rightarrow> bytes" where
  "first_message m \<equiv> wire_frames (masks memory_env) Client 0 (frames_for (frame_size config_default) m)"

lemma example_client_sends:
  assumes "connect_on plain_http rfc_crypto memory_net example_key example_client ct = Some (Inr (wsc, rs))" and "sendable m"
  shows "\<exists>s. start_send memory_env wsc m = Some (Inr (), s) \<and> session memory_env wsc [m] s
    \<and> outgoing mem_sent s = mem_sent (io (inner wsc)) @ first_message m"
proof -
  from after_handshake_streams(2) [OF assms(1)] obtain i f rb where
    wsc: "wsc = after_handshake i f rb Client (cb_config example_client) (cb_limits example_client)" by blast
  have "cb_config example_client = config_default" by (simp add: example_client_def client_from_uri_def)
  then have fields: "role (decoder (inner wsc)) = Client" "masks_drawn wsc = 0" "frame_size (config wsc) = frame_size config_default"
    "outgoing mem_sent wsc = mem_sent (io (inner wsc))" "state wsc = Active"
    by (simp_all add: wsc after_handshake_def) (simp_all add: outgoing_def from_framed_def)
  have "ws_inv wsc" "frame_size (config wsc) \<noteq> 0"
    using example_usable(1) by (simp_all add: wsc after_handshake_new) (simp add: usable_def)
  from transport.start_send_sends [OF memory_env.is_transport this, of m] fields obtain s where
    s: "start_send memory_env wsc m = Some (Inr (), s)" "outgoing mem_sent s = mem_sent (io (inner wsc)) @ first_message m"
    by (auto simp: sends_def frames_for_def split: if_splits)
  have "session memory_env wsc ([] @ [m]) s" by (rule session_send [OF session_start assms(2) s(1)])
  with s show ?thesis by auto
qed

text \<open>
  A client that sends a ping right after its request: the server reads both at once.
\<close>

theorem connection_end_to_end_witness:
  "\<exists>rq rs wsc wss s r t. let ping = \<lparr>m_opcode = Ping, m_payload = payload_from_bytes [7]\<rparr> in
     accept plain_http rfc_crypto memory_net example_server (memory_of [example_req @ first_message ping]) = Some (Inr (rq, wss)) \<and>
     connect_on plain_http rfc_crypto memory_net example_key example_client (memory_of [example_resp]) = Some (Inr (wsc, rs)) \<and>
     start_send memory_env wsc ping = Some (Inr (), s) \<and>
     poll_next memory_env 0 wss = Some (r, t) \<and> in_order memory_env mem_sent wsc [ping] s (case r of Ready (Some x) \<Rightarrow> [x] | _ \<Rightarrow> [])"
proof -
  let ?ping = "\<lparr>m_opcode = Ping, m_payload = payload_from_bytes [7]\<rparr>"
  have ok: "sendable ?ping" by (simp add: sendable_def legal_control_def frame_from_message_def payload_from_bytes_def)
  have b64: "base64_encode rfc_crypto = b64_encode" by (simp add: rfc_crypto_def)
  from connection_end_to_end [OF example_world(1,2,3,3) memory_writes_succeed memory_writes_succeed example_simps(1)
      example_request example_answer example_simps(2) refl refl example_simps(3), unfolded b64, folded example_req_def example_resp_def,
      of "[example_req @ first_message ?ping]" "first_message ?ping" "memory_of [example_resp]" "[example_resp]" "[End_Of_Stream]" "[]",
      OF _ _ _ memory_env.byte_transport_axioms memory_env.byte_transport_axioms example_usable]
  obtain rq rs wsc wss where
    acc: "accept plain_http rfc_crypto memory_net example_server (memory_of [example_req @ first_message ?ping]) = Some (Inr (rq, wss))"
    and con: "connect_on plain_http rfc_crypto memory_net example_key example_client (memory_of [example_resp]) = Some (Inr (wsc, rs))"
    and all: "\<forall>ms s log t later. session memory_env wsc ms s
       \<and> (\<forall>m \<in> set ms. length (data (m_payload m)) \<le> max_payload_len (sb_limits example_server))
       \<and> reading_session memory_env wss log t
       \<and> mem_sent (io (inner wsc)) @ first_message ?ping @ bytes_of [End_Of_Stream] @ later = outgoing mem_sent s \<longrightarrow> in_order memory_env mem_sent wsc ms s log"
    by auto
  from example_client_sends [OF con ok] obtain s where s: "start_send memory_env wsc ?ping = Some (Inr (), s)"
    "session memory_env wsc [?ping] s" "outgoing mem_sent s = mem_sent (io (inner wsc)) @ first_message ?ping" by blast
  from finite_transport.poll_next_uses [OF memory_env.is_finite_transport accepted_usable(1) [OF acc example_usable(2)], of 0]
  obtain r t where r: "poll_next memory_env 0 wss = Some (r, t)" by blast
  have "in_order memory_env mem_sent wsc [?ping] s (case r of Ready (Some x) \<Rightarrow> [x] | _ \<Rightarrow> [])"
    using all [rule_format, of "[?ping]" s _ t "[]"] s(2,3) reading_next [OF reading_start r] example_usable(2)
    by (auto simp: usable_def payload_from_bytes_def)
  then show ?thesis unfolding Let_def using acc con s(1) r by blast
qed

end
