(* ===== verification/Echo.thy ===== *)
theory Echo
  imports Accessors End_To_End
begin

text \<open>
  The echo servers of the examples, \<open>examples/autobahn_server.rs\<close> and \<open>examples/echo_server.rs\<close>: a task that sends
  back each text and binary message it receives. The theory runs the task on the model of the stream, poll by
  poll, and shows what a client of this library gets back.
\<close>

subsection \<open>The task\<close>

text \<open>
  The future of \<open>SinkExt::send\<close>, as its documentation says: it waits until the sink is ready, hands over the
  message, and flushes. \<open>item\<close> is the message as long as it is not handed over.
\<close>

definition send_poll ::
  "('io, 'f) env \<Rightarrow> waker \<Rightarrow> message option \<Rightarrow> ('io, 'f) websocket_stream
     \<Rightarrow> ((error + unit) poll \<times> message option \<times> ('io, 'f) websocket_stream) option" where
  "send_poll E w item s =
     (case (case item of
              None \<Rightarrow> Some (Ready (Inr ()), None, s)
            | Some m \<Rightarrow>
                (case poll_ready E w s of
                   None \<Rightarrow> None
                 | Some (Ready (Inr _), s1) \<Rightarrow> map_option (\<lambda>(r, s2). (Ready r, None, s2)) (start_send E s1 m)
                 | Some (r, s1) \<Rightarrow> Some (r, item, s1))) of
        None \<Rightarrow> None
      | Some (Ready (Inr _), _, s1) \<Rightarrow> map_option (\<lambda>(r, s2). (r, None, s2)) (poll_flush E w s1)
      | Some (r, item1, s1) \<Rightarrow> Some (r, item1, s1))"

text \<open>Where the task waits: in \<open>next\<close>, or in \<open>send\<close>.\<close>

datatype await = Awaits_Next | Awaits_Send "message option"

text \<open>
  What the task does from one \<open>await\<close> to the next: its result, if it is pending or has returned, or else the
  next future it polls.
\<close>

definition echo_round ::
  "('io, 'f) env \<Rightarrow> waker \<Rightarrow> await \<Rightarrow> ('io, 'f) websocket_stream
     \<Rightarrow> ((error + unit) poll option \<times> await \<times> ('io, 'f) websocket_stream) option" where
  "echo_round E w a s =
     (case a of
        Awaits_Next \<Rightarrow>
          (case poll_next E w s of
             None \<Rightarrow> None
           | Some (Pending, s1) \<Rightarrow> Some (Some Pending, Awaits_Next, s1)
           | Some (Ready None, s1) \<Rightarrow> Some (Some (Ready (Inr ())), Awaits_Next, s1)
           | Some (Ready (Some (Inl e)), s1) \<Rightarrow> Some (Some (Ready (Inl e)), Awaits_Next, s1)
           | Some (Ready (Some (Inr msg)), s1) \<Rightarrow>
               Some (None, if is_text_message msg \<or> is_binary msg then Awaits_Send (Some msg) else Awaits_Next, s1))
      | Awaits_Send item \<Rightarrow>
          (case send_poll E w item s of
             None \<Rightarrow> None
           | Some (Pending, item1, s1) \<Rightarrow> Some (Some Pending, Awaits_Send item1, s1)
           | Some (Ready (Inl e), item1, s1) \<Rightarrow> Some (Some (Ready (Inl e)), Awaits_Send item1, s1)
           | Some (Ready (Inr _), _, s1) \<Rightarrow> Some (None, Awaits_Next, s1)))"

text \<open>One poll of the task.\<close>

partial_function (option) echo_poll ::
  "('io, 'f) env \<Rightarrow> waker \<Rightarrow> await \<Rightarrow> ('io, 'f) websocket_stream
     \<Rightarrow> ((error + unit) poll \<times> await \<times> ('io, 'f) websocket_stream) option" where
  "echo_poll E w a s =
     (case echo_round E w a s of
        None \<Rightarrow> None
      | Some (Some r, a1, s1) \<Rightarrow> Some (r, a1, s1)
      | Some (None, a1, s1) \<Rightarrow> echo_poll E w a1 s1)"

text \<open>The task while it is polled: its last result, where it waits, and its stream.\<close>

inductive echo_run ::
  "('io, 'f) env \<Rightarrow> ('io, 'f) websocket_stream \<Rightarrow> (error + unit) poll \<Rightarrow> await \<Rightarrow> ('io, 'f) websocket_stream \<Rightarrow> bool"
  for E :: "('io, 'f) env" and s0 :: "('io, 'f) websocket_stream" where
  echo_start: "echo_run E s0 Pending Awaits_Next s0"
| echo_polled: "echo_run E s0 Pending a s \<Longrightarrow> echo_poll E w a s = Some (r, a', s') \<Longrightarrow> echo_run E s0 r a' s'"

text \<open>
  \<open>handle_connection\<close> of the Autobahn server, which gets to the loop after the handshake; and the task of the
  echo server, which ends on an error of \<open>next\<close> and panics, \<open>None\<close>, on an error of \<open>send\<close>.
\<close>

definition autobahn_builder :: "'h http_lib \<Rightarrow> 'h server_builder" where
  "autobahn_builder H = server_limits (server_new H) limits_unlimited"

definition handle_connection ::
  "'h http_lib \<Rightarrow> crypto \<Rightarrow> ('io, 'f, 'h) net \<Rightarrow> 'io \<Rightarrow> (error + await \<times> ('io, 'f) websocket_stream) option" where
  "handle_connection H K N stream =
     (case accept H K N (autobahn_builder H) stream of
        None \<Rightarrow> None
      | Some (Inl (e, _)) \<Rightarrow> Some (Inl e)
      | Some (Inr (_, ws_stream)) \<Rightarrow> Some (Inr (Awaits_Next, ws_stream)))"

definition echo_builder :: "'h http_lib \<Rightarrow> 'h server_builder option" where
  "echo_builder H =
     map_option (\<lambda>c. server_limits (server_config (server_new H) c) limits_unlimited) (config_frame_size config_default usize_MAX)"

definition echo_server_poll ::
  "('io, 'f) env \<Rightarrow> waker \<Rightarrow> await \<Rightarrow> ('io, 'f) websocket_stream \<Rightarrow> (unit poll \<times> await \<times> ('io, 'f) websocket_stream) option" where
  "echo_server_poll E w a s =
     (case echo_poll E w a s of
        None \<Rightarrow> None
      | Some (Pending, a1, s1) \<Rightarrow> Some (Pending, a1, s1)
      | Some (Ready (Inr _), a1, s1) \<Rightarrow> Some (Ready (), a1, s1)
      | Some (Ready (Inl _), Awaits_Next, s1) \<Rightarrow> Some (Ready (), Awaits_Next, s1)
      | Some (Ready (Inl _), Awaits_Send _, s1) \<Rightarrow> None)"

lemma echo_server_poll_panics:
  "echo_poll E w a s = Some (r, a1, s1) \<Longrightarrow>
     echo_server_poll E w a s = None \<longleftrightarrow> (\<exists>e item. r = Ready (Inl e) \<and> a1 = Awaits_Send item)"
  by (auto simp: echo_server_poll_def split: poll.split sum.split await.split)

subsection \<open>Every poll of the task returns\<close>

context finite_transport
begin

text \<open>Sending takes no bytes from the transport, and leads away from \<open>Active\<close> only.\<close>

definition no_further :: "('io, 'f) websocket_stream \<Rightarrow> ('io, 'f) websocket_stream \<Rightarrow> bool" where
  "no_further s' s \<longleftrightarrow> rank (state s') \<le> rank (state s) \<and> to_decode available s' = to_decode available s
     \<and> config s' = config s \<and> ws_inv s'"

lemma no_further_trans: "no_further s2 s1 \<Longrightarrow> no_further s1 s \<Longrightarrow> no_further s2 s"
  by (auto simp: no_further_def)

lemma flush_no_further:
  assumes "ws_inv s"
  shows "\<exists>r s'. poll_flush E w s = Some (r, s') \<and> no_further s' s"
proof -
  have "fq_inv (frame_queue s)" using assms by (simp add: ws_inv_def)
  from poll_flush_total [OF this, of w] obtain r s' where
    r: "poll_flush E w s = Some (r, s')" and post: "flush_post written w s r s'" by blast
  have "sends E written s [] s'" "ws_inv s'" using flush_sends [OF assms post] by simp_all
  then have "no_further s' s"
    using poll_flush_available [OF r] post
    by (simp add: no_further_def sends_def rank_mono to_decode_def flush_post_def same_besides_io_def)
  with r show ?thesis by blast
qed

lemma ready_no_further:
  assumes "ws_inv s"
  shows "\<exists>r s'. poll_ready E w s = Some (r, s') \<and> no_further s' s"
  using flush_no_further [OF assms, of w] assms by (auto simp: poll_ready_def no_further_def)

lemma start_send_no_further:
  assumes "ws_inv s" and "frame_size (config s) \<noteq> 0"
  shows "\<exists>r s'. start_send E s m = Some (r, s') \<and> no_further s' s"
proof -
  from start_send_sends [OF assms, of m] obtain r s' frs where
    r: "start_send E s m = Some (r, s')" "sends E written s frs s'" "ws_inv s'" by blast
  have "no_further s' s"
    using start_send_inner [OF r(1) assms(2)] r(2,3) by (simp add: no_further_def sends_def rank_mono to_decode_def)
  with r(1) show ?thesis by blast
qed

lemma send_poll_no_further:
  assumes "ws_inv s" and "frame_size (config s) \<noteq> 0"
  shows "\<exists>r item' s'. send_poll E w item s = Some (r, item', s') \<and> no_further s' s"
proof -
  have flush: "\<exists>r s'. poll_flush E w t = Some (r, s') \<and> no_further s' s" if "no_further t s" for t
    using flush_no_further [of t w] no_further_trans that by (auto simp: no_further_def)
  show ?thesis
  proof (cases item)
    case None
    from flush [of s] assms(1) show ?thesis using None by (auto simp: send_poll_def no_further_def)
  next
    case (Some m)
    from ready_no_further [OF assms(1), of w] obtain r s1 where
      r: "poll_ready E w s = Some (r, s1)" and s1: "no_further s1 s" by blast
    show ?thesis
    proof (cases "r = Ready (Inr ())")
      case False
      then show ?thesis using r s1 Some by (cases r) (auto simp: send_poll_def split: sum.split)
    next
      case True
      have "ws_inv s1" "frame_size (config s1) \<noteq> 0" using s1 assms(2) by (simp_all add: no_further_def)
      from start_send_no_further [OF this, of m] obtain x s2 where
        x: "start_send E s1 m = Some (x, s2)" and "no_further s2 s1" by blast
      then have s2: "no_further s2 s" using s1 no_further_trans by blast
      from flush [OF this] show ?thesis using r x s2 True Some by (cases x) (auto simp: send_poll_def)
    qed
  qed
qed

definition await_rank :: "await \<Rightarrow> nat" where
  "await_rank a = (case a of Awaits_Next \<Rightarrow> 0 | Awaits_Send _ \<Rightarrow> 1)"

lemma echo_round_progress:
  assumes "ws_inv s" and "frame_size (config s) \<noteq> 0"
  shows "\<exists>x a' s'. echo_round E w a s = Some (x, a', s') \<and> ws_inv s' \<and> config s' = config s \<and>
    (x = None \<longrightarrow> ((rank (state s'), to_decode available s', await_rank a'), (rank (state s), to_decode available s, await_rank a))
       \<in> less_than <*lex*> less_than <*lex*> less_than)"
proof (cases a)
  case Awaits_Next
  from poll_next_uses [OF assms(1), of w] obtain r s' where
    r: "poll_next E w s = Some (r, s')" "ws_inv s'" "\<forall>x. r = Ready (Some x) \<longrightarrow> closer s' s" by blast
  moreover from poll_next_loop_sends [OF r(1) [unfolded poll_next_def] assms(1)] have "config s' = config s"
    by (auto simp: sends_def)
  ultimately show ?thesis
    using Awaits_Next by (auto simp: echo_round_def closer_def split: poll.split option.split sum.split)
next
  case (Awaits_Send item)
  from send_poll_no_further [OF assms, of w item] obtain r item' s' where
    "send_poll E w item s = Some (r, item', s')" "no_further s' s" by blast
  then show ?thesis
    using Awaits_Send by (auto simp: echo_round_def no_further_def await_rank_def split: poll.split sum.split)
qed

lemma echo_poll_ends:
  assumes "ws_inv s" and "frame_size (config s) \<noteq> 0"
  shows "\<exists>r a' s'. echo_poll E w a s = Some (r, a', s') \<and> ws_inv s' \<and> config s' = config s"
  using assms
proof (induction "(rank (state s), to_decode available s, await_rank a)" arbitrary: s a rule: wf_induct_rule
    [OF wf_lex_prod [OF wf_less_than wf_lex_prod [OF wf_less_than wf_less_than]]])
  case 1
  from echo_round_progress [OF 1(2,3), of w a] obtain x a1 s1 where
    x: "echo_round E w a s = Some (x, a1, s1)" "ws_inv s1" "config s1 = config s"
    and less: "x = None \<longrightarrow> ((rank (state s1), to_decode available s1, await_rank a1),
      (rank (state s), to_decode available s, await_rank a)) \<in> less_than <*lex*> less_than <*lex*> less_than" by blast
  show ?case
  proof (cases x)
    case None
    with less x 1(3) 1(1) [of s1 a1] show ?thesis by (subst echo_poll.simps) simp
  next
    case (Some r)
    with x show ?thesis by (subst echo_poll.simps) simp
  qed
qed

end

subsection \<open>What the task sends\<close>

definition to_echo :: "message \<Rightarrow> bool" where
  "to_echo m \<longleftrightarrow> is_text_message m \<or> is_binary m"

lemma to_echo_initiated: "to_echo m \<Longrightarrow> initiated m"
  by (auto simp: to_echo_def is_text_message_def is_binary_def initiated_def)

lemma to_echo_received [simp]: "to_echo (received m) = to_echo m"
  by (simp add: to_echo_def is_text_message_def is_binary_def received_def message_new_def)

definition held :: "message option \<Rightarrow> message list" where
  "held item = (case item of None \<Rightarrow> [] | Some m \<Rightarrow> [m])"

definition awaited :: "await \<Rightarrow> message list" where
  "awaited a = (case a of Awaits_Next \<Rightarrow> [] | Awaits_Send item \<Rightarrow> held item)"

lemma held_simps [simp]: "held None = []" "held (Some m) = [m]" "awaited Awaits_Next = []" "awaited (Awaits_Send item) = held item"
  by (simp_all add: held_def awaited_def)

text \<open>
  The task has read and sent on its stream; what it has sent, and the message that it holds, are the text and
  binary messages it has read, until it fails.
\<close>

definition echoes ::
  "('io, 'f) env \<Rightarrow> ('io, 'f) websocket_stream \<Rightarrow> bool \<Rightarrow> await \<Rightarrow> ('io, 'f) websocket_stream \<Rightarrow> bool" where
  "echoes E s0 failed a s \<longleftrightarrow> (\<exists>log es. reading_session E s0 log s \<and> session E s0 es s
     \<and> prefix (es @ awaited a) (filter to_echo (messages_of log))
     \<and> (\<not> failed \<longrightarrow> es @ awaited a = filter to_echo (messages_of log)))"

definition send_failed :: "(error + unit) poll \<Rightarrow> bool" where
  "send_failed r \<longleftrightarrow> (\<exists>e. r = Ready (Inl e))"

lemma send_failed_simps [simp]: "send_failed (Ready (Inl e))" "\<not> send_failed (Ready (Inr u))" "\<not> send_failed Pending"
  by (simp_all add: send_failed_def)

lemma flush_echoes:
  "echoes E s0 b a s \<Longrightarrow> poll_flush E w s = Some (r, s') \<Longrightarrow> echoes E s0 b a s'"
  unfolding echoes_def by (blast intro: reading_flush session_flush)

lemma ready_echoes:
  "echoes E s0 b a s \<Longrightarrow> poll_ready E w s = Some (r, s') \<Longrightarrow> echoes E s0 b a s'"
  unfolding echoes_def by (blast intro: reading_ready session_ready)

lemma echoes_weaken: "echoes E s0 False a s \<Longrightarrow> echoes E s0 b a s"
  unfolding echoes_def by blast

lemma start_send_echoes:
  assumes "echoes E s0 False (Awaits_Send (Some m)) s" and "sendable m" and "start_send E s m = Some (r, s')"
  shows "echoes E s0 (isl r) (Awaits_Send None) s'"
proof -
  from assms(1) obtain log es where log: "reading_session E s0 log s" "session E s0 es s"
    "es @ [m] = filter to_echo (messages_of log)" by (auto simp: echoes_def)
  have run: "reading_session E s0 log s'" by (rule reading_send [OF log(1) assms(3)])
  show ?thesis
  proof (cases r)
    case (Inl e)
    have "session E s0 es s'" using session_refused [OF log(2)] assms(3) Inl by blast
    moreover have "prefix es (filter to_echo (messages_of log))" by (simp flip: log(3))
    ultimately show ?thesis using run Inl unfolding echoes_def by (intro exI [of _ log] exI [of _ es]) simp
  next
    case (Inr u)
    have "session E s0 (es @ [m]) s'" using session_send [OF log(2) assms(2)] assms(3) Inr by simp
    then show ?thesis using run log(3) Inr unfolding echoes_def by (intro exI [of _ log] exI [of _ "es @ [m]"]) simp
  qed
qed

lemma send_poll_echoes:
  assumes "echoes E s0 False (Awaits_Send item) s" and "\<And>m. item = Some m \<Longrightarrow> sendable m"
    and "send_poll E w item s = Some (r, item', s')"
  shows "echoes E s0 (send_failed r) (Awaits_Send item') s' \<and> (r = Ready (Inr ()) \<longrightarrow> item' = None)"
proof (cases item)
  case None
  with assms(3) have "poll_flush E w s = Some (r, s')" "item' = None" by (auto simp: send_poll_def)
  then show ?thesis using echoes_weaken [OF flush_echoes [OF assms(1)]] None by simp
next
  case (Some m)
  from assms(3) obtain x s1 where x: "poll_ready E w s = Some (x, s1)" by (auto simp: send_poll_def Some split: option.splits)
  note s1 = ready_echoes [OF assms(1) x]
  show ?thesis
  proof (cases "x = Ready (Inr ())")
    case False
    then have "r = x \<and> item' = item \<and> s' = s1"
      using assms(3) x Some by (cases x) (auto simp: send_poll_def split: sum.splits)
    then show ?thesis using echoes_weaken [OF s1] False by simp
  next
    case True
    with assms(3) x Some obtain y s2 where y: "start_send E s1 m = Some (y, s2)" by (auto simp: send_poll_def split: option.splits)
    note s2 = start_send_echoes [OF s1 [unfolded Some] assms(2) [OF Some] y]
    show ?thesis
    proof (cases y)
      case (Inl e)
      then show ?thesis using assms(3) x y True Some s2 by (auto simp: send_poll_def)
    next
      case (Inr u)
      with assms(3) x y True Some have "poll_flush E w s2 = Some (r, s')" "item' = None" by (auto simp: send_poll_def)
      moreover have "echoes E s0 False (Awaits_Send None) s2" using s2 Inr by simp
      ultimately show ?thesis using echoes_weaken [OF flush_echoes] by blast
    qed
  qed
qed

lemma next_echoes:
  assumes "echoes E s0 False Awaits_Next s" and "poll_next E w s = Some (r, s')"
  shows "echoes E s0 False (case r of Ready (Some (Inr m)) \<Rightarrow> if to_echo m then Awaits_Send (Some m) else Awaits_Next
    | _ \<Rightarrow> Awaits_Next) s'"
proof -
  from assms(1) obtain log es where log: "reading_session E s0 log s" "session E s0 es s"
    "es = filter to_echo (messages_of log)" by (auto simp: echoes_def)
  note run = reading_next [OF log(1) assms(2)] session_next [OF log(2) assms(2)]
  show ?thesis
    unfolding echoes_def
    by (intro exI conjI, rule run(1), rule run(2)) (auto simp: log(3) split: poll.split option.split sum.split)
qed

text \<open>The messages that the task sends back can be sent, if those that it receives can.\<close>

lemma echo_round_echoes:
  assumes ok: "\<And>log t m. reading_session E s0 log t \<Longrightarrow> m \<in> set (messages_of log) \<Longrightarrow> to_echo m \<Longrightarrow> sendable m"
    and s: "echoes E s0 False a s" and "echo_round E w a s = Some (x, a', s')"
  shows "echoes E s0 (\<exists>e. x = Some (Ready (Inl e))) a' s'"
proof (cases a)
  case Awaits_Next
  from assms(3) Awaits_Next obtain r where r: "poll_next E w s = Some (r, s')"
    by (auto simp: echo_round_def split: option.splits poll.splits sum.splits)
  note n = next_echoes [OF s [unfolded Awaits_Next] r]
  show ?thesis
  proof (cases "\<exists>m. r = Ready (Some (Inr m))")
    case True
    then show ?thesis using n r assms(3) Awaits_Next by (auto simp: echo_round_def to_echo_def)
  next
    case False
    with n have "echoes E s0 False Awaits_Next s'" by (auto split: poll.splits option.splits sum.splits)
    then have "echoes E s0 b Awaits_Next s'" for b by (rule echoes_weaken)
    moreover have "a' = Awaits_Next"
      using False r assms(3) Awaits_Next by (auto simp: echo_round_def split: poll.splits option.splits sum.splits)
    ultimately show ?thesis by simp
  qed
next
  case (Awaits_Send item)
  have "sendable m" if "item = Some m" for m
  proof -
    from s Awaits_Send that obtain log es where log: "reading_session E s0 log s" "es @ [m] = filter to_echo (messages_of log)"
      by (auto simp: echoes_def)
    then have "m \<in> set (filter to_echo (messages_of log))" by (metis in_set_conv_decomp)
    then show ?thesis using ok [OF log(1)] by simp
  qed
  moreover from assms(3) Awaits_Send obtain r item' where r: "send_poll E w item s = Some (r, item', s')"
    by (auto simp: echo_round_def split: option.splits poll.splits sum.splits)
  ultimately have sent: "echoes E s0 (send_failed r) (Awaits_Send item') s'" "r = Ready (Inr ()) \<longrightarrow> item' = None"
    using send_poll_echoes [OF s [unfolded Awaits_Send]] by blast+
  have next': "echoes E s0 b (Awaits_Send None) s' = echoes E s0 b Awaits_Next s'" for b by (simp add: echoes_def)
  show ?thesis
  proof (cases r)
    case Pending
    then show ?thesis using sent assms(3) Awaits_Send r by (auto simp: echo_round_def)
  next
    case (Ready y)
    then show ?thesis using sent assms(3) Awaits_Send r next' by (cases y) (auto simp: echo_round_def)
  qed
qed

lemma echo_poll_echoes:
  assumes ok: "\<And>log t m. reading_session E s0 log t \<Longrightarrow> m \<in> set (messages_of log) \<Longrightarrow> to_echo m \<Longrightarrow> sendable m"
    and "echoes E s0 False a s" and "echo_poll E w a s = Some (r, a', s')"
  shows "echoes E s0 (send_failed r) a' s'"
proof -
  let ?P = "\<lambda>E' w' a s y. E' = E \<longrightarrow> w' = w \<longrightarrow> echoes E s0 False a s \<longrightarrow> (case y of (r, a', s') \<Rightarrow> echoes E s0 (send_failed r) a' s')"
  have "?P E w a s (r, a', s')"
  proof (rule echo_poll.raw_induct [where P = ?P, OF _ assms(3)], intro impI)
    fix loop :: "('a, 'b) env \<Rightarrow> waker \<Rightarrow> await \<Rightarrow> ('a, 'b) websocket_stream
      \<Rightarrow> ((error + unit) poll \<times> await \<times> ('a, 'b) websocket_stream) option" and E' w' a s y
    assume IH: "\<And>E' w' a s y. loop E' w' a s = Some y \<Longrightarrow> ?P E' w' a s y"
      and step: "(case echo_round E' w' a s of
        None \<Rightarrow> None
      | Some (Some r, a1, s1) \<Rightarrow> Some (r, a1, s1)
      | Some (None, a1, s1) \<Rightarrow> loop E' w' a1 s1) = Some y"
      and eqs: "E' = E" "w' = w" and s: "echoes E s0 False a s"
    from step obtain x a1 s1 where x: "echo_round E w a s = Some (x, a1, s1)" unfolding eqs by (auto split: option.splits)
    note round = echo_round_echoes [OF ok s x]
    show "case y of (r, a', s') \<Rightarrow> echoes E s0 (send_failed r) a' s'"
    proof (cases x)
      case None
      with step x have "loop E w a1 s1 = Some y" unfolding eqs by simp
      from IH [OF this] round None show ?thesis by simp
    next
      case (Some r)
      then show ?thesis using step x round unfolding eqs by (auto simp: send_failed_def)
    qed
  qed
  then show ?thesis using assms(2) by simp
qed

lemma echo_run_echoes:
  assumes "echo_run E s0 r a s"
    and ok: "\<And>log t m. reading_session E s0 log t \<Longrightarrow> m \<in> set (messages_of log) \<Longrightarrow> to_echo m \<Longrightarrow> sendable m"
  shows "echoes E s0 (send_failed r) a s"
  using assms(1)
proof (induction rule: echo_run.induct)
  case echo_start
  have "messages_of [] = []" by simp
  then show ?case unfolding echoes_def using reading_start session_start by (metis append_Nil filter.simps(1) held_simps(3) prefix_order.refl)
next
  case (echo_polled a s w r a' s')
  then show ?case using echo_poll_echoes [OF ok] by simp
qed

lemma session_all_sendable: "session E s0 ms s \<Longrightarrow> \<forall>m \<in> set ms. sendable m"
  by (induction rule: session.induct) auto

lemma sendable_received: "sendable m \<Longrightarrow> sendable (received m)"
  by (auto simp: sendable_def received_def message_new_def frame_from_message_def)

lemma received_simps [simp]: "received (received m) = received m" "data (m_payload (received m)) = data (m_payload m)"
  by (simp_all add: received_def message_new_def)

text \<open>The messages read from a peer of this library, of those that are sent back.\<close>

lemma in_order_to_echo:
  assumes "in_order D written s0 ms s log" and "\<forall>m \<in> set ms. sendable m"
  shows "prefix (filter to_echo (messages_of log)) (map received (filter to_echo ms))"
    and "m \<in> set (messages_of log) \<Longrightarrow> to_echo m \<Longrightarrow> sendable m"
proof -
  from assms(1) obtain qs where qs: "transmits D written s0 ms s qs" "prefix (messages_of log) (map received qs)"
    by (auto simp: in_order_def)
  have "filter to_echo qs = filter to_echo ms"
    using with_replies_filter [of ms qs to_echo] qs(1) to_echo_initiated by (simp add: transmits_def)
  then show pre: "prefix (filter to_echo (messages_of log)) (map received (filter to_echo ms))"
    using prefix_filter [OF qs(2), of to_echo] by (simp add: filter_received)
  show "sendable m" if "m \<in> set (messages_of log)" "to_echo m"
  proof -
    have "m \<in> set (filter to_echo (messages_of log))" using that by simp
    then have "m \<in> set (map received (filter to_echo ms))" using set_mono_prefix [OF pre] by blast
    then show ?thesis using assms(2) sendable_received by auto
  qed
qed

context finite_transport
begin

lemma echo_run_inv:
  assumes "echo_run E s0 r a s" and "ws_inv s0" and "frame_size (config s0) \<noteq> 0"
  shows "ws_inv s \<and> frame_size (config s) \<noteq> 0"
  using assms(1)
proof (induction rule: echo_run.induct)
  case (echo_polled a s w r a' s')
  with echo_poll_ends [of s w a] show ?case by auto
qed (use assms(2,3) in simp)

end

subsection \<open>A client of an echo server\<close>

text \<open>The end that runs the task: what it has sent back, if the other end is used in any way.\<close>

lemma echoing_end:
  assumes "byte_transport V B view D" and "byte_transport U A seen E" and "usable c l" and "usable d k" and "q \<noteq> r"
    and "session D (after_handshake i f rb r c l) ms s" and "echo_run E (after_handshake j g rb' q d k) x a t"
    and "\<forall>m \<in> set ms. length (data (m_payload m)) \<le> max_payload_len k"
    and "fst (view i) @ rb' @ snd (seen j) @ later = outgoing (\<lambda>i. fst (view i)) s"
  shows "\<exists>es. session E (after_handshake j g rb' q d k) es t \<and> prefix es (map received (filter to_echo ms))"
proof -
  have read: "in_order D (\<lambda>i. fst (view i)) (after_handshake i f rb r c l) ms s log" if "reading_session E (after_handshake j g rb' q d k) log u" for log u
    by (rule in_order_after_handshake [OF assms(1-6) that assms(8,9)])
  note sendable = session_all_sendable [OF assms(6)]
  have "echoes E (after_handshake j g rb' q d k) (send_failed x) a t"
    by (rule echo_run_echoes [OF assms(7)]) (rule in_order_to_echo(2) [OF read sendable])
  then obtain log es where log: "reading_session E (after_handshake j g rb' q d k) log t" "session E (after_handshake j g rb' q d k) es t"
    "prefix (es @ awaited a) (filter to_echo (messages_of log))" by (auto simp: echoes_def)
  have "prefix es (map received (filter to_echo ms))"
    using in_order_to_echo(1) [OF read [OF log(1)] sendable] log(3) by (meson append_prefixD prefix_order.trans)
  with log(2) show ?thesis by blast
qed

lemma server_echoes:
  assumes "accept H K Ns sb st = Some (Inr (rq, wss))" and "connect_on H' K' Nc key cb ct = Some (Inr (wsc, rs))"
    and "byte_transport V B view D" and "byte_transport U A seen E"
    and "usable (cb_config cb) (cb_limits cb)" and "usable (sb_config sb) (sb_limits sb)"
    and "session D wsc ms s" and "echo_run E wss r a t"
    and "\<forall>m \<in> set ms. length (data (m_payload m)) \<le> max_payload_len (sb_limits sb)"
    and "fst (view (io (inner wsc))) @ buffer (inner wss) @ snd (seen (io (inner wss))) @ later = outgoing (\<lambda>i. fst (view i)) s"
  shows "\<exists>es. session E wss es t \<and> prefix es (map received (filter to_echo ms))"
proof -
  obtain j g rb' where wss: "wss = after_handshake j g rb' Server (sb_config sb) (sb_limits sb)"
    and j: "io (inner wss) = j" "buffer (inner wss) = rb'" using after_handshake_streams(1) [OF assms(1)] by blast
  obtain i f rb where wsc: "wsc = after_handshake i f rb Client (cb_config cb) (cb_limits cb)"
    and i: "io (inner wsc) = i" "buffer (inner wsc) = rb" using after_handshake_streams(2) [OF assms(2)] by blast
  show ?thesis unfolding wss
    by (rule echoing_end [OF assms(3-6) _ assms(7) [unfolded wsc] assms(8) [unfolded wss] assms(9), where later = later])
      (use assms(10) in \<open>simp_all add: i j\<close>)
qed


text \<open>Both programs have a usable configuration, and the loop of both runs as \<open>echo_run\<close>.\<close>

lemma echo_builders_usable:
  "usable (sb_config (autobahn_builder H)) (sb_limits (autobahn_builder H))"
  "\<exists>b. echo_builder H = Some b \<and> usable (sb_config b) (sb_limits b)"
  by (simp_all add: usable_def autobahn_builder_def echo_builder_def server_limits_def server_config_def server_new_def
      limits_unlimited_def config_default_def config_frame_size_def)

lemma handle_connection_runs:
  "handle_connection H K N st = Some (Inr (a, ws)) \<longleftrightarrow> a = Awaits_Next \<and> (\<exists>rq. accept H K N (autobahn_builder H) st = Some (Inr (rq, ws)))"
  by (auto simp: handle_connection_def split: option.splits sum.splits)

lemma echo_server_pending:
  "echo_server_poll E w a s = Some (Pending, a1, s1) \<longleftrightarrow> echo_poll E w a s = Some (Pending, a1, s1)"
  by (auto simp: echo_server_poll_def split: option.splits poll.splits sum.splits await.splits)

subsection \<open>An echo in memory\<close>


end
