(* ===== verification/Benchmark_Client.thy ===== *)
theory Benchmark_Client
  imports Stream_Reading Http_Endpoints
begin

text \<open>
  The client of the UTF-8 benchmark, \<open>examples/utf8_benchmark_client.rs\<close>, has an encoder of its own, so that it
  measures the server only. The theory models it, and shows that it gives what the library's own client would send
  with a key of zeros, and that the benchmark's server takes it as one message, however the client chops it.
\<close>

subsection \<open>The encoder\<close>

definition zero_mask :: bytes where
  "zero_mask = [0, 0, 0, 0]"

text \<open>The elements of \<open>slice::chunks\<close>, for a size that is not zero.\<close>

function chunk_list :: "usize \<Rightarrow> bytes \<Rightarrow> bytes list" where
  "chunk_list n xs = (if n = 0 \<or> xs = [] then [] else take n xs # chunk_list n (drop n xs))"
  by pat_completeness auto
termination by (relation "measure (\<lambda>(n, xs). length xs)") auto

declare chunk_list.simps [simp del]

text \<open>
  The body of the loop: the bytes that it puts for a chunk. The number of the chunk is an \<open>i32\<close>, which wraps
  in a release build (and panics in others, for $2^{31}$ frames).
\<close>

definition put_chunk :: "bool \<Rightarrow> 32 word \<Rightarrow> bytes \<Rightarrow> bytes" where
  "put_chunk is_final chunk_number piece =
     (let opcode_value = if chunk_number = 0 then 1 else 0;
          chunk_size = length piece
      in [push_bit 7 (of_bool is_final) + opcode_value]
         @ (if chunk_size > 65535 then [255] @ to_be_bytes 8 (of_nat chunk_size :: u64)
            else if chunk_size > 125 then [254] @ to_be_bytes 2 (of_nat chunk_size :: u16)
            else [of_nat chunk_size + 128])
         @ zero_mask @ piece)"

text \<open>The loop, with the chunk at hand and those to come.\<close>

fun encode_chunks :: "bytes \<Rightarrow> bytes list \<Rightarrow> 32 word \<Rightarrow> bytes \<Rightarrow> bytes" where
  "encode_chunks piece [] chunk_number dst = dst @ put_chunk True chunk_number piece"
| "encode_chunks piece (next_piece # pieces) chunk_number dst =
     encode_chunks next_piece pieces (chunk_number + 1) (dst @ put_chunk False chunk_number piece)"

text \<open>\<open>None\<close> is the panic of \<open>chunks(0)\<close>.\<close>

definition encode_message :: "bytes \<Rightarrow> usize \<Rightarrow> bytes option" where
  "encode_message payload_bytes fs =
     (if fs = 0 then None
      else Some (case chunk_list fs payload_bytes of
          [] \<Rightarrow> encode_chunks [] [] 0 []
        | piece # pieces \<Rightarrow> encode_chunks piece pieces 0 []))"

subsection \<open>Its frames\<close>

text \<open>A text frame or a continuation of the library, masked with zeros.\<close>

lemma mask_bytes_zero: "mask_bytes zero_mask xs = xs"
proof (rule nth_equalityI)
  have "zero_mask = replicate 4 0" by (simp add: zero_mask_def numeral_eq_Suc)
  then have "zero_mask ! (i mod 4) = 0" for i by (metis mod_less_divisor nth_replicate zero_less_numeral)
  then show "mask_bytes zero_mask xs ! i = xs ! i" if "i < length (mask_bytes zero_mask xs)" for i
    using that by (simp add: nth_mask_bytes)
qed simp

lemma put_chunk_wire:
  "put_chunk fi k piece = wire_frame zero_mask \<lparr>f_is_final = fi, f_opcode = (if k = 0 then Text else Continuation), f_payload = piece\<rparr>"
proof -
  have bit: "push_bit 7 (of_bool fi) + (v :: byte) = push_bit 7 (of_bool fi) OR v" if "v \<in> {0, 1}" for v
    using that by (cases fi) auto
  have len: "of_nat n + (128 :: byte) = 128 OR of_nat n" if "n \<le> 125" for n :: nat
  proof -
    have "\<forall>n \<in> set [0..<126]. of_nat n + (128 :: byte) = 128 OR of_nat n" by code_simp
    then show ?thesis using that by simp
  qed
  show ?thesis
    using len [of "length piece"] bit [of 0] bit [of 1]
    by (auto simp: put_chunk_def wire_frame_def wire_head_def len7_def ext_len_def mask_if_def mask_bytes_zero Let_def)
      (simp_all add: zero_mask_def)
qed

lemma frames_of_short: "length bs \<le> n \<Longrightarrow> frames_of n op bs = [\<lparr>f_is_final = True, f_opcode = op, f_payload = bs\<rparr>]"
  by (subst frames_of.simps) simp

lemma wire_frames_zero: "wire_frames (\<lambda>_. zero_mask) Client k frs = concat (map (wire_frame zero_mask) frs)"
  by (induction frs arbitrary: k) simp_all

lemma encode_chunks_wire:
  assumes "0 < n" and "i + (length bs - 1) div n < 2 ^ 32" and "bs \<noteq> []"
  shows "encode_chunks (take n bs) (chunk_list n (drop n bs)) (of_nat i) dst
    = dst @ wire_frames (\<lambda>_. zero_mask) Client 0 (frames_of n (if i = 0 then Text else Continuation) bs)"
  using assms
proof (induction "length bs" arbitrary: bs i dst rule: less_induct)
  case less
  have first: "(of_nat i :: 32 word) = 0 \<longleftrightarrow> i = 0"
  proof -
    have "i < 2 ^ 32" using less.prems(2) by linarith
    then show ?thesis by (auto simp: word_of_nat_eq_0_iff dest: nat_dvd_not_less)
  qed
  show ?case
  proof (cases "length bs \<le> n")
    case True
    then show ?thesis
      by (simp add: frames_of_short chunk_list.simps put_chunk_wire first)
  next
    case False
    let ?tl = "drop n bs"
    have chunks: "chunk_list n ?tl = take n ?tl # chunk_list n (drop n ?tl)"
      using False less.prems(1) by (subst chunk_list.simps) simp
    have "(length bs - 1) div n = Suc ((length ?tl - 1) div n)"
      using False less.prems(1) div_add_self2 [of n "length bs - 1 - n"] by simp
    then have "Suc i + (length ?tl - 1) div n < 2 ^ 32" using less.prems(2) by linarith
    from less.hyps [OF _ less.prems(1) this] False less.prems(1)
    have "encode_chunks (take n ?tl) (chunk_list n (drop n ?tl)) (of_nat i + 1) (dst @ put_chunk False (of_nat i) (take n bs))
      = dst @ put_chunk False (of_nat i) (take n bs) @ wire_frames (\<lambda>_. zero_mask) Client 0 (frames_of n Continuation ?tl)"
      by (simp add: add.commute)
    then show ?thesis
      using False less.prems(1) by (subst frames_of.simps) (simp add: chunks put_chunk_wire first wire_frames_zero)
  qed
qed

lemma encode_message_wire:
  assumes "0 < n" and "(length bs - 1) div n < 2 ^ 32"
  shows "encode_message bs n = Some (wire_frames (\<lambda>_. zero_mask) Client 0 (frames_of n Text bs))"
proof (cases "bs = []")
  case True
  then show ?thesis using assms(1) by (simp add: encode_message_def chunk_list.simps frames_of_short put_chunk_wire)
next
  case False
  then have "chunk_list n bs = take n bs # chunk_list n (drop n bs)" using assms(1) by (subst chunk_list.simps) simp
  then show ?thesis using encode_chunks_wire [of n 0 bs "[]"] assms False by (simp add: encode_message_def)
qed

subsection \<open>The messages that the server gets\<close>

text \<open>The stream of \<open>examples/utf8_benchmark_server.rs\<close>, and \<open>k\<close> calls of \<open>next\<close> that each give a message.\<close>

definition benchmark_server :: "'h http_lib \<Rightarrow> 'io \<Rightarrow> 'f \<Rightarrow> ('io, 'f) websocket_stream" where
  "benchmark_server H stream f = serve (server_limits (server_new H) limits_unlimited) stream f"

fun next_messages :: "('io, 'f) env \<Rightarrow> waker \<Rightarrow> nat \<Rightarrow> ('io, 'f) websocket_stream \<Rightarrow> message list option" where
  "next_messages E w 0 t = Some []"
| "next_messages E w (Suc k) t =
     (case poll_next E w t of
        Some (Ready (Some (Inr m)), t1) \<Rightarrow> map_option (Cons m) (next_messages E w k t1)
      | _ \<Rightarrow> None)"

lemma next_messages_encoded:
  assumes "simdutf8_lib U" and "0 < n" and "valid_utf8 bs" and "length bs < 2 ^ 64"
    and "listening t Continuation []" and "role (decoder (inner t)) = Server" and "limits (decoder (inner t)) = limits_unlimited"
    and "unread (inner t) = concat (replicate k (wire_frames (\<lambda>_. zero_mask) Client 0 (frames_of n Text bs))) @ rest"
  shows "next_messages (duplex_env U pf keys) w k t = Some (replicate k (message_new Text bs))"
  using assms(5-)
proof (induction k arbitrary: t)
  case (Suc k)
  let ?enc = "wire_frames (\<lambda>_. zero_mask) Client 0 (frames_of n Text bs)"
  have "unread (inner t) = ?enc @ concat (replicate k ?enc) @ rest" using Suc.prems(4) by simp
  then have "\<exists>t'. poll_next_loop (duplex_env U pf keys) w usize_MAX t = Some (Ready (Some (Inr (message_new Text ([] @ bs)))), t')
    \<and> unread (inner t') = concat (replicate k ?enc) @ rest \<and> listening t' Continuation []
    \<and> limits (decoder (inner t')) = limits (decoder (inner t)) \<and> role (decoder (inner t')) = role (decoder (inner t))
    \<and> state t' = state t \<and> eases t t'"
    by (intro poll_next_loop_frames [where ks = "\<lambda>_. zero_mask" and r = Client and k = 0 and n = n and op' = Continuation])
      (use assms(1-4) Suc.prems in \<open>simp_all add: limits_unlimited_def zero_mask_def\<close>)
  then obtain t' where "poll_next (duplex_env U pf keys) w t = Some (Ready (Some (Inr (message_new Text bs))), t')"
    "unread (inner t') = concat (replicate k ?enc) @ rest" "listening t' Continuation []"
    "limits (decoder (inner t')) = limits_unlimited" "role (decoder (inner t')) = Server"
    using Suc.prems by (auto simp: poll_next_def limits_unlimited_def)
  with Suc.IH [of t'] show ?case by simp
qed simp

text \<open>
  C40: The benchmark measures what it means to. Its own encoder gives the frames that a client of the library sends for a
  text message with the same frame size, masked with zeros; and the server, to which the client
  sends this message again and again, each time in chops of any size, returns the text message as
  often from \<open>next\<close>.
\<close>

theorem benchmark_messages_arrive:
  assumes "simdutf8_lib U" and "0 < n" and "valid_utf8 bs" and "length bs < 2 ^ 64" and "(length bs - 1) div n < 2 ^ 31"
    and "0 \<notin> set writes" and "concat chops = concat (replicate k enc) @ rest"
    and "enc = concat (map (wire_frame [0, 0, 0, 0]) (frames_of n Text bs))"
  shows "encode_message bs n = Some enc
    \<and> next_messages (duplex_env U pf keys) w k (benchmark_server H \<lparr>incoming = chops, eof = at_end, room = writes, sent = []\<rparr> ())
      = Some (replicate k (message_new Text bs))"
proof
  have enc: "enc = wire_frames (\<lambda>_. zero_mask) Client 0 (frames_of n Text bs)"
    by (simp add: assms(8) wire_frames_zero) (simp add: zero_mask_def)
  have "(length bs - 1) div n < 2 ^ 32" using assms(5) by (rule less_trans) simp
  from encode_message_wire [OF assms(2) this] show "encode_message bs n = Some enc" unfolding enc .
  let ?t = "benchmark_server H \<lparr>incoming = chops, eof = at_end, room = writes, sent = []\<rparr> ()"
  have t: "listening ?t Continuation []" "role (decoder (inner ?t)) = Server" "limits (decoder (inner ?t)) = limits_unlimited"
    "unread (inner ?t) = concat chops"
    using assms(6) by (simp_all add: benchmark_server_def serve_def server_limits_def listening_new)
      (simp_all add: from_raw_stream_def protocol_new_def unread_def)
  show "next_messages (duplex_env U pf keys) w k ?t = Some (replicate k (message_new Text bs))"
    by (rule next_messages_encoded [OF assms(1-4) t(1-3)]) (use t(4) assms(7) enc in simp)
qed

text \<open>Two messages of five bytes in frames of two, in three chops.\<close>

definition sample_text :: bytes where
  "sample_text = [0x61, 0x62, 0x63, 0x64, 0x2B]"

definition sample_encoding :: bytes where
  "sample_encoding =
     [0x01, 0x82, 0, 0, 0, 0, 0x61, 0x62, 0x00, 0x82, 0, 0, 0, 0, 0x63, 0x64, 0x80, 0x81, 0, 0, 0, 0, 0x2B]"

theorem benchmark_messages_arrive_witness:
  "encode_message sample_text 2 = Some sample_encoding
   \<and> (\<forall>H :: unit http_lib. next_messages (duplex_env std_utf8 scalar_platform (\<lambda>_. [])) 0 2 (benchmark_server H
       \<lparr>incoming = [take 9 sample_encoding, drop 9 sample_encoding @ [0x01], drop 1 sample_encoding],
         eof = True, room = [], sent = []\<rparr> ()) = Some [message_new Text sample_text, message_new Text sample_text])"
proof -
  let ?enc = "concat (map (wire_frame [0, 0, 0, 0]) (frames_of 2 Text sample_text))"
  have frames: "frames_of 2 Text sample_text = [\<lparr>f_is_final = False, f_opcode = Text, f_payload = [0x61, 0x62]\<rparr>,
      \<lparr>f_is_final = False, f_opcode = Continuation, f_payload = [0x63, 0x64]\<rparr>,
      \<lparr>f_is_final = True, f_opcode = Continuation, f_payload = [0x2B]\<rparr>]"
    by (simp add: sample_text_def frames_of.simps)
  have enc: "?enc = sample_encoding"
    by (simp add: frames sample_encoding_def wire_frame_def wire_head_def len7_def ext_len_def mask_if_def
        mask_bytes_zero [unfolded zero_mask_def])
  have chops: "concat [take 9 sample_encoding, drop 9 sample_encoding @ [0x01], drop 1 sample_encoding] = concat (replicate 2 ?enc) @ []"
    unfolding enc by (simp add: sample_encoding_def numeral_eq_Suc)
  have sample: "0 < (2 :: nat)" "valid_utf8 sample_text" "length sample_text < 2 ^ 64" "(length sample_text - 1) div 2 < 2 ^ 31" "0 \<notin> set []"
    by (simp_all add: sample_text_def valid_utf8_def)
  have two: "replicate 2 x = [x, x]" for x :: message by (simp add: numeral_2_eq_2)
  show ?thesis
    using benchmark_messages_arrive [OF std.simdutf8_lib_axioms sample chops refl] unfolding enc two by blast
qed

end
