(* ===== verification/Example_Server.thy ===== *)
theory Example_Server
  imports Echo Close_Handshake Benchmark_Client Backpressure
begin

text \<open>
  The servers of \<open>examples/server.rs\<close> and \<open>examples/utf8_benchmark_server.rs\<close>. They send back every message
  that \<open>next\<close> gives, a close message too, and end with the first error of a connection. The theory runs the
  loop and the program around it, and shows that every poll returns, and that the server for one client after
  the other does not survive the first of them that closes its connection properly.
\<close>

subsection \<open>The loop\<close>

text \<open>
  From one \<open>await\<close> to the next, as \<open>echo_round\<close>; sending is the same, but every message is sent back, and an
  error of \<open>next\<close> ends the loop as the end of the stream does.
\<close>

definition relay_round ::
  "('io, 'f) env \<Rightarrow> waker \<Rightarrow> await \<Rightarrow> ('io, 'f) websocket_stream
     \<Rightarrow> ((error + unit) poll option \<times> await \<times> ('io, 'f) websocket_stream) option" where
  "relay_round E w a s =
     (case a of
        Awaits_Next \<Rightarrow>
          (case poll_next E w s of
             None \<Rightarrow> None
           | Some (Pending, s1) \<Rightarrow> Some (Some Pending, Awaits_Next, s1)
           | Some (Ready (Some (Inr item)), s1) \<Rightarrow> Some (None, Awaits_Send (Some item), s1)
           | Some (Ready _, s1) \<Rightarrow> Some (Some (Ready (Inr ())), Awaits_Next, s1))
      | Awaits_Send item \<Rightarrow>
          (case send_poll E w item s of
             None \<Rightarrow> None
           | Some (Pending, item1, s1) \<Rightarrow> Some (Some Pending, Awaits_Send item1, s1)
           | Some (Ready (Inl e), item1, s1) \<Rightarrow> Some (Some (Ready (Inl e)), Awaits_Send item1, s1)
           | Some (Ready (Inr _), _, s1) \<Rightarrow> Some (None, Awaits_Next, s1)))"

partial_function (option) relay_poll ::
  "('io, 'f) env \<Rightarrow> waker \<Rightarrow> await \<Rightarrow> ('io, 'f) websocket_stream
     \<Rightarrow> ((error + unit) poll \<times> await \<times> ('io, 'f) websocket_stream) option" where
  "relay_poll E w a s =
     (case relay_round E w a s of
        None \<Rightarrow> None
      | Some (Some r, a1, s1) \<Rightarrow> Some (r, a1, s1)
      | Some (None, a1, s1) \<Rightarrow> relay_poll E w a1 s1)"

lemma relay_send: "relay_round E w (Awaits_Send item) s = echo_round E w (Awaits_Send item) s"
  by (simp add: relay_round_def echo_round_def)

text \<open>The benchmark's server ends with what the loop ends with.\<close>

definition benchmark_main_poll ::
  "('io, 'f) env \<Rightarrow> waker \<Rightarrow> await \<Rightarrow> ('io, 'f) websocket_stream
     \<Rightarrow> ((error + unit) poll \<times> await \<times> ('io, 'f) websocket_stream) option" where
  "benchmark_main_poll E w a ws = relay_poll E w a ws"

subsection \<open>One client after the other\<close>

text \<open>
  What \<open>main\<close> is doing, and what happens next: the listener gives a connection or an error, or the task is
  polled. \<open>main\<close> returns with an error only. A connection waits until \<open>main\<close> listens again, and a step that
  panics gives \<open>None\<close>.
\<close>

datatype ('io, 'f) server_main = Listening | Serving await "('io, 'f) websocket_stream" | Stopped error

datatype 'io server_event = Incoming "io_error + 'io" | Polled waker

definition server_main_step ::
  "'h http_lib \<Rightarrow> crypto \<Rightarrow> ('io, 'f, 'h) net \<Rightarrow> ('io, 'f) env \<Rightarrow> 'io server_event \<Rightarrow> ('io, 'f) server_main
     \<Rightarrow> ('io, 'f) server_main option" where
  "server_main_step H K N E ev m =
     (case (m, ev) of
        (Listening, Incoming (Inl e)) \<Rightarrow> Some (Stopped (Io e))
      | (Listening, Incoming (Inr conn)) \<Rightarrow>
          (case accept H K N (server_new H) conn of
             None \<Rightarrow> None
           | Some (Inl (e, _)) \<Rightarrow> Some (Stopped e)
           | Some (Inr (_, server)) \<Rightarrow> Some (Serving Awaits_Next server))
      | (Serving a server, Polled w) \<Rightarrow>
          (case relay_poll E w a server of
             None \<Rightarrow> None
           | Some (Pending, a1, s1) \<Rightarrow> Some (Serving a1 s1)
           | Some (Ready (Inr _), _, _) \<Rightarrow> Some Listening
           | Some (Ready (Inl e), _, _) \<Rightarrow> Some (Stopped e))
      | _ \<Rightarrow> Some m)"

fun server_main_run ::
  "'h http_lib \<Rightarrow> crypto \<Rightarrow> ('io, 'f, 'h) net \<Rightarrow> ('io, 'f) env \<Rightarrow> 'io server_event list \<Rightarrow> ('io, 'f) server_main
     \<Rightarrow> ('io, 'f) server_main option" where
  "server_main_run H K N E [] m = Some m"
| "server_main_run H K N E (ev # evs) m =
     (case server_main_step H K N E ev m of
        None \<Rightarrow> None
      | Some m1 \<Rightarrow> server_main_run H K N E evs m1)"

lemma stopped_stays: "server_main_run H K N E evs (Stopped e) = Some (Stopped e)"
  by (induction evs) (simp_all add: server_main_step_def split: server_event.split)

subsection \<open>Every poll returns\<close>

context finite_transport
begin

lemma relay_round_progress:
  assumes "ws_inv s" and "frame_size (config s) \<noteq> 0"
  shows "\<exists>x a' s'. relay_round E w a s = Some (x, a', s') \<and> ws_inv s' \<and> config s' = config s \<and>
    (x = None \<longrightarrow> ((rank (state s'), to_decode available s', await_rank a'), (rank (state s), to_decode available s, await_rank a))
       \<in> less_than <*lex*> less_than <*lex*> less_than)"
proof (cases a)
  case Awaits_Next
  from poll_next_uses [OF assms(1), of w] obtain r s' where
    r: "poll_next E w s = Some (r, s')" "ws_inv s'" "\<forall>x. r = Ready (Some x) \<longrightarrow> closer s' s" by blast
  moreover from poll_next_loop_sends [OF r(1) [unfolded poll_next_def] assms(1)] have "config s' = config s"
    by (auto simp: sends_def)
  ultimately show ?thesis
    using Awaits_Next by (auto simp: relay_round_def closer_def split: poll.split option.split sum.split)
next
  case (Awaits_Send item)
  then show ?thesis using echo_round_progress [OF assms, of w a] by (simp add: relay_send)
qed

lemma relay_poll_ends:
  assumes "ws_inv s" and "frame_size (config s) \<noteq> 0"
  shows "\<exists>r a' s'. relay_poll E w a s = Some (r, a', s') \<and> ws_inv s' \<and> config s' = config s"
  using assms
proof (induction "(rank (state s), to_decode available s, await_rank a)" arbitrary: s a rule: wf_induct_rule
    [OF wf_lex_prod [OF wf_less_than wf_lex_prod [OF wf_less_than wf_less_than]]])
  case 1
  from relay_round_progress [OF 1(2,3), of w a] obtain x a1 s1 where
    x: "relay_round E w a s = Some (x, a1, s1)" "ws_inv s1" "config s1 = config s"
    and less: "x = None \<longrightarrow> ((rank (state s1), to_decode available s1, await_rank a1),
      (rank (state s), to_decode available s, await_rank a)) \<in> less_than <*lex*> less_than <*lex*> less_than" by blast
  show ?case
  proof (cases x)
    case None
    with less x 1(3) 1(1) [of s1 a1] show ?thesis by (subst relay_poll.simps) simp
  next
    case (Some r)
    with x show ?thesis by (subst relay_poll.simps) simp
  qed
qed

end

subsection \<open>A client that closes its connection\<close>

text \<open>The close frame is read, and its answer is queued.\<close>

lemma close_message_read:
  assumes U: "simdutf8_lib U" and keys: "\<And>k. length (keys k) = 4"
    and t: "listening t Continuation []" "state t = Active" "contents (frame_queue t) = []"
    and bytes: "unread (inner t) = wire_frame key fr @ rest" "key_for (role (decoder (inner t))) key"
    and fr: "legal_control fr" "f_opcode fr = Close" and max: "125 \<le> max_payload_len (limits (decoder (inner t)))"
  shows "\<exists>t' key'. poll_next (duplex_env U pf keys) w t = Some (Ready (Some (Inr (message_new Close (f_payload fr)))), t')
    \<and> state t' = ClosedByPeer \<and> fq_inv (frame_queue t')
    \<and> contents (frame_queue t') = wire_frame key' (fr\<lparr>f_payload := take 2 (f_payload fr)\<rparr>)
    \<and> length key' \<le> 4 \<and> sent (io (inner t')) = sent (io (inner t))"
proof -
  let ?E = "duplex_env U pf keys" and ?answer = "fr\<lparr>f_payload := take 2 (f_payload fr)\<rparr>"
  have tr: "transport U ?E sent" using keys by (rule duplex_transport [OF U])
  have ops: "f_is_final fr" "length (f_payload fr) \<le> 125" "legal_close (f_payload fr)" "\<not> text_frame (decoder (inner t)) fr"
    using fr by (auto simp: legal_control_def text_frame_def)
  have legal: "legal_head (decoder (inner t)) (f_is_final fr) (f_opcode fr) (length (f_payload fr))"
    "legal_payload (decoder (inner t)) fr"
    using ops max fr(2) legal_close_length [of "f_payload fr"] by (auto simp: legal_head_def legal_payload_def)
  have empty: "\<not> has_remaining (frame_queue t)" using t(1,3) has_remaining_iff by (auto simp: listening_def)
  from read_sent_frame [OF U t(1) bytes legal, of pf keys w] empty obtain t1 where
    t1: "poll_next_frame ?E w t = Some (Ready (Some (Inr fr)), on_frame ?E t1 fr)" "frame_queue t1 = frame_queue t"
    "state t1 = state t" "eases t t1" by blast
  let ?u = "t1\<lparr>state := ClosedByPeer\<rparr>"
  have on: "on_frame ?E t1 fr = queue_frame ?E ?u ?answer" using t1(3) t(2) fr(2) by (simp add: on_frame_def)
  from transport.queue_frame_eq [OF tr, of ?u ?answer] fr(2) obtain ef md where
    ef: "on_frame ?E t1 fr = t1\<lparr>state := ClosedByPeer, frame_queue := push (frame_queue t1) ef, masks_drawn := md\<rparr>"
      "length (header ef) = 14" "frame_bytes ef = wire_frame (next_key ?E ?u) ?answer" unfolding on by fastforce
  have "assemble m (on_frame ?E t1 fr) fr = Inl (Inr (message_new Close (f_payload fr)), on_frame ?E t1 fr)" for m
    using ops(1) fr(2) by (simp add: assemble_def)
  then have "poll_next ?E w t = Some (Ready (Some (Inr (message_new Close (f_payload fr)))), on_frame ?E t1 fr)"
    unfolding poll_next_def by (subst poll_next_loop.simps) (simp add: t1(1))
  moreover have "length (next_key ?E ?u) \<le> 4" using keys by (simp add: next_key_def duplex_env_def)
  moreover have "fq_inv (frame_queue t)" using t(1) by (simp add: listening_def)
  moreover have "sent (io (inner t1)) = sent (io (inner t))" using t1(2,4) t(3) by (simp add: eases_def outgoing_def)
  ultimately show ?thesis
    using ef t1(2) t(3) by (intro exI [of _ "on_frame ?E t1 fr"] exI [of _ "next_key ?E ?u"]) (simp add: push_inv)
qed

lemma short_frame: "length (f_payload fr) \<le> 125 \<Longrightarrow> length (wire_frame key fr) = 2 + length key + length (f_payload fr)"
  by (simp add: wire_frame_def wire_head_def len7_def ext_len_def mask_if_def)

text \<open>
  C27: A client that closes its connection properly stops the example server. The server has read
  everything before the close frame and has nothing to send. It sends the close message back as any other message,
  which \<open>send\<close> refuses, since the stream is closed; \<open>main\<close> returns with this error, \<open>AlreadyClosed\<close>, and serves nobody
  any more. The answer to the close frame, which the stream has queued, is never written.
\<close>

theorem example_server_stops_at_close:
  assumes "simdutf8_lib U" and "\<And>k. length (keys k) = 4"
    and "listening t Continuation []" and "state t = Active" and "contents (frame_queue t) = []"
    and "unread (inner t) = wire_frame key fr @ rest" and "key_for (role (decoder (inner t))) key"
    and "legal_control fr" and "f_opcode fr = Close" and "125 \<le> max_payload_len (limits (decoder (inner t)))"
    and "ws_inv t" and "8 < flush_threshold (config t)" and "E = duplex_env U pf keys"
  shows "server_main_run H K N E (Polled w # events) (Serving Awaits_Next t) = Some (Stopped AlreadyClosed)
    \<and> (\<exists>t' key'. relay_poll E w Awaits_Next t = Some (Ready (Inl AlreadyClosed), Awaits_Send None, t')
         \<and> sent (io (inner t')) = sent (io (inner t))
         \<and> contents (frame_queue t') = wire_frame key' (fr\<lparr>f_payload := take 2 (f_payload fr)\<rparr>))"
proof -
  from close_message_read [where keys = keys and pf = pf and w = w, OF assms(1-10)] obtain t' key' where
    t': "poll_next E w t = Some (Ready (Some (Inr (message_new Close (f_payload fr)))), t')" "state t' = ClosedByPeer"
      "fq_inv (frame_queue t')" "contents (frame_queue t') = wire_frame key' (fr\<lparr>f_payload := take 2 (f_payload fr)\<rparr>)"
      "length key' \<le> 4" "sent (io (inner t')) = sent (io (inner t))"
    unfolding assms(13) by blast
  have "transport U E sent" unfolding assms(13) using assms(2) by (rule duplex_transport [OF assms(1)])
  from poll_next_config [OF this assms(11) t'(1)] have "config t' = config t" .
  moreover have "remaining (frame_queue t') \<le> 8"
    using t'(3-5) fq.rem_eq [of "frame_queue t'"] short_frame [of "fr\<lparr>f_payload := take 2 (f_payload fr)\<rparr>" key'] by simp
  ultimately have "send_poll E w (Some m) t' = Some (Ready (Inl AlreadyClosed), None, t')" for m
    using assms(12) t'(2) by (simp add: send_poll_def poll_ready_def start_send_def)
  then have "relay_poll E w Awaits_Next t = Some (Ready (Inl AlreadyClosed), Awaits_Send None, t')"
    using t'(1) by (subst relay_poll.simps, simp add: relay_round_def, subst relay_poll.simps, simp add: relay_round_def)
  with t' show ?thesis by (simp add: server_main_step_def stopped_stays) blast
qed

text \<open>A client that has shaken hands sends a close frame, in two reads, and a second client connects.\<close>

definition left_server :: "(duplex, unit) websocket_stream" where
  "left_server = serve (server_new plain_http)
     \<lparr>incoming = [[0x88, 0x82, 0, 0, 0, 0, 0x03], [0xE8]], eof = False, room = replicate 8 3, sent = []\<rparr> ()"

theorem example_server_stops_at_close_witness:
  "(\<forall>N conn. server_main_run plain_http rfc_crypto N std_env [Polled 0, Incoming (Inr conn)] (Serving Awaits_Next left_server)
     = Some (Stopped AlreadyClosed))
   \<and> (\<exists>t'. relay_poll std_env 0 Awaits_Next left_server = Some (Ready (Inl AlreadyClosed), Awaits_Send None, t')
        \<and> sent (io (inner t')) = [])"
proof -
  have fields: "role (decoder (inner left_server)) = Server" "state left_server = Active" "sent (io (inner left_server)) = []"
    "limits (decoder (inner left_server)) = limits_default" "contents (frame_queue left_server) = []" "config left_server = config_default"
    by (simp_all add: left_server_def serve_def server_new_def from_raw_stream_def protocol_new_def)
  have inv: "listening left_server Continuation []" "ws_inv left_server"
    by (simp_all add: left_server_def serve_def server_new_def listening_new ws_inv_new(1) limits_default_def)
  have bytes: "unread (inner left_server) = wire_frame [0, 0, 0, 0] DEFAULT_CLOSE @ []"
    by (simp add: left_server_def serve_def from_raw_stream_def unread_def wire_frame_def wire_head_def len7_def ext_len_def mask_if_def close_frame_legal
        mask_bytes_zero [unfolded zero_mask_def]) (use close_frame_legal(1) in \<open>simp add: legal_control_def\<close>)
  from example_server_stops_at_close [OF std.simdutf8_lib_axioms _ inv(1) fields(2,5) bytes _ close_frame_legal(1,2) _ inv(2) _ refl,
      of "\<lambda>_. [0x37, 0xFA, 0x21, 0x3D]" plain_http rfc_crypto _ scalar_platform 0, unfolded fields]
  show ?thesis by (simp add: key_for_def limits_default_def config_default_def) blast
qed

end
