(* ===== verification/Hello_Examples.thy ===== *)
theory Hello_Examples
  imports Example_Server Connecting
begin

text \<open>
  The server of \<open>examples/rustls_server.rs\<close>, which greets each client and closes, and the client of
  \<open>examples/native_tls_self_signed_client.rs\<close>, which reads one message and closes. Both close at once: their close
  frames cross, and both programs end well.
\<close>

subsection \<open>The tasks\<close>

definition hello_text :: bytes where
  "hello_text = ascii ''Hello, world!''"

definition hello_message :: message where
  "hello_message = message_text (payload_from_str hello_text)"

text \<open>The server after the handshake of TLS; then where it waits after \<open>accept\<close>, and a poll of it.\<close>

datatype hello_await = Hello_Send "message option" | Hello_Close

definition hello_close ::
  "('io, 'f) env \<Rightarrow> waker \<Rightarrow> ('io, 'f) websocket_stream
     \<Rightarrow> ((error + unit) poll \<times> hello_await \<times> ('io, 'f) websocket_stream) option" where
  "hello_close E w ws = map_option (\<lambda>(r, s1). (r, Hello_Close, s1)) (poll_close E w ws)"

definition hello_poll ::
  "('io, 'f) env \<Rightarrow> waker \<Rightarrow> hello_await \<Rightarrow> ('io, 'f) websocket_stream
     \<Rightarrow> ((error + unit) poll \<times> hello_await \<times> ('io, 'f) websocket_stream) option" where
  "hello_poll E w a ws =
     (case a of
        Hello_Send item \<Rightarrow>
          (case send_poll E w item ws of
             None \<Rightarrow> None
           | Some (Pending, item1, s1) \<Rightarrow> Some (Pending, Hello_Send item1, s1)
           | Some (Ready (Inl e), item1, s1) \<Rightarrow> Some (Ready (Inl e), Hello_Send item1, s1)
           | Some (Ready (Inr _), _, s1) \<Rightarrow> hello_close E w s1)
      | Hello_Close \<Rightarrow> hello_close E w ws)"

definition hello_start ::
  "'h http_lib \<Rightarrow> crypto \<Rightarrow> ('io, 'f, 'h) net \<Rightarrow> 'io \<Rightarrow> (error + hello_await \<times> ('io, 'f) websocket_stream) option" where
  "hello_start H K N stream =
     (case accept H K N (server_new H) stream of
        None \<Rightarrow> None
      | Some (Inl (e, _)) \<Rightarrow> Some (Inl e)
      | Some (Inr (_, ws)) \<Rightarrow> Some (Inr (Hello_Send (Some hello_message), ws)))"

text \<open>
  The client, with a connector of native-tls that trusts one certificate; and after \<open>connect\<close>. It prints what
  \<open>next\<close> gives, a message or not.
\<close>

definition visit_uri :: uri where
  "visit_uri = \<lparr>uri_scheme_str = Some (ascii ''wss''), uri_host = Some (ascii ''127.0.0.1''), uri_port_u16 = Some 8080,
     uri_path = ascii ''/'', uri_query = None\<rparr>"

datatype visit_await = Visit_Next | Visit_Close "(error + message) option"

definition visit_start ::
  "tls_feature set \<Rightarrow> ('c, 's, 'n, 'r, 'roots, 'cert) tls_lib \<Rightarrow> ('addr, 's) dialer \<Rightarrow> 'h http_lib \<Rightarrow> crypto
     \<Rightarrow> (('s, 'n, 'r) maybe_tls_stream, 'f, 'h) net \<Rightarrow> bytes \<Rightarrow> 'c
     \<Rightarrow> (error + visit_await \<times> (('s, 'n, 'r) maybe_tls_stream, 'f) websocket_stream) option" where
  "visit_start F T D H K N key_bytes connector =
     map_option (map_sum id (\<lambda>(client, _). (Visit_Next, client)))
       (connect F T D H K N key_bytes (client_connector (client_from_uri H visit_uri) (NativeTls_Connector connector)))"

text \<open>The client never talks without TLS.\<close>

lemma visit_encrypted:
  assumes "connect_stream F T D (client_connector (client_from_uri H visit_uri) (NativeTls_Connector connector)) = Inr s"
  shows "\<exists>n. s = NativeTls_Stream n"
proof -
  have "uri_scheme_str visit_uri = Some (ascii ''wss'')" by (simp add: visit_uri_def)
  with assms show ?thesis
    by (auto simp: connect_stream_def and_then_eq_Inr client_connector_def client_from_uri_def Let_def case_error_Inr)
qed

definition visit_close ::
  "('io, 'f) env \<Rightarrow> waker \<Rightarrow> (error + message) option \<Rightarrow> ('io, 'f) websocket_stream
     \<Rightarrow> ((error + unit) poll \<times> visit_await \<times> ('io, 'f) websocket_stream) option" where
  "visit_close E w printed client = map_option (\<lambda>(r, s1). (r, Visit_Close printed, s1)) (poll_close E w client)"

definition visit_poll ::
  "('io, 'f) env \<Rightarrow> waker \<Rightarrow> visit_await \<Rightarrow> ('io, 'f) websocket_stream
     \<Rightarrow> ((error + unit) poll \<times> visit_await \<times> ('io, 'f) websocket_stream) option" where
  "visit_poll E w a client =
     (case a of
        Visit_Next \<Rightarrow>
          (case poll_next E w client of
             None \<Rightarrow> None
           | Some (Pending, s1) \<Rightarrow> Some (Pending, Visit_Next, s1)
           | Some (Ready msg, s1) \<Rightarrow> visit_close E w msg s1)
      | Visit_Close printed \<Rightarrow> visit_close E w printed client)"

subsection \<open>A message in one frame\<close>

lemma send_whole:
  assumes U: "simdutf8_lib U" and keys: "\<And>k. length (keys k) = 4"
    and t: "listening t Continuation []" "state t = Active" and "length (contents (frame_queue t)) < flush_threshold (config t)"
    and m: "m_opcode m \<noteq> Close" "length (data (m_payload m)) \<le> frame_size (config t)" and room: "roomy (length (data (m_payload m)) + 14 + n) t"
  shows "\<exists>t' key. send_poll (duplex_env U pf keys) w (Some m) t = Some (Ready (Inr ()), None, t') \<and> listening t' Continuation []
    \<and> state t' = Active \<and> contents (frame_queue t') = [] \<and> roomy n t' \<and> key = (if role (decoder (inner t)) = Client then keys (masks_drawn t) else [])
    \<and> sent (io (inner t')) = outgoing sent t @ wire_frame key (frame_from_message m)
    \<and> unread (inner t') = unread (inner t) \<and> eof (io (inner t')) = eof (io (inner t)) \<and> decoder (inner t') = decoder (inner t)"
proof -
  let ?E = "duplex_env U pf keys" let ?fr = "frame_from_message m" let ?t0 = "queue_frame ?E t ?fr" let ?key = "next_key ?E t"
  have fr: "f_opcode ?fr = m_opcode m" "f_payload ?fr = data (m_payload m)" by (simp_all add: frame_from_message_def)
  have key: "?key = (if role (decoder (inner t)) = Client then keys (masks_drawn t) else [])" "length ?key \<le> 4"
    using keys by (simp_all add: next_key_def duplex_env_def)
  from transport.queue_frame_eq [OF duplex_transport [where pf = pf and keys = keys, OF U keys], of t ?fr] obtain ef md where
    ef: "?t0 = t\<lparr>frame_queue := push (frame_queue t) ef, masks_drawn := md\<rparr>" "length (header ef) = 14"
      "frame_bytes ef = wire_frame ?key ?fr" using m(1) fr(1) by auto
  have fq: "fq_inv (frame_queue t)" using t(1) by (simp add: listening_def)
  have t0: "listening ?t0 Continuation []" "state ?t0 = Active" "inner ?t0 = inner t"
    "contents (frame_queue ?t0) = contents (frame_queue t) @ wire_frame ?key ?fr"
    using t fq ef by (simp_all add: listening_def)
  have "length (wire_frame ?key ?fr) \<le> length (data (m_payload m)) + 14" using length_wire_frame(2) [OF key(2), of ?fr] fr(2) by simp
  then have roomy: "roomy n ?t0" using room t0(3,4) by (simp add: roomy_def)
  have q: "fq_inv (frame_queue ?t0)" "0 \<notin> set (room (io (inner ?t0)))" using t0(1) by (simp_all add: listening_def)
  from duplex_flush [OF q, of U pf keys w] roomy obtain t1 where
    t1: "poll_flush ?E w ?t0 = Some (Ready (Inr ()), t1)" "only_writes ?t0 t1" "contents (frame_queue t1) = []" by (auto simp: roomy_def)
  have "poll_ready ?E w t = Some (Ready (Inr ()), t)" using assms(5) fq.rem_eq [OF fq] by (simp add: poll_ready_def)
  moreover have "start_send ?E t m = Some (Inr (), ?t0)" using t(2) m(2) by (simp add: start_send_def)
  ultimately have "send_poll ?E w (Some m) t = Some (Ready (Inr ()), None, t1)" using t1(1) by (simp add: send_poll_def)
  moreover have "listening t1 Continuation []" "state t1 = Active" using t0(1,2) t1(2) by (auto simp: listening_def only_writes_def)
  moreover have "roomy n t1" using eases_roomy roomy t1(2) by (auto simp: only_writes_def)
  moreover have "sent (io (inner t1)) = outgoing sent t @ wire_frame ?key ?fr"
    using t1(2,3) t0(3,4) by (simp add: only_writes_def eases_def outgoing_def)
  moreover have "unread (inner t1) = unread (inner t)" "eof (io (inner t1)) = eof (io (inner t))" "decoder (inner t1) = decoder (inner t)"
    using t1(2) t0(3) by (simp_all add: only_writes_def unread_def)
  ultimately show ?thesis using t1(3) key(1) by (intro exI [of _ t1] exI [of _ ?key]) simp
qed

lemma hello_valid: "valid_utf8 hello_text" "length hello_text = 13"
proof -
  have "\<forall>b \<in> set hello_text. b \<le> 0x7F" by code_simp
  then show "valid_utf8 hello_text" by (rule valid_utf8_ascii_bytes)
qed (simp add: hello_text_def)

subsection \<open>Both programs\<close>

text \<open>
  C22: The two TLS examples work together, once they are connected. The first poll of the server sends the greeting and
  the close frame, and waits. With these bytes, one poll of the client prints the greeting, sends a close frame, reads the
  one of the server, and the program returns without an error. With what it has sent, the next poll of the server
  returns without an error, too. Both streams are terminated. The transports have room for what is sent.
\<close>

theorem hello_examples_complete:
  assumes "simdutf8_lib U" and "\<And>k. length (keys k) = 4" and "simdutf8_lib V" and "\<And>k. length (keys' k) = 4"
    and "listening a Continuation []" and "state a = Active" and "\<not> eof (io (inner a))" and "roomy 35 a" and "unread (inner a) = []"
    and "listening b Continuation []" and "state b = Active" and "roomy 8 b" and "unread (inner b) = []"
    and "role (decoder (inner a)) = Server" and "role (decoder (inner b)) = Client"
    and "length (contents (frame_queue a)) < flush_threshold (config a)" and "13 \<le> frame_size (config a)"
    and "125 \<le> max_payload_len (limits (decoder (inner a)))" and "125 \<le> max_payload_len (limits (decoder (inner b)))"
  shows "\<exists>a1 a2 b1 x y. hello_poll (duplex_env U pf keys) w (Hello_Send (Some hello_message)) a = Some (Pending, Hello_Close, a1)
    \<and> sent (io (inner a1)) = outgoing sent a @ x
    \<and> visit_poll (duplex_env V pf' keys') v Visit_Next (arrive x b)
        = Some (Ready (Inr ()), Visit_Close (Some (Inr (message_new Text hello_text))), b1)
    \<and> is_terminated b1 \<and> sent (io (inner b1)) = outgoing sent b @ y
    \<and> hello_poll (duplex_env U pf keys) w Hello_Close (arrive y a1) = Some (Ready (Inr ()), Hello_Close, a2)
    \<and> is_terminated a2 \<and> sent (io (inner a2)) = sent (io (inner a1))"
proof -
  let ?E = "duplex_env U pf keys" let ?F = "duplex_env V pf' keys'"
  let ?hello = "wire_frame [] \<lparr>f_is_final = True, f_opcode = Text, f_payload = hello_text\<rparr>"
  have hello: "m_opcode hello_message \<noteq> Close" "length (data (m_payload hello_message)) = 13"
    "frame_from_message hello_message = \<lparr>f_is_final = True, f_opcode = Text, f_payload = hello_text\<rparr>"
    using hello_valid(2) by (simp_all add: hello_message_def message_text_def payload_from_str_def frame_from_message_def)
  have "\<exists>a' key. send_poll ?E w (Some hello_message) a = Some (Ready (Inr ()), None, a') \<and> listening a' Continuation []
    \<and> state a' = Active \<and> contents (frame_queue a') = [] \<and> roomy 8 a' \<and> key = (if role (decoder (inner a)) = Client then keys (masks_drawn a) else [])
    \<and> sent (io (inner a')) = outgoing sent a @ wire_frame key (frame_from_message hello_message)
    \<and> unread (inner a') = unread (inner a) \<and> eof (io (inner a')) = eof (io (inner a)) \<and> decoder (inner a') = decoder (inner a)"
    by (rule send_whole [OF assms(1,2,5,6,16) hello(1)]) (use assms(8,17) hello(2) in simp_all)
  then obtain a' where a': "send_poll ?E w (Some hello_message) a = Some (Ready (Inr ()), None, a')" "listening a' Continuation []"
    "state a' = Active" "contents (frame_queue a') = []" "roomy 8 a'" "sent (io (inner a')) = outgoing sent a @ ?hello" "unread (inner a') = []"
    "\<not> eof (io (inner a'))" "decoder (inner a') = decoder (inner a)" using assms(7,9,14) hello(3) by auto
  have "\<exists>a1 key. poll_close ?E w a' = Some (Pending, a1) \<and> listening a1 Continuation [] \<and> state a1 = ClosedByUs
    \<and> unread (inner a1) = [] \<and> contents (frame_queue a1) = [] \<and> sent (io (inner a1)) = outgoing sent a' @ wire_frame key DEFAULT_CLOSE
    \<and> key_for Client key \<and> role (decoder (inner a1)) = role (decoder (inner a')) \<and> limits (decoder (inner a1)) = limits (decoder (inner a'))"
    by (rule poll_close_starts [where ms = "[]" and ks = keys and n = 1 and k = 0, OF assms(1,2,2)]) (use a' assms(14,18) in simp_all)
  then obtain a1 key where a1: "poll_close ?E w a' = Some (Pending, a1)" "listening a1 Continuation []" "state a1 = ClosedByUs"
    "unread (inner a1) = []" "contents (frame_queue a1) = []" "sent (io (inner a1)) = outgoing sent a @ ?hello @ wire_frame key DEFAULT_CLOSE"
    "key_for Client key" "role (decoder (inner a1)) = Server" "limits (decoder (inner a1)) = limits (decoder (inner a))"
    using a'(4,6,9) assms(14) by (auto simp: outgoing_def)
  let ?x = "?hello @ wire_frame key DEFAULT_CLOSE" let ?b = "arrive ?x b"
  have "frames_of 13 Text hello_text = [\<lparr>f_is_final = True, f_opcode = Text, f_payload = hello_text\<rparr>]"
    by (rule frames_of_short) (simp add: hello_valid(2))
  then have bytes: "unread (inner ?b) = wire_frames keys' Server 0 (frames_of 13 Text hello_text) @ wire_frame key DEFAULT_CLOSE"
    using assms(13) by simp
  have "\<exists>b'. poll_next_loop ?F v (max_payload_len (limits (decoder (inner ?b)))) ?b = Some (Ready (Some (Inr (message_new Text ([] @ hello_text)))), b')
    \<and> unread (inner b') = wire_frame key DEFAULT_CLOSE \<and> listening b' Continuation [] \<and> limits (decoder (inner b')) = limits (decoder (inner ?b))
    \<and> role (decoder (inner b')) = role (decoder (inner ?b)) \<and> state b' = state ?b \<and> eases ?b b'"
    by (rule poll_next_loop_frames [where ks = keys' and r = Server and k = 0 and n = 13 and op' = Continuation, OF assms(3,4)])
      (use assms(10,15,19) bytes hello_valid in simp_all)
  then obtain b' where b': "poll_next ?F v ?b = Some (Ready (Some (Inr (message_new Text hello_text))), b')"
    "unread (inner b') = wire_frame key DEFAULT_CLOSE" "listening b' Continuation []" "state b' = Active" "eases ?b b'"
    "role (decoder (inner b')) = Client" "limits (decoder (inner b')) = limits (decoder (inner b))"
    using assms(11,15) by (auto simp: poll_next_def)
  have "roomy 8 b'" using eases_roomy [OF b'(5)] assms(12) by simp
  from poll_close_crosses [where keys = keys' and pf = pf' and w = v and r = Server, OF assms(3,4) b'(3,4) this b'(2)] a1(7) b'(6,7) assms(19)
  obtain b1 key' where b1: "poll_close ?F v b' = Some (Ready (Inr ()), b1)" "state b1 = CloseAcknowledged"
    "sent (io (inner b1)) = outgoing sent b' @ wire_frame key' DEFAULT_CLOSE" "key_for Server key'" by auto
  let ?y = "wire_frame key' DEFAULT_CLOSE"
  have "\<exists>t'. poll_close ?E w (arrive ?y a1) = Some (Ready (Inr ()), t') \<and> state t' = CloseAcknowledged \<and> sent (io (inner t')) = sent (io (inner (arrive ?y a1)))"
    by (rule poll_close_ends_well [OF assms(1,2)]) (use assms(18) a1 b1(4) in simp_all)
  then obtain a2 where a2: "poll_close ?E w (arrive ?y a1) = Some (Ready (Inr ()), a2)" "state a2 = CloseAcknowledged"
    "sent (io (inner a2)) = sent (io (inner a1))" by (auto simp: arrive_def)
  have "outgoing sent b' = outgoing sent b" using b'(5) by (simp add: eases_def)
  then show ?thesis using a'(1) a1(1,6) b'(1) b1 a2
    by (intro exI [of _ a1] exI [of _ a2] exI [of _ b1] exI [of _ ?x] exI [of _ ?y])
      (simp add: hello_poll_def visit_poll_def hello_close_def visit_close_def is_terminated_def)
qed

text \<open>Transports that take a byte at a time from the server, and four bytes from the client.\<close>

definition greeting_server :: "(duplex, unit) websocket_stream" where
  "greeting_server = serve (server_new plain_http) \<lparr>incoming = [], eof = False, room = replicate 35 1, sent = []\<rparr> ()"

definition visiting_client :: "(duplex, unit) websocket_stream" where
  "visiting_client = take_over (client_new plain_http :: (unit, header_list) client_builder) \<lparr>incoming = [], eof = False, room = replicate 8 4, sent = []\<rparr> ()"

theorem hello_examples_complete_witness:
  "\<exists>a1 a2 b1. hello_poll std_env 0 (Hello_Send (Some hello_message)) greeting_server = Some (Pending, Hello_Close, a1)
    \<and> visit_poll std_env 1 Visit_Next (arrive (sent (io (inner a1))) visiting_client)
        = Some (Ready (Inr ()), Visit_Close (Some (Inr (message_new Text hello_text))), b1)
    \<and> is_terminated b1 \<and> hello_poll std_env 0 Hello_Close (arrive (sent (io (inner b1))) a1) = Some (Ready (Inr ()), Hello_Close, a2)
    \<and> is_terminated a2 \<and> sent (io (inner a2)) = sent (io (inner a1))"
proof -
  have fields: "role (decoder (inner greeting_server)) = Server" "role (decoder (inner visiting_client)) = Client"
    "state greeting_server = Active" "state visiting_client = Active" "\<not> eof (io (inner greeting_server))"
    "limits (decoder (inner greeting_server)) = limits_default" "limits (decoder (inner visiting_client)) = limits_default"
    "outgoing sent greeting_server = []" "outgoing sent visiting_client = []" "unread (inner greeting_server) = []"
    "unread (inner visiting_client) = []" "config greeting_server = config_default" "contents (frame_queue greeting_server) = []"
    by (simp_all add: greeting_server_def visiting_client_def serve_def take_over_def server_new_def client_new_def from_raw_stream_def
        protocol_new_def outgoing_def unread_def)
  have room: "roomy 35 greeting_server" "roomy 8 visiting_client"
    by (simp_all add: greeting_server_def visiting_client_def serve_def take_over_def from_raw_stream_def roomy_def)
  have listen: "listening greeting_server Continuation []" "listening visiting_client Continuation []"
    by (simp_all add: greeting_server_def visiting_client_def serve_def take_over_def listening_new)
  from hello_examples_complete [where a = greeting_server and b = visiting_client and pf = scalar_platform and pf' = scalar_platform
      and w = 0 and v = 1 and keys = "\<lambda>_. [0x37, 0xFA, 0x21, 0x3D]" and keys' = "\<lambda>_. [0x37, 0xFA, 0x21, 0x3D]", unfolded fields,
      OF std.simdutf8_lib_axioms _ std.simdutf8_lib_axioms _ listen(1) _ _ room(1) _ listen(2) _ room(2)]
  show ?thesis by (simp add: fields(5) limits_default_def config_default_def)
qed

end
