(* ===== verification/Autobahn_Client.thy ===== *)
theory Autobahn_Client
  imports Echo Connecting
begin

text \<open>
  The client of \<open>examples/autobahn_client.rs\<close>, which the Autobahn test suite drives: it asks for the number of test
  cases, opens a connection for each of them, in which it sends back what it receives, and asks for the reports in
  the end. The theory runs the program over a network that may answer each connection in its own way, and shows
  which connections it opens, and what the peer of a test case gets back.
\<close>

subsection \<open>The connections\<close>

datatype target = Case_Count | Run_Case u32 | Update_Reports

text \<open>The URIs, as the crate http takes them apart.\<close>

definition localhost_uri :: "string \<Rightarrow> string option \<Rightarrow> uri" where
  "localhost_uri path query = \<lparr>uri_scheme_str = Some (ascii ''ws''), uri_host = Some (ascii ''localhost''),
     uri_port_u16 = Some 9001, uri_path = ascii path, uri_query = map_option ascii query\<rparr>"

fun target_uri :: "target \<Rightarrow> uri" where
  "target_uri Case_Count = localhost_uri ''/getCaseCount'' None"
| "target_uri Update_Reports = localhost_uri ''/updateReports'' (Some ''agent=tokio-websockets'')"
| "target_uri (Run_Case n) =
     localhost_uri ''/runCase'' (Some (''case='' @ show_nat (unat n) @ ''&agent=tokio-websockets''))"

fun target_builder :: "'h http_lib \<Rightarrow> target \<Rightarrow> ('c, 'h) client_builder" where
  "target_builder H (Run_Case n) =
     client_connector (client_limits (client_from_uri H (target_uri (Run_Case n))) limits_unlimited) Plain_Connector"
| "target_builder H t = client_connector (client_from_uri H (target_uri t)) Plain_Connector"

subsection \<open>The number of cases\<close>

text \<open>\<open>str::parse\<close> for a \<open>u32\<close>: digits, after a plus sign or not, whose number is in range.\<close>

definition is_digit :: "byte \<Rightarrow> bool" where
  "is_digit b \<longleftrightarrow> 48 \<le> b \<and> b \<le> 57"

fun digits_value :: "nat \<Rightarrow> bytes \<Rightarrow> nat" where
  "digits_value n [] = n"
| "digits_value n (b # bs) = digits_value (10 * n + (unat b - 48)) bs"

definition parse_u32 :: "bytes \<Rightarrow> u32 option" where
  "parse_u32 s =
     (let ds = (case s of b # rest \<Rightarrow> if b = 43 then rest else s | [] \<Rightarrow> [])
      in if ds = [] \<or> \<not> list_all is_digit ds \<or> 2 ^ 32 \<le> digits_value 0 ds then None
         else Some (of_nat (digits_value 0 ds)))"

text \<open>
  \<open>get_case_count\<close> after \<open>connect\<close>: where it waits, and a poll of it. The panics of its four calls of \<open>unwrap\<close> are
  \<open>None\<close>: at the end of the stream, if closing fails, for a message that is not a text, and for a text that is not a
  number.
\<close>

datatype count_await = Count_Next | Count_Close message

definition count_close ::
  "simdutf8 \<Rightarrow> ('io, 'f) env \<Rightarrow> waker \<Rightarrow> message \<Rightarrow> ('io, 'f) websocket_stream
     \<Rightarrow> ((error + u32) poll \<times> count_await \<times> ('io, 'f) websocket_stream) option" where
  "count_close U E w msg s =
     (case poll_close E w s of
        None \<Rightarrow> None
      | Some (Pending, s1) \<Rightarrow> Some (Pending, Count_Close msg, s1)
      | Some (Ready (Inl _), s1) \<Rightarrow> None
      | Some (Ready (Inr _), s1) \<Rightarrow>
          (case as_text U msg of
             Some (Some str) \<Rightarrow> map_option (\<lambda>n. (Ready (Inr n), Count_Close msg, s1)) (parse_u32 str)
           | _ \<Rightarrow> None))"

definition count_poll ::
  "simdutf8 \<Rightarrow> ('io, 'f) env \<Rightarrow> waker \<Rightarrow> count_await \<Rightarrow> ('io, 'f) websocket_stream
     \<Rightarrow> ((error + u32) poll \<times> count_await \<times> ('io, 'f) websocket_stream) option" where
  "count_poll U E w a s =
     (case a of
        Count_Next \<Rightarrow>
          (case poll_next E w s of
             None \<Rightarrow> None
           | Some (Pending, s1) \<Rightarrow> Some (Pending, Count_Next, s1)
           | Some (Ready None, s1) \<Rightarrow> None
           | Some (Ready (Some (Inl e)), s1) \<Rightarrow> Some (Ready (Inl e), Count_Next, s1)
           | Some (Ready (Some (Inr msg)), s1) \<Rightarrow> count_close U E w msg s1)
      | Count_Close msg \<Rightarrow> count_close U E w msg s)"

subsection \<open>The test cases and the reports\<close>

text \<open>
  \<open>run_test\<close> after \<open>connect\<close> has the loop of the echo servers, line by line; \<open>update_reports\<close> only closes.
\<close>

definition run_test_poll ::
  "('io, 'f) env \<Rightarrow> waker \<Rightarrow> await \<Rightarrow> ('io, 'f) websocket_stream
     \<Rightarrow> ((error + unit) poll \<times> await \<times> ('io, 'f) websocket_stream) option" where
  "run_test_poll E w a stream = echo_poll E w a stream"

definition update_reports_poll ::
  "('io, 'f) env \<Rightarrow> waker \<Rightarrow> ('io, 'f) websocket_stream \<Rightarrow> ((error + unit) poll \<times> ('io, 'f) websocket_stream) option" where
  "update_reports_poll E w stream = poll_close E w stream"

declare run_test_poll_def [simp] update_reports_poll_def [simp]

subsection \<open>The program\<close>

text \<open>
  Where \<open>main\<close> is, with the stream of the connection that it uses, or without one before \<open>connect\<close> has returned. A test
  has the cases that are to come after it. What happens next: \<open>connect\<close> returns, with the network and the key
  that it has found, or the task is polled.
\<close>

datatype ('io, 'f) autobahn_main =
    Counting "(count_await \<times> ('io, 'f) websocket_stream) option"
  | Testing u32 "u32 list" "(await \<times> ('io, 'f) websocket_stream) option"
  | Reporting "('io, 'f) websocket_stream option"
  | Returned "error + unit"

datatype ('addr, 's, 'n, 'r, 'f, 'h) client_event =
    Connects "('addr, 's) dialer" "(('s, 'n, 'r) maybe_tls_stream, 'f, 'h) net" bytes
  | Woken waker

definition all_cases :: "u32 \<Rightarrow> u32 list" where
  "all_cases num = map of_nat [1 ..< Suc (unat num)]"

fun next_case :: "u32 list \<Rightarrow> ('io, 'f) autobahn_main" where
  "next_case [] = Reporting None"
| "next_case (n # ns) = Testing n ns None"

definition dial ::
  "tls_feature set \<Rightarrow> ('c, 's, 'n, 'r, 'roots, 'cert) tls_lib \<Rightarrow> 'h http_lib \<Rightarrow> crypto
     \<Rightarrow> ('addr, 's) dialer \<Rightarrow> (('s, 'n, 'r) maybe_tls_stream, 'f, 'h) net \<Rightarrow> bytes \<Rightarrow> target
     \<Rightarrow> (error + (('s, 'n, 'r) maybe_tls_stream, 'f) websocket_stream) option" where
  "dial F T H K D N key_bytes t =
     map_option (map_sum id fst) (connect F T D H K N key_bytes (target_builder H t))"

text \<open>A failed test does not end the program; a failure of the two other connections does.\<close>

fun autobahn_step ::
  "tls_feature set \<Rightarrow> ('c, 's, 'n, 'r, 'roots, 'cert) tls_lib \<Rightarrow> 'h http_lib \<Rightarrow> crypto \<Rightarrow> simdutf8
     \<Rightarrow> (('s, 'n, 'r) maybe_tls_stream, 'f) env \<Rightarrow> ('addr, 's, 'n, 'r, 'f, 'h) client_event
     \<Rightarrow> (('s, 'n, 'r) maybe_tls_stream, 'f) autobahn_main \<Rightarrow> (('s, 'n, 'r) maybe_tls_stream, 'f) autobahn_main option" where
  "autobahn_step F T H K U E (Connects D N key_bytes) (Counting None) =
     map_option (case_sum (\<lambda>e. Returned (Inl e)) (\<lambda>stream. Counting (Some (Count_Next, stream))))
       (dial F T H K D N key_bytes Case_Count)"
| "autobahn_step F T H K U E (Woken w) (Counting (Some (a, stream))) =
     map_option (\<lambda>(r, a1, s1). case r of
         Pending \<Rightarrow> Counting (Some (a1, s1))
       | Ready (Inl e) \<Rightarrow> Returned (Inl e)
       | Ready (Inr num) \<Rightarrow> next_case (all_cases num)) (count_poll U E w a stream)"
| "autobahn_step F T H K U E (Connects D N key_bytes) (Testing n ns None) =
     map_option (case_sum (\<lambda>_. next_case ns) (\<lambda>stream. Testing n ns (Some (Awaits_Next, stream))))
       (dial F T H K D N key_bytes (Run_Case n))"
| "autobahn_step F T H K U E (Woken w) (Testing n ns (Some (a, stream))) =
     map_option (\<lambda>(r, a1, s1). case r of
         Pending \<Rightarrow> Testing n ns (Some (a1, s1))
       | Ready _ \<Rightarrow> next_case ns) (run_test_poll E w a stream)"
| "autobahn_step F T H K U E (Connects D N key_bytes) (Reporting None) =
     map_option (case_sum (\<lambda>e. Returned (Inl e)) (\<lambda>stream. Reporting (Some stream)))
       (dial F T H K D N key_bytes Update_Reports)"
| "autobahn_step F T H K U E (Woken w) (Reporting (Some stream)) =
     map_option (\<lambda>(r, s1). case r of Pending \<Rightarrow> Reporting (Some s1) | Ready x \<Rightarrow> Returned x) (update_reports_poll E w stream)"
| "autobahn_step F T H K U E ev m = Some m"

text \<open>The connections that a step opens, and a run of the program with those that it has opened.\<close>

fun dials :: "('addr, 's, 'n, 'r, 'f, 'h) client_event \<Rightarrow> ('io, 'f) autobahn_main \<Rightarrow> target list" where
  "dials (Connects D N key_bytes) (Counting None) = [Case_Count]"
| "dials (Connects D N key_bytes) (Testing n ns None) = [Run_Case n]"
| "dials (Connects D N key_bytes) (Reporting None) = [Update_Reports]"
| "dials ev m = []"

fun autobahn_run ::
  "tls_feature set \<Rightarrow> ('c, 's, 'n, 'r, 'roots, 'cert) tls_lib \<Rightarrow> 'h http_lib \<Rightarrow> crypto \<Rightarrow> simdutf8
     \<Rightarrow> (('s, 'n, 'r) maybe_tls_stream, 'f) env \<Rightarrow> ('addr, 's, 'n, 'r, 'f, 'h) client_event list
     \<Rightarrow> (('s, 'n, 'r) maybe_tls_stream, 'f) autobahn_main
     \<Rightarrow> ((('s, 'n, 'r) maybe_tls_stream, 'f) autobahn_main \<times> target list) option" where
  "autobahn_run F T H K U E [] m = Some (m, [])"
| "autobahn_run F T H K U E (ev # evs) m =
     (case autobahn_step F T H K U E ev m of
        None \<Rightarrow> None
      | Some m1 \<Rightarrow> map_option (\<lambda>(m2, ts). (m2, dials ev m @ ts)) (autobahn_run F T H K U E evs m1))"

subsection \<open>Numbers in decimal\<close>

lemma decimal_digit:
  assumes "k < (10 :: nat)"
  shows "is_digit (of_char (char_of (48 + k)))" "unat (of_char (char_of (48 + k)) :: byte) = 48 + k"
proof -
  have "\<forall>k \<in> set [0 ..< 10]. is_digit (of_char (char_of (48 + k :: nat))) \<and> unat (of_char (char_of (48 + k :: nat)) :: byte) = 48 + k"
    by code_simp
  then show "is_digit (of_char (char_of (48 + k)))" "unat (of_char (char_of (48 + k)) :: byte) = 48 + k"
    using assms by simp_all
qed

lemma digits_value_append: "digits_value n (xs @ ys) = digits_value (digits_value n xs) ys"
  by (induction xs arbitrary: n) simp_all

lemma digits_value_show: "digits_value 0 (ascii (show_nat n)) = n \<and> list_all is_digit (ascii (show_nat n)) \<and> show_nat n \<noteq> []"
proof (induction n rule: show_nat.induct)
  case (1 n)
  then show ?case
    using decimal_digit [of n] decimal_digit [of "n mod 10"]
    by (subst (1 2 3) show_nat.simps) (auto simp: ascii_def digits_value_append)
qed

text \<open>The number that a server prints is the number that the client reads.\<close>

lemma parse_u32_show: "parse_u32 (ascii (show_nat (unat n))) = Some n"
proof -
  note shown = digits_value_show [of "unat n"]
  then obtain b bs where digits: "ascii (show_nat (unat n)) = b # bs" "is_digit b"
    by (cases "ascii (show_nat (unat n))") (auto simp: ascii_def)
  then have "b \<noteq> 43" by (auto simp: is_digit_def)
  moreover have "unat n < 2 ^ 32" using unsigned_less [of n] by simp
  ultimately show ?thesis using shown digits by (simp add: parse_u32_def Let_def not_le)
qed

subsection \<open>Its streams\<close>

definition stream_ok :: "('io, 'f) websocket_stream \<Rightarrow> bool" where
  "stream_ok s \<longleftrightarrow> ws_inv s \<and> frame_size (config s) \<noteq> 0"

lemma dialed_stream:
  fixes T :: "('c, 's, 'n, 'r, 'roots, 'cert) tls_lib" and H :: "'h http_lib"
  assumes "dial F T H K D N key_bytes t = Some (Inr s)"
  shows "stream_ok s"
proof -
  let ?b = "target_builder H t :: ('c, 'h) client_builder"
  from assms obtain st rs where on: "connect_on H K N key_bytes ?b st = Some (Inr (s, rs))"
    by (auto simp: dial_def connect_def split: sum.splits option.splits)
  have usable: "usable (cb_config ?b) (cb_limits ?b)"
    by (cases t) (simp_all add: usable_def client_connector_def client_limits_def client_from_uri_def config_default_def limits_default_def
        limits_unlimited_def)
  show ?thesis
    using after_handshake_streams(2) [OF on] after_handshake_new(1) [OF usable] after_handshake_new(3) usable
    unfolding usable_def stream_ok_def by metis
qed

fun main_ok :: "('io, 'f) autobahn_main \<Rightarrow> bool" where
  "main_ok (Counting (Some (a, s))) = stream_ok s"
| "main_ok (Testing n ns (Some (a, s))) = stream_ok s"
| "main_ok (Reporting (Some s)) = stream_ok s"
| "main_ok m = True"

lemma main_ok_next [simp]: "main_ok (next_case ns)"
  by (cases ns) simp_all

context finite_transport
begin

lemma poll_next_ok:
  assumes "stream_ok s"
  shows "\<exists>r s'. poll_next E w s = Some (r, s') \<and> stream_ok s'"
proof -
  have inv: "ws_inv s" using assms by (simp add: stream_ok_def)
  from poll_next_uses [OF inv, of w] obtain r s' where r: "poll_next E w s = Some (r, s')" "ws_inv s'" by blast
  from poll_next_loop_sends [OF r(1) [unfolded poll_next_def] inv] have "config s' = config s" by (auto simp: sends_def)
  with r assms show ?thesis by (simp add: stream_ok_def)
qed

lemma poll_close_ok:
  assumes "stream_ok s"
  shows "\<exists>r s'. poll_close E w s = Some (r, s') \<and> stream_ok s'"
proof -
  have inv: "ws_inv s" using assms by (simp add: stream_ok_def)
  from poll_close_ends [OF inv, of w] obtain r s' where r: "poll_close E w s = Some (r, s')" by blast
  from poll_close_sends [OF r inv] assms r show ?thesis by (auto simp: sends_def stream_ok_def)
qed

lemma echo_poll_ok:
  assumes "stream_ok s"
  shows "\<exists>r a' s'. echo_poll E w a s = Some (r, a', s') \<and> stream_ok s'"
proof -
  from echo_poll_ends [of s w a] assms obtain r a' s' where "echo_poll E w a s = Some (r, a', s')" "ws_inv s'" "config s' = config s"
    unfolding stream_ok_def by blast
  with assms show ?thesis by (simp add: stream_ok_def)
qed

lemma count_close_ok: "stream_ok s \<Longrightarrow> count_close V E w msg s = Some (r, a', s') \<Longrightarrow> stream_ok s'"
  using poll_close_ok [of s w] by (auto simp: count_close_def split: poll.splits sum.splits option.splits)

lemma count_poll_ok:
  assumes "stream_ok s" and "count_poll V E w a s = Some (r, a', s')"
  shows "stream_ok s'"
proof (cases a)
  case Count_Next
  from poll_next_ok [OF assms(1), of w] obtain x s1 where x: "poll_next E w s = Some (x, s1)" "stream_ok s1" by blast
  then show ?thesis
    using assms(2) Count_Next count_close_ok [OF x(2)] by (auto simp: count_poll_def split: poll.splits sum.splits option.splits)
next
  case (Count_Close msg)
  then show ?thesis using assms count_close_ok by (simp add: count_poll_def)
qed

end

text \<open>The program keeps its stream in order.\<close>

lemma autobahn_step_ok:
  assumes fin: "finite_transport U E written available" and ok: "main_ok m" and step: "autobahn_step F T H K V E ev m = Some m'"
  shows "main_ok m'"
proof -
  note count = finite_transport.count_poll_ok [OF fin]
    and echo = finite_transport.echo_poll_ok [OF fin] and close = finite_transport.poll_close_ok [OF fin]
  show ?thesis
  proof (cases "(F, T, H, K, V, E, ev, m)" rule: autobahn_step.cases)
    case (2 F T H K U E w a stream)
    then show ?thesis using ok step count [of stream V w a] by (auto split: poll.split sum.split)
  next
    case (4 F T H K U E w n ns a stream)
    then show ?thesis using ok step echo [of stream w a] by (auto split: poll.split)
  next
    case (6 F T H K U E w stream)
    then show ?thesis using ok step close [of stream w] by (auto split: poll.split)
  qed (use ok step in \<open>auto split: sum.split dest: dialed_stream\<close>)
qed

lemma autobahn_run_ok:
  assumes "finite_transport U E written available"
  shows "main_ok m \<Longrightarrow> autobahn_run F T H K V E evs m = Some (m', ts) \<Longrightarrow> main_ok m'"
proof (induction evs arbitrary: m ts)
  case (Cons ev evs)
  from Cons.prems(2) obtain m1 ts1 where m1: "autobahn_step F T H K V E ev m = Some m1"
    and run: "autobahn_run F T H K V E evs m1 = Some (m', ts1)" by (auto split: option.splits)
  show ?case by (rule Cons.IH [OF autobahn_step_ok [OF assms Cons.prems(1) m1] run])
qed simp

subsection \<open>A test case\<close>

text \<open>
  In a test case, a server of this library gets back the first of the text and binary messages that it
  has sent, in order and unchanged, whatever else it does with its stream.
\<close>

lemma test_case_echoes:
  assumes "accept H K Ns sb st = Some (Inr (rq, wss))" and "connect_on H' K' Nc key (target_builder H' (Run_Case n)) ct = Some (Inr (wsc, rs))"
    and "byte_transport V B view D" and "byte_transport U A seen E" and "usable (sb_config sb) (sb_limits sb)"
    and "session D wss ms s" and "reading_session D wss log s'" and "echo_run E wsc r a t"
    and "\<forall>m \<in> set ms. length (data (m_payload m)) \<le> max_payload_len (sb_limits sb)"
    and "fst (view (io (inner wss))) @ buffer (inner wsc) @ snd (seen (io (inner wsc))) @ later = outgoing (\<lambda>i. fst (view i)) s"
    and "fst (seen (io (inner wsc))) @ buffer (inner wss) @ snd (view (io (inner wss))) @ later' = outgoing (\<lambda>i. fst (seen i)) t"
  shows "prefix (filter initiated (messages_of log)) (map received (filter to_echo ms))"
proof -
  obtain j g rb' where wss: "wss = after_handshake j g rb' Server (sb_config sb) (sb_limits sb)"
    and j: "io (inner wss) = j" "buffer (inner wss) = rb'" using after_handshake_streams(1) [OF assms(1)] by blast
  obtain i f rb c l where wsc: "wsc = after_handshake i f rb Client c l" and i: "io (inner wsc) = i" "buffer (inner wsc) = rb"
    and l: "usable c l" "max_payload_len l = usize_MAX"
    using after_handshake_streams(2) [OF assms(2)]
    by (auto simp: usable_def client_connector_def client_limits_def client_from_uri_def config_default_def limits_unlimited_def)
  have max: "max_payload_len (sb_limits sb) \<le> max_payload_len l" using assms(5) l(2) by (simp add: usable_def)
  have fits: "\<forall>m \<in> set ms. length (data (m_payload m)) \<le> max_payload_len l" using assms(9) max by (meson le_trans)
  have out: "fst (view j) @ rb @ snd (seen i) @ later = outgoing (\<lambda>i. fst (view i)) s" using assms(10) by (simp add: i j)
  obtain es where es: "session E wsc es t" and pre: "prefix es (map received (filter to_echo ms))"
    using echoing_end [OF assms(3,4,5) l(1) _ assms(6) [unfolded wss] assms(8) [unfolded wsc] fits out] unfolding wsc by auto
  have all: "to_echo e \<and> received e = e \<and> length (data (m_payload e)) \<le> max_payload_len (sb_limits sb)" if "e \<in> set es" for e
  proof -
    from set_mono_prefix [OF pre] that obtain m where "m \<in> set ms" "to_echo m" "e = received m" by auto
    then show ?thesis using assms(9) by simp
  qed
  have "in_order E (\<lambda>i. fst (seen i)) (after_handshake i f rb Client c l) es t log"
    by (rule in_order_after_handshake [OF assms(4,3) l(1) assms(5) _ es [unfolded wsc] assms(7) [unfolded wss], where later = later'])
      (use all assms(11) in \<open>auto simp: i j\<close>)
  note returned = in_order_initiated(1) [OF this]
  have "map received es = es" "\<forall>e \<in> set es. initiated e" using all to_echo_initiated by (auto simp: map_idI)
  then show ?thesis using returned pre by (auto intro: prefix_order.trans)
qed

subsection \<open>The connections of a run\<close>

fun counting :: "('io, 'f) autobahn_main \<Rightarrow> bool" where
  "counting (Counting x) = True"
| "counting m = False"

text \<open>The connections that are to come, once the number of cases is known.\<close>

fun to_come :: "('io, 'f) autobahn_main \<Rightarrow> target list" where
  "to_come (Testing n ns None) = map Run_Case (n # ns) @ [Update_Reports]"
| "to_come (Testing n ns (Some _)) = map Run_Case ns @ [Update_Reports]"
| "to_come (Reporting None) = [Update_Reports]"
| "to_come m = []"

lemma next_case_simps [simp]: "to_come (next_case ns) = map Run_Case ns @ [Update_Reports]" "\<not> counting (next_case ns)"
  by (cases ns; simp)+

lemma counting_cases [simp]:
  "counting (case_sum f g z) \<longleftrightarrow> (\<exists>e. z = Inl e \<and> counting (f e)) \<or> (\<exists>x. z = Inr x \<and> counting (g x))"
  "counting (case_poll f m r) \<longleftrightarrow> (\<exists>x. r = Ready x \<and> counting (f x)) \<or> (r = Pending \<and> counting m)"
  by (cases z; simp) (cases r; simp)

lemma step_dials:
  assumes "\<not> counting m" and "autobahn_step F T H K V E ev m = Some m'"
  shows "\<not> counting m' \<and> dials ev m @ to_come m' = to_come m"
  using assms by (cases "(F, T, H, K, V, E, ev, m)" rule: autobahn_step.cases) (auto split: sum.split poll.split)

lemma run_dials:
  "\<not> counting m \<Longrightarrow> autobahn_run F T H K V E evs m = Some (m', ts) \<Longrightarrow> \<not> counting m' \<and> ts @ to_come m' = to_come m"
proof (induction evs arbitrary: m ts)
  case (Cons ev evs)
  from Cons.prems(2) obtain m1 ts1 where m1: "autobahn_step F T H K V E ev m = Some m1" and
    run: "autobahn_run F T H K V E evs m1 = Some (m', ts1)" and ts: "ts = dials ev m @ ts1"
    by (auto split: option.splits)
  from step_dials [OF Cons.prems(1) m1] Cons.IH [OF _ run] show ?case by (auto simp: ts)
qed simp

text \<open>Before that, from the state \<open>Counting x\<close>.\<close>

definition count_dials :: "'a option \<Rightarrow> target list" where
  "count_dials x = (if x = None then [Case_Count] else [])"

definition all_connections :: "u32 \<Rightarrow> target list" where
  "all_connections num = [Case_Count] @ map Run_Case (all_cases num) @ [Update_Reports]"

lemma count_step:
  assumes "autobahn_step F T H K V E ev (Counting x) = Some m"
  shows "(\<exists>y. m = Counting y \<and> dials ev (Counting x) @ count_dials y = count_dials x)
    \<or> dials ev (Counting x) = count_dials x \<and> (\<exists>e. m = Returned (Inl e))
    \<or> dials ev (Counting x) = count_dials x \<and> (\<exists>num. m = next_case (all_cases num))"
proof (cases x)
  case None
  show ?thesis
  proof (cases ev)
    case (Connects D N key_bytes)
    with assms None obtain z where "dial F T H K D N key_bytes Case_Count = Some z"
      and "m = case_sum (\<lambda>e. Returned (Inl e)) (\<lambda>stream. Counting (Some (Count_Next, stream))) z" by auto
    then show ?thesis using None Connects by (cases z) (simp_all add: count_dials_def)
  qed (use assms None in auto)
next
  case (Some y)
  obtain a stream where y: "y = (a, stream)" by (cases y)
  show ?thesis
  proof (cases ev)
    case (Woken w)
    with assms Some y obtain r a1 s1 where "count_poll V E w a stream = Some (r, a1, s1)" and m: "m = (case r of
         Pending \<Rightarrow> Counting (Some (a1, s1)) | Ready (Inl e) \<Rightarrow> Returned (Inl e) | Ready (Inr num) \<Rightarrow> next_case (all_cases num))"
      by auto
    show ?thesis
    proof (cases r)
      case Pending
      then show ?thesis using m Some Woken by (simp add: count_dials_def)
    next
      case (Ready q)
      then show ?thesis using m Some Woken by (cases q) (auto simp: count_dials_def)
    qed
  qed (use assms Some y in auto)
qed

lemma count_run:
  assumes "autobahn_run F T H K V E evs (Counting x) = Some (m, ts)"
  shows "counting m \<and> prefix ts (count_dials x) \<or> ts = count_dials x \<and> (\<exists>e. m = Returned (Inl e))
    \<or> \<not> counting m \<and> (\<exists>num. ts @ to_come m = count_dials x @ map Run_Case (all_cases num) @ [Update_Reports])"
  using assms
proof (induction evs arbitrary: x ts)
  case (Cons ev evs)
  from Cons.prems obtain m1 ts1 where m1: "autobahn_step F T H K V E ev (Counting x) = Some m1" and
    run: "autobahn_run F T H K V E evs m1 = Some (m, ts1)" and ts: "ts = dials ev (Counting x) @ ts1"
    by (auto split: option.splits)
  from count_step [OF m1] show ?case
  proof (elim disjE conjE exE)
    fix y assume "m1 = Counting y" and first: "dials ev (Counting x) @ count_dials y = count_dials x"
    with Cons.IH [of y ts1] run show ?thesis unfolding ts first [symmetric] by auto
  next
    fix e assume "dials ev (Counting x) = count_dials x" "m1 = Returned (Inl e)"
    moreover have "autobahn_run F T H K V E evs (Returned (Inl e)) = Some (Returned (Inl e), [])"
      by (induction evs) simp_all
    ultimately show ?thesis using run ts by auto
  next
    fix num assume "dials ev (Counting x) = count_dials x" "m1 = next_case (all_cases num)"
    then show ?thesis using run_dials [OF _ run] unfolding ts by auto
  qed
qed auto

text \<open>
  All the connections of a run, from the start: the first ones of these for some number of cases, and all of them when the
  program has returned, unless it could not get the number of cases, which is an error.
\<close>

lemma autobahn_run_connections:
  assumes "autobahn_run F T H K V E evs (Counting None) = Some (m, ts)"
  shows "(\<exists>num. prefix ts (all_connections num))
    \<and> (\<forall>r. m = Returned r \<longrightarrow> ts = [Case_Count] \<and> isl r \<or> (\<exists>num. ts = all_connections num))"
proof -
  have "prefix [Case_Count] (all_connections num)" for num by (simp add: all_connections_def)
  moreover have "prefix ts (all_connections num)" if "ts @ to_come m = all_connections num" for num
    using that by (metis prefixI)
  ultimately show ?thesis using count_run [OF assms]
    by (auto simp: count_dials_def simp flip: all_connections_def [unfolded append_Cons append_Nil] intro: prefix_order.trans)
qed

text \<open>No poll panics; a step does only where \<open>connect\<close> does.\<close>

lemma woken_returns:
  assumes "finite_transport U E written available" and "main_ok m" and "\<not> counting m" and "ev = Woken w"
  shows "\<exists>m'. autobahn_step F T H K V E ev m = Some m'"
proof (cases m)
  case (Testing n ns x)
  then show ?thesis using assms(2,4) finite_transport.echo_poll_ok [OF assms(1), of _ w] by (cases x) fastforce+
next
  case (Reporting x)
  then show ?thesis using assms(2,4) finite_transport.poll_close_ok [OF assms(1), of _ w] by (cases x) fastforce+
qed (use assms(3,4) in simp_all)

lemma step_panics:
  assumes "finite_transport U E written available" and "main_ok m" and "\<not> counting m"
    and none: "autobahn_step F T H K V E ev m = None"
  obtains D N key t ts where "ev = Connects D N key" and "to_come m = t # ts" and "dial F T H K D N key t = None"
proof (cases ev)
  case (Connects D N key)
  have "\<exists>t ts. to_come m = t # ts \<and> dial F T H K D N key t = None"
    using none assms(3) unfolding Connects
    by (cases m rule: to_come.cases) (auto split: option.splits)
  then show thesis using that Connects by blast
next
  case (Woken w)
  show thesis using woken_returns [OF assms(1-3) Woken, of F T H K V] none by simp
qed

lemma run_panics:
  assumes "finite_transport U E written available" and "main_ok m" and "\<not> counting m"
    and "autobahn_run F T H K V E evs m = None"
  shows "\<exists>evs1 D N key evs2 m' ts t ts'. evs = evs1 @ Connects D N key # evs2
    \<and> autobahn_run F T H K V E evs1 m = Some (m', ts) \<and> to_come m' = t # ts' \<and> dial F T H K D N key t = None"
  using assms(2-)
proof (induction evs arbitrary: m)
  case (Cons ev evs)
  show ?case
  proof (cases "autobahn_step F T H K V E ev m")
    case None
    from step_panics [OF assms(1) Cons.prems(1,2) None] obtain D N key t ts where
      "ev = Connects D N key" "to_come m = t # ts" "dial F T H K D N key t = None" .
    then show ?thesis by (intro exI [of _ "[]"]) auto
  next
    case (Some m1)
    then have run: "autobahn_run F T H K V E evs m1 = None" using Cons.prems(3) by simp
    have "\<not> counting m1" using step_dials [OF Cons.prems(2) Some] by simp
    from Cons.IH [OF autobahn_step_ok [OF assms(1) Cons.prems(1) Some] this run] obtain evs1 D N key evs2 m' ts t ts' where
      "evs = evs1 @ Connects D N key # evs2" "autobahn_run F T H K V E evs1 m1 = Some (m', ts)" "to_come m' = t # ts'"
      "dial F T H K D N key t = None" by blast
    then show ?thesis using Some
      by (intro exI [of _ "ev # evs1"] exI [of _ D] exI [of _ N] exI [of _ key] exI [of _ evs2] exI [of _ m']
          exI [of _ "dials ev m @ ts"] exI [of _ t] exI [of _ ts']) simp
  qed
qed simp

text \<open>
  C16: The Autobahn client runs every test case. When it knows the number of cases, it opens a connection for each of
  them, from the first to the last, and then one for the reports; a case that fails
  does not keep it from the next, and it returns when it has opened them all. Every poll of it returns, without a panic. Only one
  thing can keep it from this: a call of \<open>connect\<close> that panics (\<open>dial\<close> is \<open>None\<close>, as in \<open>long_accept_value_aborts_client\<close>); then
  the connections before it were opened as said, and the panic is that of the next one.
\<close>

theorem autobahn_client_runs_all_cases:
  assumes "finite_transport U E written available"
  shows "case autobahn_run F T H K V E evs (next_case (all_cases num)) of
      Some (m, ts) \<Rightarrow> ts @ to_come m = map Run_Case (all_cases num) @ [Update_Reports]
        \<and> (\<forall>r. m = Returned r \<longrightarrow> ts = map Run_Case (all_cases num) @ [Update_Reports])
        \<and> (\<exists>m'. autobahn_step F T H K V E (Woken w) m = Some m')
    | None \<Rightarrow> \<exists>evs1 D N key evs2 m ts t ts'. evs = evs1 @ Connects D N key # evs2
        \<and> autobahn_run F T H K V E evs1 (next_case (all_cases num)) = Some (m, ts)
        \<and> ts @ t # ts' = map Run_Case (all_cases num) @ [Update_Reports] \<and> dial F T H K D N key t = None"
proof (cases "autobahn_run F T H K V E evs (next_case (all_cases num))")
  case None
  from run_panics [OF assms _ _ None] obtain evs1 D N key evs2 m ts t ts' where
    run: "evs = evs1 @ Connects D N key # evs2" "autobahn_run F T H K V E evs1 (next_case (all_cases num)) = Some (m, ts)"
      "to_come m = t # ts'" "dial F T H K D N key t = None" by auto
  from run_dials [OF _ run(2)] have "ts @ t # ts' = map Run_Case (all_cases num) @ [Update_Reports]" by (simp add: run(3))
  with None run(1,2,4) show ?thesis unfolding None option.case by blast
next
  case (Some x)
  then obtain m ts where run: "autobahn_run F T H K V E evs (next_case (all_cases num)) = Some (m, ts)" by (cases x) auto
  from run_dials [OF _ run] have come: "\<not> counting m" "ts @ to_come m = map Run_Case (all_cases num) @ [Update_Reports]" by auto
  have ok: "main_ok m" using autobahn_run_ok [OF assms _ run] by simp
  show ?thesis using run come woken_returns [OF assms ok come(1) refl] by auto
qed

text \<open>
  Two cases, of which the first is refused by the network. In the second the server answers the handshake and ends
  the stream. The reports cannot be asked for.
\<close>

definition answering_net ::
  "((bytes \<times> bytes, bytes \<times> bytes, bytes \<times> bytes) maybe_tls_stream, unit, header_list) net" where
  "answering_net = \<lparr>write_all = (\<lambda>i bs. (Inr (), i)), io_flush = (\<lambda>i. (Inr (), i)), next_request = (\<lambda>dec i. None),
     next_response = (\<lambda>dec i. Some (Some (Inr \<lparr>rs_status = 101, rs_version = HTTP_11, rs_headers = []\<rparr>), i, (), []))\<rparr>"

definition no_tls_pipe :: "(unit, bytes \<times> bytes, bytes \<times> bytes, bytes \<times> bytes, unit, unit) tls_lib" where
  "no_tls_pipe = \<lparr>native_tls_new = Inr (), with_platform_verifier = Inr (), empty_roots = (), load_native_certs = ([], []),
     add_root = (\<lambda>_ _. Inr ()), extend_webpki = (\<lambda>r. r), with_root_certificates = (\<lambda>_. ()),
     native_tls_connect = (\<lambda>_ _ s. Inr s), server_name = Some, rustls_connect = (\<lambda>_ _ s. Inr s)\<rparr>"

definition no_host :: "(bytes, bytes \<times> bytes) dialer" where
  "no_host = \<lparr>resolve = gai_resolve (\<lambda>h p. Inl ()), tcp_connect = (\<lambda>a. Inr ([], []))\<rparr>"

definition local_host :: "(bytes, bytes \<times> bytes) dialer" where
  "local_host = \<lparr>resolve = gai_resolve (\<lambda>h p. if h = ascii ''localhost'' \<and> p = 9001 then Inr [[127]] else Inl ()),
     tcp_connect = (\<lambda>a. Inr ([], []))\<rparr>"

definition quiet_stream :: "((bytes \<times> bytes, bytes \<times> bytes, bytes \<times> bytes) maybe_tls_stream, unit) websocket_stream" where
  "quiet_stream = after_handshake (Plain_Stream ([], [])) () [] Client config_default limits_unlimited"

lemma example_dials:
  "dial {} no_tls_pipe plain_http rfc_crypto no_host answering_net example_key t = Some (Inl CannotResolveHost)"
  "dial {} no_tls_pipe plain_http rfc_crypto local_host answering_net example_key (Run_Case n) = Some (Inr quiet_stream)"
proof -
  show "dial {} no_tls_pipe plain_http rfc_crypto no_host answering_net example_key t = Some (Inl CannotResolveHost)"
    by (cases t) (simp_all add: dial_def connect_def connect_stream_def client_connector_def client_limits_def client_from_uri_def
        localhost_uri_def no_host_def gai_resolve_def Let_def)
  have key: "\<exists>k. make_key rfc_crypto example_key = Some k"
    by (simp add: make_key_def rfc_crypto_def b64_length example_simps(2) Let_def)
  have "trim_brackets (ascii ''localhost'') = ascii ''localhost''" by (simp add: trim_brackets_def ascii_def)
  then show "dial {} no_tls_pipe plain_http rfc_crypto local_host answering_net example_key (Run_Case n) = Some (Inr quiet_stream)"
    using key
    by (auto simp: dial_def connect_def connect_stream_def connect_on_def client_connector_def client_limits_def client_from_uri_def
        localhost_uri_def local_host_def gai_resolve_def answering_net_def default_port_def quiet_stream_def Let_def)
qed

lemma quiet_echo: "\<exists>s. echo_poll tls_pipe_env 0 Awaits_Next quiet_stream = Some (Ready (Inr ()), Awaits_Next, s)"
proof -
  have decode: "decode std_utf8 scalar_platform (protocol_new Client l) [] = Some (Inr None, protocol_new Client l, [])" for l
    by (simp add: decode_def decode_head_def slice_def protocol_new_def)
  have "\<exists>fr. framed_next std_utf8 scalar_platform tls_pipe 0 3 (inner quiet_stream) = (Ready None, fr)"
    by (simp add: quiet_stream_def after_handshake_def from_framed_def framed_next.simps decode maybe_tls_io_def pipe_io_def numeral_eq_Suc)
  then obtain s where "poll_next_frame tls_pipe_env 0 quiet_stream = Some (Ready None, s)"
    by (auto simp: poll_next_frame_def read_frame_def framed_env_def quiet_stream_def after_handshake_def from_framed_def
        frame_queue_new_def has_remaining_def remaining_def)
  then have "poll_next tls_pipe_env 0 quiet_stream = Some (Ready None, s)"
    unfolding poll_next_def by (subst poll_next_loop.simps) simp
  then show ?thesis by (subst echo_poll.simps) (simp add: echo_round_def)
qed

theorem autobahn_client_runs_all_cases_witness:
  "\<exists>ts. autobahn_run {} no_tls_pipe plain_http rfc_crypto std_utf8 tls_pipe_env
       [Connects no_host answering_net example_key, Connects local_host answering_net example_key, Woken 0,
        Connects no_host answering_net example_key] (Testing 1 [2] None) = Some (Returned (Inl CannotResolveHost), ts)
     \<and> ts = [Run_Case 1, Run_Case 2, Update_Reports]"
proof -
  let ?evs = "[Connects no_host answering_net example_key, Connects local_host answering_net example_key, Woken 0,
    Connects no_host answering_net example_key]"
  have cases: "all_cases 2 = [1, 2]" by (simp add: all_cases_def upt_rec)
  from quiet_echo have "\<exists>ts. autobahn_run {} no_tls_pipe plain_http rfc_crypto std_utf8 tls_pipe_env ?evs (next_case (all_cases 2))
    = Some (Returned (Inl CannotResolveHost), ts)"
    unfolding cases by (auto simp: example_dials)
  then obtain ts where run: "autobahn_run {} no_tls_pipe plain_http rfc_crypto std_utf8 tls_pipe_env ?evs (next_case (all_cases 2))
    = Some (Returned (Inl CannotResolveHost), ts)" by blast
  note all = autobahn_client_runs_all_cases [OF tls_transport.is_finite_transport, where F = "{}" and T = no_tls_pipe and H = plain_http and K = rfc_crypto and V = std_utf8 and evs = ?evs and num = 2,
      unfolded run option.case prod.case]
  then have "ts = map Run_Case (all_cases 2) @ [Update_Reports]" by blast
  then show ?thesis using run by (simp only: cases next_case.simps list.map append.simps) blast
qed

end
