(* ===== verification/Spec2Isabelle.thy ===== *)
theory Spec2Isabelle
  imports Mask Utf8 Proto_Types Codec Codec_Resume Codec_Wire Frame_Queue Messages WebSocket_Stream Stream_Output Duplex Stream_Closing Stream_Reading
    Stream_Messages Stream_Text Stream_Ends Late_Bytes Conversation Backpressure
    Byte_Transport Full_Duplex Receiving Upgrade Http_Interface Tls Http_Endpoints Handshake Rfc_Crypto Plain_Http Opening Upgrade_Checks
    Random_Keys Connecting Error_Display Waiting Fuzz_Stream Fuzz_Target
    Accessors Close_Handshake End_To_End Echo Benchmark_Client Example_Server Hello_Examples Autobahn_Client
begin

text \<open>
  A verification of \<open>tokio-websockets\<close>, a Rust library for WebSockets (RFC 6455) on top of tokio.

  The program. An application makes a \<open>WebSocketStream\<close> with the builder of the client
  (\<open>src/client.rs\<close>) or of the server (\<open>src/server.rs\<close>), which run the HTTP handshake with the codecs
  in \<open>src/upgrade/\<close> over a stream that may be encrypted (\<open>src/tls.rs\<close>). The stream
  (\<open>src/proto/stream.rs\<close>) is then a \<open>Sink\<close> and a \<open>Stream\<close> of messages. What it sends is split into
  frames, encoded (\<open>src/proto/types.rs\<close>), masked by a client (\<open>src/mask.rs\<close>) and put into a queue that
  flushing writes out. What it reads goes through a decoder (\<open>src/proto/codec.rs\<close>) that unmasks and
  checks UTF-8 while bytes come in (\<open>src/utf8.rs\<close>); pings, close frames and violations are answered by
  frames put into the same queue, and fragments are put together to messages.

  Theories of the data and the algorithms:

  \<^item> \<open>Prelude\<close>: machine integers, slices, \<open>splice\<close> for writes into arrays, big-endian encodings, and the
    simplification sets they need. \<open>Errors\<close>: the error types of the crate.
  \<^item> \<open>Mask\<close>: \<open>src/mask.rs\<close>. A routine is a function on a key and a buffer whose first aligned address
    is an argument, as \<open>align_to_mut\<close> gives it; vector instructions are their effect on lanes; byte
    order and processor features are in \<open>platform\<close>. Every routine equals the byte loop.
  \<^item> \<open>Utf8\<close>: \<open>src/utf8.rs\<close>. The crate \<open>simdutf8\<close> is the record \<open>simdutf8\<close> with the locale
    \<open>simdutf8_lib\<close>; its instance \<open>std_utf8\<close> is the grammar of RFC 3629. The streaming validator is
    related to the set of byte strings that can still become UTF-8.
  \<^item> \<open>Proto_Types\<close>, \<open>Messages\<close>: \<open>src/proto/types.rs\<close>. Opcodes, close codes, payloads, messages, limits,
    configuration, the encoding of frame heads; the splitting of messages into frames. A constructor
    that panics returns \<open>None\<close>.
  \<^item> \<open>Codec\<close>, \<open>Codec_Resume\<close>, \<open>Codec_Wire\<close>: \<open>src/proto/codec.rs\<close>. \<open>decode\<close> is a function of decoder
    state and read buffer; its outer \<open>None\<close> is a panic or an access out of bounds. The second theory
    proves that it never gives \<open>None\<close>, that it keeps \<open>codec_inv\<close>, and that the sizes of the reads do
    not matter; the third that it accepts exactly the canonical encodings (\<open>wire_frame\<close>) of frames that are
    legal where they come.
  \<^item> \<open>Frame_Queue\<close>: \<open>FrameQueue\<close> with its \<open>Buf\<close> implementation, refined to the sequence of bytes
    \<open>contents\<close>. The locale \<open>buf\<close> states what a writer needs of it, with the interpretation \<open>fq\<close>.

  Theories of the stream:

  \<^item> \<open>WebSocket_Stream\<close>: the operations of \<open>src/proto/stream.rs\<close>, one definition for each, on the record
    \<open>websocket_stream\<close>. A task is known by its waker, a number. Everything called out of the crate
    is in the record \<open>env\<close>: \<open>poll_write_buf\<close>, \<open>FramedRead::poll_next\<close>, flush and shutdown of the
    transport, the random masks (a sequence and the count of those drawn). Loops are
    \<open>partial_function (option)\<close>, so that a loop that does not end gives \<open>None\<close>, as a panic does.
  \<^item> \<open>Stream_Loops\<close>: one induction rule for each of the loops of \<open>poll_flush\<close>, \<open>poll_next\<close> and \<open>poll_close\<close>.
  \<^item> \<open>Stream_Output\<close>: the locale \<open>transport\<close>, what the documentation of \<open>AsyncWrite\<close>, \<open>AsyncRead\<close> and
    \<open>FramedRead\<close> says. \<open>outgoing\<close> are the bytes written and the bytes queued; \<open>sends\<close> says that an operation
    appends whole frames to them, and \<open>ws_inv\<close> is kept by every operation. The order of the
    states of a connection is the instance of \<open>order\<close> for \<open>stream_state\<close>.
  \<^item> \<open>Duplex\<close>: a transport in memory, with the bytes that will arrive cut into reads and with room for
    some writes: the interpretation \<open>std_duplex\<close> of \<open>transport\<close>, on which witnesses run.
  \<^item> \<open>Stream_Reading\<close>, \<open>Stream_Closing\<close>: reading and closing, operation by operation; the relation
    \<open>reaches\<close> of all sequences of operations. \<open>Stream_Messages\<close>: the messages that
    are delivered; \<open>Stream_Text\<close>: their text, over a whole connection. \<open>Stream_Ends\<close>: the loops end when the transport has finitely many bytes to give (locale
    \<open>finite_transport\<close>, a measure on the bytes to come). \<open>Backpressure\<close>: how much is held back by a
    stream that is used for sending (\<open>sink_use\<close>).
  \<^item> \<open>Conversation\<close>: two ends. A \<open>session\<close> is any sequence of operations of one end with any results of
    its transport; \<open>transmits\<close> says that its outgoing bytes are the frames of all the messages that it has taken, in order and
    unchanged, with its own pongs and close messages between them. The other end reads what it has sent, all of it if it has all arrived (\<open>Late_Bytes\<close>: more
    bytes change nothing in the calls that did not wait for them). \<open>Close_Handshake\<close>: \<open>poll_close\<close> at one end,
    the answer of the other one, and the end of both.
  \<^item> \<open>Byte_Transport\<close>: the locale \<open>byte_transport\<close>, tokio-util on top of a byte stream (locale \<open>byte_stream\<close> of
    \<open>Tls\<close>), gives \<open>transport\<close> and \<open>finite_transport\<close>; \<open>framed_env\<close> is an instance over any byte stream.
    \<open>Full_Duplex\<close>: the invariant of a reader over such a stream, in the middle of a frame and of a message
    (locale \<open>framed_reader\<close>); \<open>Receiving\<close>: both ends used in any order, over a stream that may wait at any time
    (\<open>reading_session\<close>: the reading end does not call \<open>poll_close\<close>, which throws away the messages that it reads).
  \<^item> \<open>Waiting\<close>: a call is pending only if the transport is, for the caller's waker, and fails with an I/O error only
    if the transport has failed (locales \<open>heard_transport\<close>, and \<open>heard_stream\<close> with \<open>awaited_transport\<close> one level
    below). \<open>awaited_env\<close> is an instance over any byte stream.
  \<^item> \<open>Accessors\<close>: the small public functions of messages and streams; what a change of the limits does to a frame
    that is half read.

  Theories of the fuzz target, \<open>fuzz/fuzz_targets/stream.rs\<close>:

  \<^item> \<open>Fuzz_Stream\<close>: its transport, whose behaviour is scripted, as a byte stream that wakes whom it keeps waiting.
    \<open>Fuzz_Target\<close>: its operations, polled by an executor until they are done or canceled, and its check of
    what was written. No workload makes it panic or hang: this puts together most of the theories of the stream.

  Theories of the examples:

  \<^item> \<open>Echo\<close>: the loop of \<open>examples/autobahn_server.rs\<close> and \<open>examples/echo_server.rs\<close> as a task that is polled
    (\<open>echo_run\<close>), and what a client gets back from it. \<open>Benchmark_Client\<close>: the encoder of
    \<open>examples/utf8_benchmark_client.rs\<close>, which gives the frames of \<open>frames_of\<close>, and the server it measures.
  \<^item> \<open>Example_Server\<close>: the loop of \<open>examples/server.rs\<close> and of the benchmark's server, which sends back every
    message, and the program around it as a function of what happens to it (\<open>server_main_run\<close>); the close
    frame that ends it. \<open>Autobahn_Client\<close>: \<open>examples/autobahn_client.rs\<close> in the same way, with the connections that
    it opens. \<open>Hello_Examples\<close>: \<open>examples/rustls_server.rs\<close> and \<open>examples/native_tls_self_signed_client.rs\<close>, whose close
    frames cross.

  Theories of the handshake:

  \<^item> \<open>Upgrade\<close>: \<open>src/upgrade/\<close> and \<open>src/sha.rs\<close>. \<open>httparse\<close>, \<open>http\<close>, base64 and SHA-1 are the records
    \<open>http_lib\<close> and \<open>crypto\<close>; \<open>Http_Interface\<close> states the locales \<open>http_library\<close> and \<open>crypto_lib\<close> and proves
    what the codec makes of a plain request. \<open>Rfc_Crypto\<close> (base64 and SHA-1) and \<open>Plain_Http\<close> (a parser of
    HTTP heads, and a transport in memory for the handshake) are instances.
  \<^item> \<open>Http_Endpoints\<close>: the builders of \<open>src/client.rs\<close> and \<open>src/server.rs\<close>, and \<open>src/resolver.rs\<close>.
    \<open>Handshake\<close>: the locale \<open>handshake_io\<close> for \<open>FramedRead\<close> and \<open>write_all\<close> during the handshake, and
    both ends. \<open>Opening\<close>: whole handshakes. \<open>Upgrade_Checks\<close>: which requests and responses the two codecs
    accept and with which errors they refuse the others, against the fields that RFC 6455 asks for; a request target that makes the server
    panic. \<open>End_To_End\<close>: a handshake and the messages after it, with the bytes
    that have been read too early.
  \<^item> \<open>Tls\<close>: \<open>src/tls.rs\<close>, the choice of a connector by features and the stream that dispatches to the
    library in use; locales \<open>byte_stream\<close> and \<open>three_streams\<close>. \<open>Connecting\<close>: when a stream is plain.
  \<^item> \<open>Random_Keys\<close>: \<open>src/rand.rs\<close>, locale \<open>rng\<close>. \<open>Error_Display\<close>: the texts of errors, and what the peer is
    told of a violation.

  Bounds. \<open>usize\<close> is a natural number; where the code depends on its width, the limit on payloads is assumed
  to be at most \<open>usize_MAX\<close>, \<open>2 ^ 64 - 1\<close>, as the type says. Bytes, lengths in frame heads, masks, codes and
  ports are words. Fuel is used once, in \<open>write_loop\<close> of \<open>Tls\<close>, an example of a writer: every
  round writes at least a byte or ends, so that the length of the data is enough.

  Not modelled: capacities of buffers, the text of \<open>Debug\<close> implementations, conversions that only rename
  (\<open>Deref\<close>, \<open>From\<close> between byte containers). Bodies of other crates are arguments. An operation
  is one call of a \<open>poll\<close> function, so cancellation is that no further call comes; an executor is modelled for the
  fuzz target only (\<open>select_limited\<close>: a task that is pending is polled again once it has been woken). Of the examples,
  only what is named above is modelled, and not how they listen, load certificates, print and measure;
  \<open>examples/client.rs\<close>, which sends one message and prints what comes, benchmarks and tests have no model.
\<close>

end
